(* ===== verification/Prelude.thy ===== *)
theory Prelude
  imports Main "HOL-Library.Word" "HOL-Library.Multiset"
begin

text \<open>
  The vocabulary the component theories share.

  Python values. \<open>bytes\<close> are lists of 8-bit words, integers are \<open>int\<close> (or
  \<open>nat\<close> where the code cannot make them negative), strings are \<open>string\<close>, a raised
  exception is the left summand of a \<open>result\<close>. Slices \<open>b[i:j]\<close> are \<open>py_slice\<close>, which
  clips at the end of the list as Python does.

  \<open>sorted(xs, key=f)\<close> is the library's stable \<open>sort_key\<close>.
\<close>

section \<open>Results and exceptions\<close>

text \<open>The exceptions the modelled code raises, or lets through from a library it calls.\<close>

datatype py_error =
    ValueError string
  | StructError                 \<comment> \<open>\<open>struct.error\<close>: value out of range for the format\<close>
  | PyKeyError
  | IntegrityError              \<comment> \<open>a database constraint refused the write\<close>
  | InvalidTag                  \<comment> \<open>\<open>cryptography.exceptions.InvalidTag\<close>\<close>
  | LibraryError string         \<comment> \<open>any other exception of a called library\<close>
  | DecryptError string
  | EnvelopeError string
  | BlobCipherError string
  | PyRuntimeError string
  | PyNotImplementedError string
  | ClientError string string   \<comment> \<open>\<open>botocore\<close>: error code and lower-cased message\<close>
  | BackendUnreachableError string
  | ImmutableBlobError string
  | PyTypeError
  | HTTPException nat           \<comment> \<open>status code; the detail text is left out\<close>

type_synonym 'a result = "py_error + 'a"

definition bindE :: "'e + 'a \<Rightarrow> ('a \<Rightarrow> 'e + 'b) \<Rightarrow> 'e + 'b" where
  "bindE m f = (case m of Inl e \<Rightarrow> Inl e | Inr x \<Rightarrow> f x)"

lemma bindE_simps [simp]:
  "bindE (Inl e) f = Inl e"
  "bindE (Inr x) f = f x"
  by (simp_all add: bindE_def)

lemma bindE_eq_Inr [simp]: "bindE m f = Inr y \<longleftrightarrow> (\<exists>x. m = Inr x \<and> f x = Inr y)"
  by (cases m) auto

lemma bindE_assoc: "bindE (bindE m f) g = bindE m (\<lambda>x. bindE (f x) g)"
  by (cases m) auto

definition is_error :: "'e + 'a \<Rightarrow> bool" where
  "is_error r \<longleftrightarrow> (case r of Inl _ \<Rightarrow> True | Inr _ \<Rightarrow> False)"

lemma is_error_simps [simp]: "is_error (Inl e)" "\<not> is_error (Inr x)"
  by (simp_all add: is_error_def)

section \<open>Text\<close>

text \<open>\<open>needle in s\<close> on strings.\<close>

fun py_in :: "string \<Rightarrow> string \<Rightarrow> bool" where
  "py_in needle [] = (needle = [])"
| "py_in needle (c # cs) = (take (length needle) (c # cs) = needle \<or> py_in needle cs)"

text \<open>
  \<open>str.strip()\<close>, \<open>str.lower()\<close> and \<open>str.upper()\<close> on characters below 256, case mapping on ASCII
  letters; \<open>s.split(c)\<close> on one character.
\<close>

definition strip_char :: "char \<Rightarrow> bool" where
  "strip_char c \<longleftrightarrow> of_char c \<in> {9, 10, 11, 12, 13, 28, 29, 30, 31, 32, 133, 160 :: nat}"

definition py_strip :: "string \<Rightarrow> string" where
  "py_strip s = rev (dropWhile strip_char (rev (dropWhile strip_char s)))"

definition lower_char :: "char \<Rightarrow> char" where
  "lower_char c = (let n = of_char c :: nat in if 65 \<le> n \<and> n \<le> 90 then char_of (n + 32) else c)"

definition py_lower :: "string \<Rightarrow> string" where
  "py_lower s = map lower_char s"

definition upper_char :: "char \<Rightarrow> char" where
  "upper_char c = (let n = of_char c :: nat in if 97 \<le> n \<and> n \<le> 122 then char_of (n - 32) else c)"

definition py_upper :: "string \<Rightarrow> string" where
  "py_upper s = map upper_char s"

fun py_split :: "char \<Rightarrow> string \<Rightarrow> string list" where
  "py_split sep [] = [[]]"
| "py_split sep (c # cs) =
     (if c = sep then [] # py_split sep cs
      else (case py_split sep cs of [] \<Rightarrow> [[c]] | w # ws \<Rightarrow> (c # w) # ws))"

text \<open>\<open>int(s)\<close>: surrounding space, a sign, decimal digits with single underscores between them.\<close>

definition digit_value :: "char \<Rightarrow> nat option" where
  "digit_value c = (let n = of_char c :: nat in if 48 \<le> n \<and> n \<le> 57 then Some (n - 48) else None)"

fun parse_digits :: "nat \<Rightarrow> string \<Rightarrow> nat option" where
  "parse_digits acc [] = Some acc"
| "parse_digits acc [c] = (case digit_value c of None \<Rightarrow> None | Some d \<Rightarrow> Some (10 * acc + d))"
| "parse_digits acc (c # c' # cs) =
     (case digit_value c of
        Some d \<Rightarrow> parse_digits (10 * acc + d) (c' # cs)
      | None \<Rightarrow> if c = CHR ''_'' \<and> digit_value c' \<noteq> None then parse_digits acc (c' # cs) else None)"

definition parse_nat :: "string \<Rightarrow> nat option" where
  "parse_nat s = (case s of [] \<Rightarrow> None | c # _ \<Rightarrow> if digit_value c = None then None else parse_digits 0 s)"

definition py_int :: "string \<Rightarrow> int option" where
  "py_int s =
     (case py_strip s of
        [] \<Rightarrow> None
      | c # cs \<Rightarrow>
          if c = CHR ''-'' then map_option (\<lambda>n. - int n) (parse_nat cs)
          else if c = CHR ''+'' then map_option int (parse_nat cs)
          else map_option int (parse_nat (c # cs)))"

text \<open>A process environment.\<close>

type_synonym environ = "string \<rightharpoonup> string"

section \<open>Numbers as text\<close>

text \<open>\<open>str(n)\<close> of a non-negative integer.\<close>

definition digit_char :: "nat \<Rightarrow> char" where
  "digit_char d = char_of (48 + d)"

fun str_nat :: "nat \<Rightarrow> string" where
  "str_nat n = (if n < 10 then [digit_char n] else str_nat (n div 10) @ [digit_char (n mod 10)])"

declare str_nat.simps [simp del]

section \<open>Bytes\<close>

type_synonym byte = "8 word"
type_synonym bytes = "byte list"

definition py_slice :: "'a list \<Rightarrow> nat \<Rightarrow> nat \<Rightarrow> 'a list" where
  "py_slice xs i j = take (j - i) (drop i xs)"

lemma length_py_slice [simp]: "length (py_slice xs i j) = min (j - i) (length xs - i)"
  by (simp add: py_slice_def)

text \<open>\<open>[xs[i : i + n] for i in range(0, len(xs), n)]\<close>\<close>

definition plain_chunks :: "nat \<Rightarrow> 'a list \<Rightarrow> 'a list list" where
  "plain_chunks n xs =
     map (\<lambda>k. py_slice xs (k * n) (k * n + n)) [0..<(length xs + n - 1) div n]"

lemma plain_chunks_Nil [simp]: "0 < n \<Longrightarrow> plain_chunks n [] = []"
  by (simp add: plain_chunks_def)

lemma plain_chunks_step:
  assumes "0 < n" and "xs \<noteq> []"
  shows "plain_chunks n xs = take n xs # plain_chunks n (drop n xs)"
proof -
  have "(length xs + n - 1) div n = Suc ((length (drop n xs) + n - 1) div n)"
  proof (cases "n \<le> length xs")
    case True
    then have e: "length xs + n - 1 = (length (drop n xs) + n - 1) + n"
      using assms by (cases xs) auto
    have "(k + n) div n = Suc (k div n)" for k using assms(1) by (simp add: div_add_self2)
    then show ?thesis by (simp only: e)
  next
    case False
    obtain m where m: "length xs = Suc m" using assms(2) by (cases xs) auto
    with False have "length xs + n - 1 = m + n" "m < n" by auto
    then have "(length xs + n - 1) div n = 1" using assms(1) by (simp add: div_add_self2)
    moreover have "(length (drop n xs) + n - 1) div n = 0" using False assms(1) by simp
    ultimately show ?thesis by simp
  qed
  then have "[0..<(length xs + n - 1) div n] = 0 # map Suc [0..<(length (drop n xs) + n - 1) div n]"
    by (simp add: upt_conv_Cons map_Suc_upt)
  then show ?thesis
    by (simp add: plain_chunks_def py_slice_def comp_def add.commute)
qed

lemma plain_chunks_concat:
  assumes "0 < n" and "\<forall>f\<in>set fs. length f = n" and "r \<noteq> []" and "length r \<le> n"
  shows "plain_chunks n (concat fs @ r) = fs @ [r]"
  using assms(2)
proof (induction fs)
  case Nil
  then show ?case using assms by (simp add: plain_chunks_step)
next
  case (Cons f fs)
  have "concat (f # fs) @ r \<noteq> []" using assms by simp
  from plain_chunks_step [OF assms(1) this] Cons show ?case by simp
qed

lemma concat_plain_chunks [simp]: "0 < n \<Longrightarrow> concat (plain_chunks n xs) = xs"
proof (induction "length xs" arbitrary: xs rule: less_induct)
  case less
  show ?case
  proof (cases "xs = []")
    case False
    then have "length (drop n xs) < length xs" using less.prems by simp
    with False less show ?thesis by (simp add: plain_chunks_step)
  qed (simp add: less.prems)
qed

lemma plain_chunks_bound:
  assumes "0 < n" and "c \<in> set (plain_chunks n xs)"
  shows "length c \<le> n"
  using assms(2) by (auto simp: plain_chunks_def)

text \<open>\<open>struct.pack(">I", n)\<close>: four bytes, big-endian, an error outside \<open>0 .. 2^32 - 1\<close>.\<close>

definition pack_I :: "nat \<Rightarrow> bytes" where
  "pack_I n = [word_of_nat (n div 16777216), word_of_nat (n div 65536),
               word_of_nat (n div 256), word_of_nat n]"

definition struct_pack_I :: "int \<Rightarrow> bytes result" where
  "struct_pack_I n = (if 0 \<le> n \<and> n < 4294967296 then Inr (pack_I (nat n)) else Inl StructError)"

text \<open>\<open>struct.unpack(">I", b)\<close> on exactly four bytes, an error otherwise.\<close>

fun unpack_I :: "bytes \<Rightarrow> nat" where
  "unpack_I [a, b, c, d] = unat a * 16777216 + unat b * 65536 + unat c * 256 + unat d"
| "unpack_I _ = 0"

lemma length_pack_I [simp]: "length (pack_I n) = 4"
  by (simp add: pack_I_def)

lemma pack_I_not_Nil [simp]: "pack_I n \<noteq> []"
  by (simp add: pack_I_def)

lemma base256_split: "(n::nat) = (n div 256) * 256 + n mod 256"
  by simp

lemma base256_digits:
  "(n::nat) = n div 16777216 * 16777216 + n div 65536 mod 256 * 65536
     + n div 256 mod 256 * 256 + n mod 256"
proof -
  have 1: "n = (n div 256) * 256 + n mod 256" by (rule base256_split)
  have 2: "n div 256 = (n div 65536) * 256 + n div 256 mod 256"
    using base256_split [of "n div 256"] by (simp add: div_mult2_eq [symmetric])
  have 3: "n div 65536 = (n div 16777216) * 256 + n div 65536 mod 256"
    using base256_split [of "n div 65536"] by (simp add: div_mult2_eq [symmetric])
  from 1 2 3 show ?thesis by linarith
qed

lemma base256_div:
  fixes n d :: nat
  assumes "d < 256"
  shows "(n * 256 + d) div 256 = n" "(n * 256 + d) mod 256 = d"
  using assms by simp_all

lemma unpack_pack_I [simp]:
  assumes "n < 4294967296"
  shows "unpack_I (pack_I n) = n"
proof -
  have "n div 16777216 < 256" using assms by (simp add: less_mult_imp_div_less)
  then have "n div 16777216 mod 256 = n div 16777216" by simp
  then show ?thesis
    using base256_digits [of n] by (simp add: pack_I_def unat_of_nat)
qed

lemma unat_byte_less: "unat (b :: byte) < 256"
  using unsigned_less [where ?'a = nat, of b] by simp

lemma unpack_I_bound: "unpack_I bs < 4294967296"
proof (cases bs rule: unpack_I.cases)
  case (1 a b c d)
  have "unat a < 256" "unat b < 256" "unat c < 256" "unat d < 256"
    by (rule unat_byte_less)+
  with 1 show ?thesis by simp
qed simp_all

lemma word_of_nat_byte_add: "(word_of_nat (n * 256 + unat b) :: byte) = b"
  using unat_byte_less [of b] by (simp only: word_unat_eq_iff unat_of_nat) simp

lemma pack_unpack_I [simp]:
  assumes "length bs = 4"
  shows "pack_I (unpack_I bs) = bs"
proof -
  obtain a b c d where bs: "bs = [a, b, c, d]"
    using assms by (auto simp: numeral_eq_Suc length_Suc_conv)
  let ?k = "unat a * 256 + unat b"
  let ?m = "?k * 256 + unat c"
  let ?n = "?m * 256 + unat d"
  have n: "unpack_I bs = ?n" by (simp add: bs)
  have d1: "?n div 256 = ?m" by (rule base256_div) (rule unat_byte_less)
  have d2: "?m div 256 = ?k" by (rule base256_div) (rule unat_byte_less)
  have d3: "?k div 256 = unat a" by (rule base256_div) (rule unat_byte_less)
  have "?n div 65536 = ?n div 256 div 256" by (simp add: div_mult2_eq [symmetric])
  then have q2: "?n div 65536 = ?k" by (simp only: d1 d2)
  have "?n div 16777216 = ?n div 256 div 256 div 256" by (simp add: div_mult2_eq [symmetric])
  then have q3: "?n div 16777216 = unat a" by (simp only: d1 d2 d3)
  show ?thesis
    by (simp only: n pack_I_def d1 q2 q3 word_of_nat_byte_add)
      (simp add: bs)
qed

lemma struct_pack_I_nat [simp]:
  "n < 4294967296 \<Longrightarrow> struct_pack_I (int n) = Inr (pack_I n)"
  by (simp add: struct_pack_I_def)

lemma struct_pack_I_Inr:
  "struct_pack_I n = Inr bs \<Longrightarrow> 0 \<le> n \<and> n < 4294967296 \<and> bs = pack_I (nat n)"
  by (simp add: struct_pack_I_def split: if_splits)

lemma pack_I_inj: "m < 4294967296 \<Longrightarrow> n < 4294967296 \<Longrightarrow> pack_I m = pack_I n \<Longrightarrow> m = n"
  by (metis unpack_pack_I)

section \<open>Searching a list\<close>

lemma find_SomeD: "find P xs = Some x \<Longrightarrow> x \<in> set xs \<and> P x"
  by (induction xs) (auto split: if_splits)

lemma find_app: "find P (xs @ ys) = (case find P xs of None \<Rightarrow> find P ys | Some x \<Rightarrow> Some x)"
  by (induction xs) auto

end
