(* ===== verification/Framer.thy ===== *)
theory Framer
  imports Prelude
begin

text \<open>
  The AES-256-GCM chunked frame of \<open>shared/crypto/framer.py\<close>: \<open>encrypt\<close>, \<open>decrypt\<close> and
  their streaming forms. The AEAD primitive is the third-party class \<open>AESGCM\<close>; it is a parameter
  \<open>A\<close> of every operation, and what is assumed of it is a named hypothesis (\<open>aead_correct\<close>,
  \<open>aead_binds_aad\<close>). \<open>os.urandom(8)\<close> is the argument \<open>nonce_pfx\<close>.

  An async generator is modelled by what a consumer observes: the list of pieces it yields, and
  the exception that ended it, if any.
\<close>

section \<open>The AEAD primitive and the constants of the frame\<close>

record aesgcm =
  aes_encrypt :: "bytes \<Rightarrow> bytes \<Rightarrow> bytes \<Rightarrow> bytes \<Rightarrow> bytes result"  \<comment> \<open>key, nonce, data, aad\<close>
  aes_decrypt :: "bytes \<Rightarrow> bytes \<Rightarrow> bytes \<Rightarrow> bytes \<Rightarrow> bytes result"

text \<open>
  Documented behaviour of \<open>AESGCM\<close>: data of at most \<open>2^31 - 1\<close> bytes is encrypted, the tag adds
  16 bytes, and decrypting under the same key, nonce and associated data returns the data.
\<close>

definition aead_correct :: "aesgcm \<Rightarrow> bool" where
  "aead_correct A \<longleftrightarrow>
     (\<forall>k n p a. length k = 32 \<longrightarrow> length n = 12 \<longrightarrow> length p < 2147483648 \<longrightarrow>
       (\<exists>c. aes_encrypt A k n p a = Inr c \<and> length c = length p + 16
            \<and> aes_decrypt A k n c a = Inr p))"

text \<open>
  Associated data is authenticated: a ciphertext made under one associated data raises
  \<open>InvalidTag\<close> under another. Stated only for the associated data the frame uses, that is for one
  header \<open>h\<close> followed by five bytes (chunk index and finality).
\<close>

definition aead_binds_aad :: "aesgcm \<Rightarrow> bool" where
  "aead_binds_aad A \<longleftrightarrow>
     (\<forall>k n n' p c h s s'. aes_encrypt A k n p (h @ s) = Inr c \<longrightarrow> length s = 5 \<longrightarrow> length s' = 5
        \<longrightarrow> length n = 12 \<longrightarrow> length n' = 12 \<longrightarrow> length h = 18
        \<longrightarrow> s \<noteq> s' \<longrightarrow> aes_decrypt A k n' c (h @ s') = Inl InvalidTag)"

definition MAGIC :: bytes where
  "MAGIC = [0x54, 0x4D, 0x56, 0x31]"   \<comment> \<open>\<open>b"TMV1"\<close>\<close>

definition VERSION :: byte where
  "VERSION = 1"

definition HEADER_LEN :: nat where
  "HEADER_LEN = 18"

definition TAG_LEN :: nat where
  "TAG_LEN = 16"

definition MAX_CHUNKS :: nat where
  "MAX_CHUNKS = 4294967296"

definition framer_is_encrypted :: "bytes \<Rightarrow> bool" where
  "framer_is_encrypted data \<longleftrightarrow>
     HEADER_LEN \<le> length data \<and> py_slice data 0 4 = MAGIC \<and> data ! 4 = VERSION"

definition framer_header :: "int \<Rightarrow> bytes \<Rightarrow> bytes result" where
  "framer_header chunk_size nonce_pfx =
     bindE (struct_pack_I chunk_size) (\<lambda>c. Inr (MAGIC @ [VERSION, 0] @ c @ nonce_pfx))"

definition framer_aad :: "bytes \<Rightarrow> nat \<Rightarrow> bool \<Rightarrow> bytes result" where
  "framer_aad header index final =
     bindE (struct_pack_I (int index)) (\<lambda>i. Inr (header @ i @ [if final then 1 else 0]))"

section \<open>Encryption\<close>

definition seal_chunk ::
    "aesgcm \<Rightarrow> bytes \<Rightarrow> bytes \<Rightarrow> bytes \<Rightarrow> nat \<Rightarrow> bytes \<Rightarrow> bool \<Rightarrow> bytes result" where
  "seal_chunk A key nonce_pfx header index chunk final =
     bindE (struct_pack_I (int index)) (\<lambda>i.
     bindE (framer_aad header index final) (\<lambda>aad.
     bindE (aes_encrypt A key (nonce_pfx @ i) chunk aad) (\<lambda>ct.
     bindE (struct_pack_I (int (length ct))) (\<lambda>l. Inr (l @ ct)))))"

definition open_chunk ::
    "aesgcm \<Rightarrow> bytes \<Rightarrow> bytes \<Rightarrow> bytes \<Rightarrow> nat \<Rightarrow> bytes \<Rightarrow> bool \<Rightarrow> bytes result" where
  "open_chunk A key nonce_pfx header index ct final =
     bindE (struct_pack_I (int index)) (\<lambda>i.
     bindE (framer_aad header index final) (\<lambda>aad.
     case aes_decrypt A key (nonce_pfx @ i) ct aad of
       Inl InvalidTag \<Rightarrow> Inl (DecryptError (''authentication failed at chunk '' @ str_nat index))
     | r \<Rightarrow> r))"

fun encrypt_loop ::
    "aesgcm \<Rightarrow> bytes \<Rightarrow> bytes \<Rightarrow> bytes \<Rightarrow> nat \<Rightarrow> nat \<Rightarrow> bytes list \<Rightarrow> bytes \<Rightarrow> bytes result" where
  "encrypt_loop A key nonce_pfx header last_i i [] out = Inr out"
| "encrypt_loop A key nonce_pfx header last_i i (chunk # chunks) out =
     bindE (seal_chunk A key nonce_pfx header i chunk (i = last_i)) (\<lambda>b.
       encrypt_loop A key nonce_pfx header last_i (Suc i) chunks (out @ b))"

definition encrypt :: "aesgcm \<Rightarrow> bytes \<Rightarrow> bytes \<Rightarrow> bytes \<Rightarrow> int \<Rightarrow> bytes result" where
  "encrypt A nonce_pfx plaintext key chunk_size =
     (if length key \<noteq> 32 then Inl (ValueError ''key must be 32 bytes (AES-256)'')
      else if chunk_size \<le> 0 then Inl (ValueError ''chunk_size must be positive'')
      else bindE (framer_header chunk_size nonce_pfx) (\<lambda>header.
        let cs = plain_chunks (nat chunk_size) plaintext;
            chunks = (if cs = [] then [[]] else cs)
        in if MAX_CHUNKS \<le> length chunks
           then Inl (ValueError ''plaintext too large for the 32-bit chunk counter'')
           else encrypt_loop A key nonce_pfx header (length chunks - 1) 0 chunks header))"

text \<open>What a consumer of an async generator observes.\<close>

type_synonym gen = "bytes list \<times> py_error option"

definition gen_result :: "gen \<Rightarrow> bytes result" where
  "gen_result g = (case snd g of None \<Rightarrow> Inr (concat (fst g)) | Some e \<Rightarrow> Inl e)"

text \<open>
  The \<open>while len(buf) > chunk_size\<close> loop of \<open>encrypt_stream\<close>: the state is \<open>(buf, index, held)\<close>
  and the pieces yielded so far. \<open>Inl\<close> is an exception raised inside the generator.
\<close>

type_synonym enc_state = "bytes \<times> nat \<times> bytes option \<times> bytes list"

function drain_full ::
    "aesgcm \<Rightarrow> bytes \<Rightarrow> bytes \<Rightarrow> bytes \<Rightarrow> nat \<Rightarrow> bytes \<Rightarrow> nat \<Rightarrow> bytes option \<Rightarrow> bytes list
       \<Rightarrow> (bytes list \<times> py_error) + enc_state" where
  "drain_full A key nonce_pfx header cs buf index held out =
     (if 0 < cs \<and> cs < length buf then
        (case held of
           None \<Rightarrow> drain_full A key nonce_pfx header cs (drop cs buf) index (Some (take cs buf)) out
         | Some h \<Rightarrow>
             (case seal_chunk A key nonce_pfx header index h False of
                Inl e \<Rightarrow> Inl (out, e)
              | Inr b \<Rightarrow> drain_full A key nonce_pfx header cs (drop cs buf) (Suc index)
                           (Some (take cs buf)) (out @ [b])))
      else Inr (buf, index, held, out))"
  by pat_completeness auto
termination
  by (relation "measure (\<lambda>(A, key, nonce_pfx, header, cs, buf, index, held, out). length buf)") auto

declare drain_full.simps [simp del]

fun encrypt_pieces ::
    "aesgcm \<Rightarrow> bytes \<Rightarrow> bytes \<Rightarrow> bytes \<Rightarrow> nat \<Rightarrow> bytes list \<Rightarrow> bytes \<Rightarrow> nat \<Rightarrow> bytes option \<Rightarrow> bytes list
       \<Rightarrow> (bytes list \<times> py_error) + enc_state" where
  "encrypt_pieces A key nonce_pfx header cs [] buf index held out = Inr (buf, index, held, out)"
| "encrypt_pieces A key nonce_pfx header cs (piece # pieces) buf index held out =
     bindE (drain_full A key nonce_pfx header cs (buf @ piece) index held out)
       (\<lambda>(buf', index', held', out').
          encrypt_pieces A key nonce_pfx header cs pieces buf' index' held' out')"

definition encrypt_finish :: "aesgcm \<Rightarrow> bytes \<Rightarrow> bytes \<Rightarrow> bytes \<Rightarrow> enc_state \<Rightarrow> gen" where
  "encrypt_finish A key nonce_pfx header st =
     (case st of (buf, index, held, out) \<Rightarrow>
       (case (case held of
                None \<Rightarrow> Inr (index, out)
              | Some h \<Rightarrow>
                  (case seal_chunk A key nonce_pfx header index h False of
                     Inl e \<Rightarrow> Inl (out, e) | Inr b \<Rightarrow> Inr (Suc index, out @ [b]))) of
          Inl (out', e) \<Rightarrow> (out', Some e)
        | Inr (index', out') \<Rightarrow>
            (case seal_chunk A key nonce_pfx header index' buf True of
               Inl e \<Rightarrow> (out', Some e)
             | Inr b \<Rightarrow> (out' @ [b], None))))"

definition encrypt_stream :: "aesgcm \<Rightarrow> bytes \<Rightarrow> bytes list \<Rightarrow> bytes \<Rightarrow> int \<Rightarrow> gen" where
  "encrypt_stream A nonce_pfx plaintext key chunk_size =
     (if length key \<noteq> 32 then ([], Some (ValueError ''key must be 32 bytes (AES-256)''))
      else if chunk_size \<le> 0 then ([], Some (ValueError ''chunk_size must be positive''))
      else (case framer_header chunk_size nonce_pfx of
          Inl e \<Rightarrow> ([], Some e)
        | Inr header \<Rightarrow>
            (case encrypt_pieces A key nonce_pfx header (nat chunk_size) plaintext [] 0 None [header] of
               Inl (out, e) \<Rightarrow> (out, Some e)
             | Inr st \<Rightarrow> encrypt_finish A key nonce_pfx header st)))"

section \<open>Decryption\<close>

text \<open>The pre-scan of \<open>decrypt\<close>: the ciphertext spans of a frame from position \<open>pos\<close> on.\<close>

function scan_spans :: "bytes \<Rightarrow> nat \<Rightarrow> (nat \<times> nat) list \<Rightarrow> (nat \<times> nat) list result" where
  "scan_spans frame pos spans =
     (if pos < length frame then
        if length frame < pos + 4 then Inl (DecryptError ''truncated chunk length prefix'')
        else let ct_len = unpack_I (py_slice frame pos (pos + 4)); pos' = pos + 4
             in if ct_len < TAG_LEN \<or> length frame < pos' + ct_len
                then Inl (DecryptError ''truncated or invalid chunk'')
                else scan_spans frame (pos' + ct_len) (spans @ [(pos', pos' + ct_len)])
      else Inr spans)"
  by pat_completeness auto
termination
  by (relation "measure (\<lambda>(frame, pos, spans). length frame - pos)") (auto simp: TAG_LEN_def)

declare scan_spans.simps [simp del]

fun decrypt_loop ::
    "aesgcm \<Rightarrow> bytes \<Rightarrow> bytes \<Rightarrow> bytes \<Rightarrow> bytes \<Rightarrow> nat \<Rightarrow> nat \<Rightarrow> (nat \<times> nat) list \<Rightarrow> bytes \<Rightarrow> bytes result"
  where
  "decrypt_loop A key nonce_pfx header frame last_i i [] out = Inr out"
| "decrypt_loop A key nonce_pfx header frame last_i i ((start, end) # spans) out =
     bindE (open_chunk A key nonce_pfx header i (py_slice frame start end) (i = last_i)) (\<lambda>p.
       decrypt_loop A key nonce_pfx header frame last_i (Suc i) spans (out @ p))"

definition decrypt :: "aesgcm \<Rightarrow> bytes \<Rightarrow> bytes \<Rightarrow> bytes result" where
  "decrypt A frame key =
     (if length key \<noteq> 32 then Inl (ValueError ''key must be 32 bytes (AES-256)'')
      else if \<not> framer_is_encrypted frame then Inl (DecryptError ''not a TMV1 frame'')
      else let header = py_slice frame 0 HEADER_LEN; nonce_pfx = py_slice header 10 18
           in bindE (scan_spans frame HEADER_LEN []) (\<lambda>spans.
                if spans = [] then Inl (DecryptError ''no chunks'')
                else decrypt_loop A key nonce_pfx header frame (length spans - 1) 0 spans []))"

text \<open>\<open>_fill(n)\<close> pulls pieces until the buffer holds \<open>n\<close> bytes or the stream ends.\<close>

fun fill :: "nat \<Rightarrow> bytes \<Rightarrow> bytes list \<Rightarrow> bool \<times> bytes \<times> bytes list" where
  "fill n buf [] = (n \<le> length buf, buf, [])"
| "fill n buf (p # ps) =
     (if length buf < n then fill n (buf @ p) ps else (True, buf, p # ps))"

lemma fill_concat: "fill n buf ps = (ok, buf', ps') \<Longrightarrow> buf' @ concat ps' = buf @ concat ps"
  by (induction n buf ps rule: fill.induct) (auto split: if_splits)

lemma fill_ok: "fill n buf ps = (ok, buf', ps') \<Longrightarrow> ok = (n \<le> length (buf @ concat ps))"
  by (induction n buf ps rule: fill.induct) (auto split: if_splits)

lemma fill_enough: "fill n buf ps = (True, buf', ps') \<Longrightarrow> n \<le> length buf'"
  by (induction n buf ps rule: fill.induct) (auto split: if_splits)

lemma fill_exhausted: "fill n buf ps = (False, buf', ps') \<Longrightarrow> ps' = [] \<and> length buf' < n"
  by (induction n buf ps rule: fill.induct) (auto split: if_splits)

text \<open>The \<open>while True\<close> loop of \<open>decrypt_stream\<close>, and the final chunk after it.\<close>

function decrypt_stream_loop ::
    "aesgcm \<Rightarrow> bytes \<Rightarrow> bytes \<Rightarrow> bytes \<Rightarrow> bytes \<Rightarrow> bytes list \<Rightarrow> nat \<Rightarrow> (nat \<times> bytes) option \<Rightarrow> bytes list
       \<Rightarrow> gen" where
  "decrypt_stream_loop A key nonce_pfx header buf ps index held out =
     (case fill 4 buf ps of
        (False, _, _) \<Rightarrow>
          (case held of
             None \<Rightarrow> (out, Some (DecryptError ''no chunks''))
           | Some (i, ct) \<Rightarrow>
               (case open_chunk A key nonce_pfx header i ct True of
                  Inl e \<Rightarrow> (out, Some e) | Inr p \<Rightarrow> (out @ [p], None)))
      | (True, buf1, ps1) \<Rightarrow>
          (let ct_len = unpack_I (take 4 buf1)
           in if ct_len < TAG_LEN then (out, Some (DecryptError ''invalid chunk length''))
              else (case fill (4 + ct_len) buf1 ps1 of
                  (False, _, _) \<Rightarrow> (out, Some (DecryptError ''truncated chunk''))
                | (True, buf2, ps2) \<Rightarrow>
                    (let ct = py_slice buf2 4 (4 + ct_len); rest = drop (4 + ct_len) buf2
                     in case held of
                          None \<Rightarrow> decrypt_stream_loop A key nonce_pfx header rest ps2 (Suc index)
                                    (Some (index, ct)) out
                        | Some (i, hct) \<Rightarrow>
                            (case open_chunk A key nonce_pfx header i hct False of
                               Inl e \<Rightarrow> (out, Some e)
                             | Inr p \<Rightarrow> decrypt_stream_loop A key nonce_pfx header rest ps2
                                          (Suc index) (Some (index, ct)) (out @ [p]))))))"
  by pat_completeness auto
termination
proof (relation "measure (\<lambda>(A, key, nonce_pfx, header, buf, ps, index, held, out).
                   length buf + length (concat ps))", goal_cases)
  case 1
  show ?case by simp
next
  case (2 A key nonce_pfx header buf ps index held out x buf1ps1 buf1 ps1 ct_len y buf2ps2 buf2 ps2)
  then show ?case
    using fill_concat [of 4 buf ps True buf1 ps1] fill_concat [of "4 + ct_len" buf1 ps1 True buf2 ps2]
      fill_enough [of "4 + ct_len" buf1 ps1 buf2 ps2]
    by (auto dest!: arg_cong [where f = length])
next
  case (3 A key nonce_pfx header buf ps index held out x buf1ps1 buf1 ps1 ct_len y buf2ps2 buf2 ps2)
  then show ?case
    using fill_concat [of 4 buf ps True buf1 ps1] fill_concat [of "4 + ct_len" buf1 ps1 True buf2 ps2]
      fill_enough [of "4 + ct_len" buf1 ps1 buf2 ps2]
    by (auto dest!: arg_cong [where f = length])
qed

declare decrypt_stream_loop.simps [simp del]

definition decrypt_stream :: "aesgcm \<Rightarrow> bytes list \<Rightarrow> bytes \<Rightarrow> gen" where
  "decrypt_stream A cipher key =
     (if length key \<noteq> 32 then ([], Some (ValueError ''key must be 32 bytes (AES-256)''))
      else (case fill HEADER_LEN [] cipher of
          (False, _, _) \<Rightarrow> ([], Some (DecryptError ''truncated header''))
        | (True, buf, ps) \<Rightarrow>
            (let header = take HEADER_LEN buf
             in if py_slice header 0 4 \<noteq> MAGIC \<or> header ! 4 \<noteq> VERSION
                then ([], Some (DecryptError ''not a TMV1 frame''))
                else decrypt_stream_loop A key (py_slice header 10 18) header (drop HEADER_LEN buf) ps
                       0 None [])))"


section \<open>Splitting into chunks\<close>

text \<open>The chunk list of \<open>encrypt\<close>, a single empty chunk for an empty plaintext.\<close>

definition chunk_list :: "nat \<Rightarrow> bytes \<Rightarrow> bytes list" where
  "chunk_list n xs = (if plain_chunks n xs = [] then [[]] else plain_chunks n xs)"

lemma chunk_list_nonempty [simp]: "chunk_list n xs \<noteq> []"
  by (simp add: chunk_list_def)

lemma concat_chunk_list [simp]: "0 < n \<Longrightarrow> concat (chunk_list n xs) = xs"
  using concat_plain_chunks [of n xs]
  by (auto simp: chunk_list_def simp del: concat_plain_chunks)

lemma chunk_list_bound: "0 < n \<Longrightarrow> c \<in> set (chunk_list n xs) \<Longrightarrow> length c \<le> n"
  by (auto simp: chunk_list_def plain_chunks_bound split: if_splits)

section \<open>Streaming encryption yields the single-shot frame\<close>

text \<open>
  \<open>split_full\<close> is what the strict \<open>while len(buf) > chunk_size\<close> loop removes from a buffer, and
  \<open>seal_run\<close> the sealing of a run of non-final chunks.
\<close>

function split_full :: "nat \<Rightarrow> 'a list \<Rightarrow> 'a list list \<times> 'a list" where
  "split_full cs buf =
     (if 0 < cs \<and> cs < length buf
      then (let (fs, r) = split_full cs (drop cs buf) in (take cs buf # fs, r)) else ([], buf))"
  by pat_completeness auto
termination
  by (relation "measure (\<lambda>(cs, buf). length buf)") auto

declare split_full.simps [simp del]

lemma split_full_short: "length buf \<le> cs \<Longrightarrow> split_full cs buf = ([], buf)"
  by (simp add: split_full.simps)

lemma split_full_append:
  "split_full cs (x @ q) =
     (let (f1, r1) = split_full cs x; (f2, r2) = split_full cs (r1 @ q) in (f1 @ f2, r2))"
proof (induction cs x rule: split_full.induct)
  case (1 cs x)
  show ?case
  proof (cases "0 < cs \<and> cs < length x")
    case True
    have "split_full cs (x @ q) =
        (let (fs, r) = split_full cs (drop cs x @ q) in (take cs x # fs, r))"
      using True by (subst split_full.simps) simp
    also have "\<dots> = (let (f1, r1) = split_full cs (drop cs x); (f2, r2) = split_full cs (r1 @ q)
                      in (take cs x # f1 @ f2, r2))"
      using "1.IH" [OF True] by (simp add: Let_def case_prod_beta)
    finally show ?thesis
      using True by (simp add: split_full.simps [of cs x] Let_def case_prod_beta)
  next
    case False
    then have "split_full cs x = ([], x)" by (auto simp: split_full.simps [of cs x])
    then show ?thesis by simp
  qed
qed

lemma split_full_props:
  assumes "split_full cs x = (fs, r)" and "0 < cs"
  shows "concat fs @ r = x \<and> (\<forall>f\<in>set fs. length f = cs) \<and> length r \<le> cs \<and> (x \<noteq> [] \<longrightarrow> r \<noteq> [])"
  using assms
proof (induction cs x arbitrary: fs r rule: split_full.induct)
  case (1 cs x)
  show ?case
  proof (cases "cs < length x")
    case True
    obtain fs' where fs': "split_full cs (drop cs x) = (fs', r)" "fs = take cs x # fs'"
      using "1.prems" True by (auto simp: split_full.simps [of cs x] Let_def split: prod.splits)
    have "concat fs' @ r = drop cs x \<and> (\<forall>f\<in>set fs'. length f = cs) \<and> length r \<le> cs
        \<and> (drop cs x \<noteq> [] \<longrightarrow> r \<noteq> [])"
      using "1.IH" [OF _ fs'(1)] True "1.prems" by simp
    then show ?thesis using True fs'(2) by auto
  next
    case False
    then show ?thesis using "1.prems" by (auto simp: split_full.simps [of cs x])
  qed
qed

lemma chunk_list_split_full:
  assumes "0 < cs" and "split_full cs x = (fs, r)"
  shows "chunk_list cs x = fs @ [r]"
proof (cases "x = []")
  case True
  then show ?thesis using assms by (simp add: chunk_list_def split_full.simps)
next
  case False
  with split_full_props [OF assms(2,1)] plain_chunks_concat [OF assms(1), of fs r]
  show ?thesis by (simp add: chunk_list_def)
qed

fun seal_run ::
    "aesgcm \<Rightarrow> bytes \<Rightarrow> bytes \<Rightarrow> bytes \<Rightarrow> nat \<Rightarrow> bytes list \<Rightarrow> bytes list
       \<Rightarrow> (bytes list \<times> py_error) + bytes list" where
  "seal_run A key pfx header i [] out = Inr out"
| "seal_run A key pfx header i (c # cs) out =
     (case seal_chunk A key pfx header i c False of
        Inl e \<Rightarrow> Inl (out, e)
      | Inr b \<Rightarrow> seal_run A key pfx header (Suc i) cs (out @ [b]))"

lemma seal_run_append:
  "seal_run A key pfx header i (xs @ ys) out =
     bindE (seal_run A key pfx header i xs out)
       (\<lambda>out'. seal_run A key pfx header (i + length xs) ys out')"
  by (induction xs arbitrary: i out) (auto split: sum.splits)

definition opt_list :: "'a option \<Rightarrow> 'a list" where
  "opt_list x = (case x of None \<Rightarrow> [] | Some a \<Rightarrow> [a])"

lemma opt_list_simps [simp]: "opt_list None = []" "opt_list (Some a) = [a]"
  by (simp_all add: opt_list_def)

definition last_opt :: "'a list \<Rightarrow> 'a option" where
  "last_opt xs = (if xs = [] then None else Some (last xs))"

lemma last_opt_opt_list [simp]: "last_opt (opt_list h) = h"
  by (cases h) (auto simp: last_opt_def)

lemma last_opt_step: "last_opt (opt_list (last_opt xs) @ ys) = last_opt (xs @ ys)"
  by (auto simp: last_opt_def)

lemma butlast_step: "butlast xs @ butlast (opt_list (last_opt xs) @ ys) = butlast (xs @ ys)"
  by (auto simp: last_opt_def butlast_append)

lemma opt_list_short [simp]: "butlast (opt_list h) = []" "length (opt_list h) \<le> Suc 0"
  by (cases h; simp)+

lemma drain_full_eq:
  "drain_full A key pfx header cs buf index held out =
     (let hs = opt_list held @ fst (split_full cs buf)
      in bindE (seal_run A key pfx header index (butlast hs) out)
           (\<lambda>out'. Inr (snd (split_full cs buf), index + length (butlast hs), last_opt hs, out')))"
proof (induction A key pfx header cs buf index held out rule: drain_full.induct)
  case (1 A key pfx header cs buf index held out)
  show ?case
  proof (cases "0 < cs \<and> cs < length buf")
    case True
    obtain fs r where fr: "split_full cs (drop cs buf) = (fs, r)" by fastforce
    with True have sb: "split_full cs buf = (take cs buf # fs, r)"
      by (simp add: split_full.simps [of cs buf])
    show ?thesis
    proof (cases held)
      case None
      show ?thesis
        using "1.IH"(1) [OF True None] True None
        by (simp add: drain_full.simps [of A key pfx header cs buf] fr sb Let_def)
    next
      case (Some h)
      show ?thesis
      proof (cases "seal_chunk A key pfx header index h False")
        case (Inl e)
        then show ?thesis using True Some
          by (simp add: drain_full.simps [of A key pfx header cs buf] sb Let_def)
      next
        case (Inr b)
        show ?thesis
          using "1.IH"(2) [OF True Some Inr] True Some Inr
          by (simp add: drain_full.simps [of A key pfx header cs buf] fr sb Let_def last_opt_def)
      qed
    qed
  next
    case False
    then show ?thesis
      by (auto simp: drain_full.simps [of A key pfx header cs buf] split_full.simps [of cs buf])
  qed
qed

lemma encrypt_pieces_eq:
  assumes "0 < cs" and "length buf \<le> cs"
  shows "encrypt_pieces A key pfx header cs pieces buf index held out =
     (let x = buf @ concat pieces; hs = opt_list held @ fst (split_full cs x)
      in bindE (seal_run A key pfx header index (butlast hs) out)
           (\<lambda>out'. Inr (snd (split_full cs x), index + length (butlast hs), last_opt hs, out')))"
  using assms(2)
proof (induction pieces arbitrary: buf index held out)
  case Nil
  then show ?case by (simp add: split_full_short)
next
  case (Cons p ps)
  obtain f1 r1 where s1: "split_full cs (buf @ p) = (f1, r1)" by fastforce
  obtain f2 r2 where s2: "split_full cs (r1 @ concat ps) = (f2, r2)" by fastforce
  have s: "split_full cs ((buf @ p) @ concat ps) = (f1 @ f2, r2)"
    by (subst split_full_append) (simp add: s1 s2)
  have r1: "length r1 \<le> cs"
    using split_full_props [OF s1 assms(1)] by simp
  let ?h1 = "opt_list held @ f1" and ?h2 = "opt_list (last_opt (opt_list held @ f1)) @ f2"
  have b: "butlast (?h1 @ f2) = butlast ?h1 @ butlast ?h2"
    by (rule butlast_step [symmetric])
  have l: "last_opt (?h1 @ f2) = last_opt ?h2"
    by (rule last_opt_step [symmetric])
  have run: "seal_run A key pfx header index (butlast (?h1 @ f2)) out =
      bindE (seal_run A key pfx header index (butlast ?h1) out)
        (\<lambda>o1. seal_run A key pfx header (index + length (butlast ?h1)) (butlast ?h2) o1)"
    by (simp only: b seal_run_append)
  have "encrypt_pieces A key pfx header cs (p # ps) buf index held out =
      bindE (seal_run A key pfx header index (butlast ?h1) out) (\<lambda>o1.
        encrypt_pieces A key pfx header cs ps r1 (index + length (butlast ?h1)) (last_opt ?h1) o1)"
    by (simp only: encrypt_pieces.simps drain_full_eq s1 Let_def fst_conv snd_conv bindE_assoc
        bindE_simps case_prod_conv)
  also have "\<dots> = bindE (seal_run A key pfx header index (butlast (?h1 @ f2)) out)
      (\<lambda>o2. Inr (r2, index + length (butlast (?h1 @ f2)), last_opt (?h1 @ f2), o2))"
    by (simp only: Cons.IH [OF r1] run s2 Let_def fst_conv snd_conv bindE_assoc l)
      (simp only: b length_append add.assoc)
  finally show ?case using s by (simp add: Let_def)
qed

lemma encrypt_loop_eq:
  "encrypt_loop A key pfx header (i + length hs) i (hs @ [r]) (concat out) =
     (case seal_run A key pfx header i hs out of
        Inl (out', e) \<Rightarrow> Inl e
      | Inr out' \<Rightarrow> bindE (seal_chunk A key pfx header (i + length hs) r True)
                     (\<lambda>b. Inr (concat out' @ b)))"
proof (induction hs arbitrary: i out)
  case Nil
  show ?case by simp
next
  case (Cons h hs)
  show ?case
  proof (cases "seal_chunk A key pfx header i h False")
    case (Inr b)
    then show ?thesis using Cons.IH [of "Suc i" "out @ [b]"] by (simp split: sum.split)
  qed simp
qed

lemma encrypt_finish_eq:
  assumes "seal_run A key pfx header 0 (butlast hs) out0 = Inr out"
  shows "gen_result (encrypt_finish A key pfx header (r, length (butlast hs), last_opt hs, out)) =
     (case seal_run A key pfx header 0 hs out0 of
        Inl (out', e) \<Rightarrow> Inl e
      | Inr out' \<Rightarrow> bindE (seal_chunk A key pfx header (length hs) r True)
                     (\<lambda>b. Inr (concat out' @ b)))"
proof (cases hs rule: rev_cases)
  case Nil
  with assms show ?thesis
    by (auto simp: encrypt_finish_def gen_result_def last_opt_def split: sum.splits)
next
  case (snoc ys h)
  with assms show ?thesis
    by (auto simp: encrypt_finish_def gen_result_def last_opt_def seal_run_append split: sum.splits)
qed

lemma encrypt_eq:
  "encrypt A pfx plaintext key cs =
     (if length key \<noteq> 32 then Inl (ValueError ''key must be 32 bytes (AES-256)'')
      else if cs \<le> 0 then Inl (ValueError ''chunk_size must be positive'')
      else bindE (framer_header cs pfx) (\<lambda>header.
        let chunks = chunk_list (nat cs) plaintext
        in if MAX_CHUNKS \<le> length chunks
           then Inl (ValueError ''plaintext too large for the 32-bit chunk counter'')
           else encrypt_loop A key pfx header (length chunks - 1) 0 chunks header))"
  by (simp add: encrypt_def chunk_list_def)

text \<open>
  Whatever the boundaries of the incoming pieces, \<open>encrypt_stream\<close> yields the frame \<open>encrypt\<close>
  returns for the joined plaintext, or ends in its exception.
\<close>

lemma encrypt_stream_eq_encrypt:
  assumes "length (plain_chunks (nat cs) (concat pieces)) < MAX_CHUNKS"
  shows "gen_result (encrypt_stream A pfx pieces key cs) = encrypt A pfx (concat pieces) key cs"
proof (cases "length key = 32 \<and> 0 < cs")
  case False
  then show ?thesis by (auto simp: encrypt_stream_def encrypt_eq gen_result_def)
next
  case True
  then have cs: "0 < nat cs" by simp
  obtain fs r where fr: "split_full (nat cs) (concat pieces) = (fs, r)" by fastforce
  have chunks: "chunk_list (nat cs) (concat pieces) = fs @ [r]"
    by (rule chunk_list_split_full [OF cs fr])
  have lim: "\<not> MAX_CHUNKS \<le> Suc (length fs)"
    using assms chunks by (auto simp: chunk_list_def MAX_CHUNKS_def split: if_splits)
  show ?thesis
  proof (cases "framer_header cs pfx")
    case (Inl e)
    with True show ?thesis by (simp add: encrypt_stream_def encrypt_eq gen_result_def)
  next
    case (Inr header)
    have pieces: "encrypt_pieces A key pfx header (nat cs) pieces [] 0 None [header] =
        bindE (seal_run A key pfx header 0 (butlast fs) [header])
          (\<lambda>out. Inr (r, length (butlast fs), last_opt fs, out))"
      using encrypt_pieces_eq [OF cs, of "[]" A key pfx header pieces 0 None "[header]"] fr
      by (simp add: Let_def)
    have enc: "encrypt A pfx (concat pieces) key cs =
        (case seal_run A key pfx header 0 fs [header] of
           Inl (out', e) \<Rightarrow> Inl e
         | Inr out' \<Rightarrow> bindE (seal_chunk A key pfx header (length fs) r True)
                        (\<lambda>b. Inr (concat out' @ b)))"
      using True Inr lim encrypt_loop_eq [of A key pfx header 0 fs r "[header]"]
      by (simp add: encrypt_eq chunks Let_def split: sum.split)
    show ?thesis
    proof (cases "seal_run A key pfx header 0 (butlast fs) [header]")
      case (Inl oe)
      then have "seal_run A key pfx header 0 fs [header] = Inl oe"
        by (cases fs rule: rev_cases) (auto simp: seal_run_append)
      with True Inr Inl show ?thesis
        by (cases oe) (simp add: encrypt_stream_def pieces enc gen_result_def)
    next
      case (Inr out)
      with True \<open>framer_header cs pfx = Inr header\<close> encrypt_finish_eq [OF Inr, of r]
      show ?thesis by (simp add: encrypt_stream_def pieces enc)
    qed
  qed
qed

section \<open>The wire format and its parser\<close>

text \<open>
  \<open>frame_body\<close> is the concatenation of length-prefixed ciphertexts. \<open>parse_body\<close> is a reference
  parser on byte lists; the position-based pre-scan of \<open>decrypt\<close> computes the same chunk list.
\<close>

definition frame_chunk :: "bytes \<Rightarrow> bytes" where
  "frame_chunk ct = pack_I (length ct) @ ct"

definition frame_body :: "bytes list \<Rightarrow> bytes" where
  "frame_body cts = concat (map frame_chunk cts)"

definition wf_ct :: "bytes \<Rightarrow> bool" where
  "wf_ct ct \<longleftrightarrow> TAG_LEN \<le> length ct \<and> length ct < 4294967296"

lemma frame_body_simps [simp]:
  "frame_body [] = []"
  "frame_body (ct # cts) = pack_I (length ct) @ ct @ frame_body cts"
  "frame_body (xs @ ys) = frame_body xs @ frame_body ys"
  by (simp_all add: frame_body_def frame_chunk_def)

function parse_body :: "bytes \<Rightarrow> bytes list result" where
  "parse_body b =
     (if b = [] then Inr []
      else if length b < 4 then Inl (DecryptError ''truncated chunk length prefix'')
      else let l = unpack_I (take 4 b)
           in if l < TAG_LEN \<or> length b < 4 + l then Inl (DecryptError ''truncated or invalid chunk'')
              else bindE (parse_body (drop (4 + l) b)) (\<lambda>cts. Inr (take l (drop 4 b) # cts)))"
  by pat_completeness auto
termination
  by (relation "measure length") auto

declare parse_body.simps [simp del]

lemma parse_body_step:
  assumes "wf_ct ct"
  shows "parse_body (pack_I (length ct) @ ct @ b) = bindE (parse_body b) (\<lambda>cts. Inr (ct # cts))"
proof -
  have "length ct < 4294967296" "\<not> length ct < TAG_LEN" using assms by (auto simp: wf_ct_def)
  then show ?thesis
    by (subst parse_body.simps) (simp add: Let_def)
qed

lemma parse_frame_body: "\<forall>ct\<in>set cts. wf_ct ct \<Longrightarrow> parse_body (frame_body cts) = Inr cts"
proof (induction cts)
  case Nil
  show ?case by (simp add: parse_body.simps)
next
  case (Cons ct cts)
  then show ?case using parse_body_step [of ct "frame_body cts"] by simp
qed

lemma parse_body_Inr: "parse_body b = Inr cts \<Longrightarrow> b = frame_body cts \<and> (\<forall>ct\<in>set cts. wf_ct ct)"
proof (induction b arbitrary: cts rule: parse_body.induct)
  case (1 b)
  show ?case
  proof (cases "b = []")
    case True
    with "1.prems" show ?thesis by (simp add: parse_body.simps)
  next
    case False
    let ?l = "unpack_I (take 4 b)"
    have ok: "\<not> length b < 4" "\<not> (?l < TAG_LEN \<or> length b < 4 + ?l)"
      using "1.prems" False by (auto simp: parse_body.simps [of b] Let_def split: if_splits)
    obtain cts' where c: "parse_body (drop (4 + ?l) b) = Inr cts'" "cts = take ?l (drop 4 b) # cts'"
      using "1.prems" False ok by (auto simp: parse_body.simps [of b] Let_def)
    have IH: "drop (4 + ?l) b = frame_body cts'" "\<forall>ct\<in>set cts'. wf_ct ct"
      using "1.IH" [OF False ok(1) refl ok(2) c(1)] by auto
    have len: "length (take ?l (drop 4 b)) = ?l" using ok by auto
    have pk: "pack_I ?l = take 4 b" using ok by simp
    have "frame_body cts = take 4 b @ take ?l (drop 4 b) @ drop (4 + ?l) b"
      by (simp only: c(2) frame_body_simps len pk IH(1))
    also have "\<dots> = b"
      by (metis add.commute append_take_drop_id drop_drop)
    finally have "b = frame_body cts" by (rule sym)
    moreover have "wf_ct (take ?l (drop 4 b))"
      using ok unpack_I_bound [of "take 4 b"] len by (simp only: wf_ct_def) simp
    ultimately show ?thesis using IH(2) c(2) by simp
  qed
qed

lemma parse_body_iff: "parse_body b = Inr cts \<longleftrightarrow> b = frame_body cts \<and> (\<forall>ct\<in>set cts. wf_ct ct)"
  using parse_body_Inr parse_frame_body by blast

lemma scan_spans_parse:
  assumes "pos \<le> length frame"
  shows "(case parse_body (drop pos frame) of
            Inl e \<Rightarrow> scan_spans frame pos spans = Inl e
          | Inr cts \<Rightarrow> \<exists>ss. scan_spans frame pos spans = Inr (spans @ ss)
                        \<and> map (\<lambda>(s, e). py_slice frame s e) ss = cts)"
  using assms
proof (induction frame pos spans rule: scan_spans.induct)
  case (1 frame pos spans)
  show ?case
  proof (cases "pos < length frame \<and> pos + 4 \<le> length frame")
    case False
    then show ?thesis using "1.prems"
      by (auto simp: scan_spans.simps [of frame pos] parse_body.simps [of "drop pos frame"])
  next
    case True
    let ?l = "unpack_I (py_slice frame pos (pos + 4))"
    let ?p = "pos + 4 + ?l"
    have l: "unpack_I (take 4 (drop pos frame)) = ?l" by (simp add: py_slice_def)
    show ?thesis
    proof (cases "?l < TAG_LEN \<or> length frame < pos + 4 + ?l")
      case bad: True
      then show ?thesis using True
        by (auto simp: scan_spans.simps [of frame pos] parse_body.simps [of "drop pos frame"] l Let_def)
    next
      case ok: False
      have s: "scan_spans frame pos spans = scan_spans frame ?p (spans @ [(pos + 4, ?p)])"
        using True ok by (simp add: scan_spans.simps [of frame pos] Let_def)
      have nb: "\<not> length (drop pos frame) < 4" "\<not> length (drop pos frame) < 4 + ?l"
        "drop pos frame \<noteq> []"
        using True ok by auto
      have sl: "py_slice frame (pos + 4) ?p = take ?l (drop (pos + 4) frame)"
        by (subst py_slice_def) simp
      have p: "parse_body (drop pos frame) =
          bindE (parse_body (drop ?p frame)) (\<lambda>cts. Inr (py_slice frame (pos + 4) ?p # cts))"
        unfolding sl using nb ok
        by (simp add: parse_body.simps [of "drop pos frame"] l Let_def ac_simps
            del: length_drop)
      have "case parse_body (drop ?p frame) of
            Inl e \<Rightarrow> scan_spans frame ?p (spans @ [(pos + 4, ?p)]) = Inl e
          | Inr cts \<Rightarrow> \<exists>ss. scan_spans frame ?p (spans @ [(pos + 4, ?p)]) = Inr ((spans @ [(pos + 4, ?p)]) @ ss)
                        \<and> map (\<lambda>(s, e). py_slice frame s e) ss = cts"
        using "1.IH" True ok by (simp add: Let_def)
      then show ?thesis
        unfolding s p by (cases "parse_body (drop ?p frame)") auto
    qed
  qed
qed

text \<open>Opening a list of ciphertexts in order, chunk \<open>last_i\<close> being the final one.\<close>

fun open_list ::
    "aesgcm \<Rightarrow> bytes \<Rightarrow> bytes \<Rightarrow> bytes \<Rightarrow> nat \<Rightarrow> nat \<Rightarrow> bytes list \<Rightarrow> bytes list result" where
  "open_list A key pfx header last_i i [] = Inr []"
| "open_list A key pfx header last_i i (ct # cts) =
     bindE (open_chunk A key pfx header i ct (i = last_i)) (\<lambda>p.
       bindE (open_list A key pfx header last_i (Suc i) cts) (\<lambda>ps. Inr (p # ps)))"

lemma decrypt_loop_open_list:
  "decrypt_loop A key pfx header frame last_i i spans out =
     bindE (open_list A key pfx header last_i i (map (\<lambda>(s, e). py_slice frame s e) spans))
       (\<lambda>ps. Inr (out @ concat ps))"
  by (induction A key pfx header frame last_i i spans out rule: decrypt_loop.induct)
    (auto simp: bindE_assoc)

lemma decrypt_eq:
  "decrypt A frame key =
     (if length key \<noteq> 32 then Inl (ValueError ''key must be 32 bytes (AES-256)'')
      else if \<not> framer_is_encrypted frame then Inl (DecryptError ''not a TMV1 frame'')
      else bindE (parse_body (drop 18 frame)) (\<lambda>cts.
             if cts = [] then Inl (DecryptError ''no chunks'')
             else bindE (open_list A key (py_slice frame 10 18) (take 18 frame) (length cts - 1) 0 cts)
                    (\<lambda>ps. Inr (concat ps))))"
proof (cases "length key = 32 \<and> framer_is_encrypted frame")
  case False
  then show ?thesis by (auto simp: decrypt_def)
next
  case True
  then have "18 \<le> length frame" by (simp add: framer_is_encrypted_def HEADER_LEN_def)
  note scan = scan_spans_parse [OF this, of "[]"]
  show ?thesis
  proof (cases "parse_body (drop 18 frame)")
    case (Inl e)
    with True scan show ?thesis by (simp add: decrypt_def HEADER_LEN_def)
  next
    case (Inr cts)
    with scan obtain ss where ss: "scan_spans frame 18 [] = Inr ss"
      "map (\<lambda>(s, e). py_slice frame s e) ss = cts" by auto
    then have "length ss = length cts" "ss = [] \<longleftrightarrow> cts = []" by auto
    with True Inr ss show ?thesis
      by (simp add: decrypt_def HEADER_LEN_def Let_def py_slice_def decrypt_loop_open_list take_drop
          min_def)
  qed
qed

section \<open>Round trip and tamper evidence\<close>

abbreviation aad_tail :: "nat \<Rightarrow> bool \<Rightarrow> bytes" where
  "aad_tail i final \<equiv> pack_I i @ [if final then 1 else 0]"

lemma aad_tail_inj:
  assumes "i < 4294967296" and "j < 4294967296" and "aad_tail i f = aad_tail j g"
  shows "i = j \<and> f = g"
  using assms pack_I_inj [of i j] by (auto split: if_splits)

lemma seal_chunk_Inr:
  "seal_chunk A key pfx header i c f = Inr b \<longleftrightarrow>
     i < 4294967296 \<and> (\<exists>ct. aes_encrypt A key (pfx @ pack_I i) c (header @ aad_tail i f) = Inr ct
        \<and> length ct < 4294967296 \<and> b = frame_chunk ct)"
  by (auto simp: seal_chunk_def framer_aad_def struct_pack_I_def frame_chunk_def)

lemma open_chunk_Inr:
  "open_chunk A key pfx header i ct f = Inr p \<longleftrightarrow>
     i < 4294967296 \<and> aes_decrypt A key (pfx @ pack_I i) ct (header @ aad_tail i f) = Inr p"
  by (auto simp: open_chunk_def framer_aad_def struct_pack_I_def split: sum.splits py_error.splits)

text \<open>\<open>cts\<close> are the ciphertexts of \<open>chunks\<close> sealed at positions \<open>i, i + 1, \<dots>\<close>.\<close>

fun sealed ::
    "aesgcm \<Rightarrow> bytes \<Rightarrow> bytes \<Rightarrow> bytes \<Rightarrow> nat \<Rightarrow> nat \<Rightarrow> bytes list \<Rightarrow> bytes list \<Rightarrow> bool" where
  "sealed A key pfx header last_i i [] cts = (cts = [])"
| "sealed A key pfx header last_i i (c # cs) cts =
     (i < 4294967296 \<and> (\<exists>ct cts'. cts = ct # cts'
        \<and> aes_encrypt A key (pfx @ pack_I i) c (header @ aad_tail i (i = last_i)) = Inr ct
        \<and> length ct < 4294967296 \<and> sealed A key pfx header last_i (Suc i) cs cts'))"

lemma sealed_length: "sealed A key pfx header last_i i chunks cts \<Longrightarrow> length cts = length chunks"
  by (induction chunks arbitrary: i cts) auto

lemma sealed_nth:
  "sealed A key pfx header last_i i chunks cts \<Longrightarrow> j < length chunks \<Longrightarrow>
     i + j < 4294967296 \<and>
     aes_encrypt A key (pfx @ pack_I (i + j)) (chunks ! j) (header @ aad_tail (i + j) (i + j = last_i))
       = Inr (cts ! j)"
proof (induction chunks arbitrary: i cts j)
  case (Cons c cs)
  then obtain ct cts' where c: "cts = ct # cts'"
      "sealed A key pfx header last_i (Suc i) cs cts'" by auto
  show ?case
  proof (cases j)
    case 0
    with Cons.prems c show ?thesis by auto
  next
    case (Suc j')
    with Cons.IH [OF c(2), of j'] Cons.prems c show ?thesis by simp
  qed
qed simp

lemma encrypt_loop_Inr:
  "encrypt_loop A key pfx header last_i i chunks out = Inr frame \<longleftrightarrow>
     (\<exists>cts. sealed A key pfx header last_i i chunks cts \<and> frame = out @ frame_body cts)"
proof (induction chunks arbitrary: i out)
  case (Cons c cs)
  show ?case
    by (simp add: seal_chunk_Inr frame_chunk_def Cons.IH) fastforce
qed auto

lemma aead_correctE:
  assumes "aead_correct A" and "length key = 32" and "length n = 12" and "length p < 2147483648"
  obtains c where "aes_encrypt A key n p a = Inr c" "length c = length p + 16"
    "aes_decrypt A key n c a = Inr p"
  using assms unfolding aead_correct_def by blast

lemma aead_correctD:
  assumes "aead_correct A" and "length key = 32" and "length n = 12" and "length p < 2147483648"
    and "aes_encrypt A key n p a = Inr c"
  shows "length c = length p + 16 \<and> aes_decrypt A key n c a = Inr p"
  using assms aead_correctE [OF assms(1-4), of a] by (metis sum.inject(2))

lemma sealed_exists:
  assumes "aead_correct A" and "length key = 32" and "length pfx = 8"
    and "\<forall>c\<in>set chunks. length c < 2147483648" and "i + length chunks \<le> 4294967296"
  shows "\<exists>cts. sealed A key pfx header last_i i chunks cts"
  using assms(4,5)
proof (induction chunks arbitrary: i)
  case (Cons c cs)
  then obtain cts' where "sealed A key pfx header last_i (Suc i) cs cts'" by fastforce
  moreover obtain ct where
    "aes_encrypt A key (pfx @ pack_I i) c (header @ aad_tail i (i = last_i)) = Inr ct"
    "length ct = length c + 16"
    using aead_correctE [OF assms(1,2), of "pfx @ pack_I i" c "header @ aad_tail i (i = last_i)"]
      assms(3) Cons.prems(1) by auto
  ultimately show ?case using Cons.prems by auto
qed (rule exI [of _ "[]"], simp)

lemma sealed_wf:
  assumes "aead_correct A" and "length key = 32" and "length pfx = 8"
    and "\<forall>c\<in>set chunks. length c < 2147483648"
    and "sealed A key pfx header last_i i chunks cts"
  shows "\<forall>ct\<in>set cts. wf_ct ct"
  using assms(4,5)
proof (induction chunks arbitrary: i cts)
  case (Cons c cs)
  then obtain ct cts' where ct: "cts = ct # cts'" "length ct < 4294967296"
      "aes_encrypt A key (pfx @ pack_I i) c (header @ aad_tail i (i = last_i)) = Inr ct"
      "sealed A key pfx header last_i (Suc i) cs cts'" by auto
  have "length ct = length c + 16"
    using aead_correctD [OF assms(1,2) _ _ ct(3)] assms(3) Cons.prems(1) by simp
  with ct Cons.IH [OF _ ct(4)] Cons.prems(1) show ?case by (simp add: wf_ct_def TAG_LEN_def)
qed simp

lemma open_list_sealed:
  assumes "aead_correct A" and "length key = 32" and "length pfx = 8"
    and "\<forall>c\<in>set chunks. length c < 2147483648"
    and "sealed A key pfx header last_i i chunks cts"
  shows "open_list A key pfx header last_i i cts = Inr chunks"
  using assms(4,5)
proof (induction chunks arbitrary: i cts)
  case (Cons c cs)
  then obtain ct cts' where ct: "cts = ct # cts'" "i < 4294967296"
      "aes_encrypt A key (pfx @ pack_I i) c (header @ aad_tail i (i = last_i)) = Inr ct"
      "sealed A key pfx header last_i (Suc i) cs cts'" by auto
  have "open_chunk A key pfx header i ct (i = last_i) = Inr c"
    using aead_correctD [OF assms(1,2) _ _ ct(3)] assms(3) Cons.prems(1) ct(2)
    by (simp add: open_chunk_Inr)
  with ct(1) Cons.IH [OF _ ct(4)] Cons.prems(1) show ?case by simp
qed simp

lemma open_list_nth:
  "open_list A key pfx header last_i i cts = Inr ps \<Longrightarrow> j < length cts \<Longrightarrow>
     length ps = length cts \<and> open_chunk A key pfx header (i + j) (cts ! j) (i + j = last_i) = Inr (ps ! j)"
proof (induction cts arbitrary: i ps j)
  case (Cons ct cts)
  then obtain p ps' where p: "ps = p # ps'" "open_list A key pfx header last_i (Suc i) cts = Inr ps'"
      "open_chunk A key pfx header i ct (i = last_i) = Inr p" by auto
  show ?case
  proof (cases j)
    case 0
    with p Cons.IH [OF p(2)] show ?thesis by (cases cts) auto
  next
    case (Suc j')
    with Cons.IH [OF p(2), of j'] Cons.prems p show ?thesis by auto
  qed
qed simp

lemma framer_header_Inr:
  assumes "framer_header cs pfx = Inr h" and "length pfx = 8"
  shows "length h = 18" "framer_is_encrypted (h @ b)" "py_slice (h @ b) 10 18 = pfx"
  using assms
  by (auto simp: framer_header_def MAGIC_def VERSION_def framer_is_encrypted_def HEADER_LEN_def
      py_slice_def pack_I_def dest!: struct_pack_I_Inr)

text \<open>What \<open>encrypt\<close> produces: the header followed by the sealed chunks.\<close>

lemma encrypt_Inr:
  assumes "encrypt A pfx pt key cs = Inr frame"
  obtains h cts where "length key = 32" "0 < cs" "framer_header cs pfx = Inr h"
    "length (chunk_list (nat cs) pt) < MAX_CHUNKS"
    "sealed A key pfx h (length (chunk_list (nat cs) pt) - 1) 0 (chunk_list (nat cs) pt) cts"
    "frame = h @ frame_body cts"
  using assms by (auto simp: encrypt_eq Let_def encrypt_loop_Inr split: if_splits)

lemma chunk_list_small:
  assumes "0 < cs" and "cs < 2147483648"
  shows "\<forall>c\<in>set (chunk_list (nat cs) pt). length c < 2147483648"
  using assms chunk_list_bound [of "nat cs" _ pt] by fastforce

text \<open>
  Under a correct AEAD \<open>encrypt\<close> returns a frame, for every plaintext, and \<open>decrypt\<close> opens it.
\<close>

lemma encrypt_decrypt:
  assumes "aead_correct A" and "length key = 32" and "length pfx = 8"
    and "0 < cs" and "cs < 2147483648"
    and "length (plain_chunks (nat cs) pt) < MAX_CHUNKS"
  shows "\<exists>frame. encrypt A pfx pt key cs = Inr frame \<and> framer_is_encrypted frame
           \<and> decrypt A frame key = Inr pt"
proof -
  let ?chunks = "chunk_list (nat cs) pt"
  have n: "length ?chunks < MAX_CHUNKS"
    using assms(6) by (simp add: chunk_list_def MAX_CHUNKS_def)
  have small: "\<forall>c\<in>set ?chunks. length c < 2147483648"
    by (rule chunk_list_small [OF assms(4,5)])
  obtain h where h: "framer_header cs pfx = Inr h"
    using assms(4,5) by (auto simp: framer_header_def struct_pack_I_def)
  obtain cts where s: "sealed A key pfx h (length ?chunks - 1) 0 ?chunks cts"
    using sealed_exists [OF assms(1-3) small, of 0] n by (auto simp: MAX_CHUNKS_def)
  then have enc: "encrypt A pfx pt key cs = Inr (h @ frame_body cts)"
    using assms(2,4) h n by (auto simp: encrypt_eq Let_def encrypt_loop_Inr)
  note hf = framer_header_Inr [OF h assms(3)]
  have len: "length cts = length ?chunks" by (rule sealed_length [OF s])
  have "parse_body (frame_body cts) = Inr cts"
    by (rule parse_frame_body) (rule sealed_wf [OF assms(1-3) small s])
  then have "decrypt A (h @ frame_body cts) key = Inr (concat ?chunks)"
    using hf assms(2) len open_list_sealed [OF assms(1-3) small s] by (auto simp: decrypt_eq)
  then show ?thesis using enc hf(2) assms(4) by auto
qed

text \<open>A concrete AEAD: the tag is the part of the associated data that follows the header.\<close>

definition toy_tag :: "bytes \<Rightarrow> bytes" where
  "toy_tag a = take 16 (drop 18 a @ replicate 16 0)"

definition toy_aead :: aesgcm where
  "toy_aead = \<lparr>aes_encrypt = (\<lambda>k n p a. Inr (p @ toy_tag a)),
     aes_decrypt = (\<lambda>k n c a. if 16 \<le> length c \<and> drop (length c - 16) c = toy_tag a
                             then Inr (take (length c - 16) c) else Inl InvalidTag)\<rparr>"

lemma toy_aead_correct: "aead_correct toy_aead"
  by (auto simp: aead_correct_def toy_aead_def toy_tag_def)

lemma toy_aead_binds_aad: "aead_binds_aad toy_aead"
  by (auto simp: aead_binds_aad_def toy_aead_def toy_tag_def)

lemma toy_round_trip:
  "\<exists>frame. encrypt toy_aead (replicate 8 7) [1, 2, 3] (replicate 32 9) 2 = Inr frame
     \<and> framer_is_encrypted frame \<and> decrypt toy_aead frame (replicate 32 9) = Inr [1, 2, 3]"
  by (rule encrypt_decrypt [OF toy_aead_correct]) (simp_all add: plain_chunks_def MAX_CHUNKS_def)

text \<open>
  Only the position and finality a chunk was sealed with open it: a ciphertext sealed as chunk
  \<open>j\<close> is accepted as chunk \<open>i\<close> only when \<open>i = j\<close> and both are final or both are not.
\<close>

lemma open_chunk_position:
  assumes "aead_binds_aad A" and "length pfx = 8" and "length h = 18" and "j < 4294967296"
    and "aes_encrypt A key (pfx @ pack_I j) p (h @ aad_tail j g) = Inr ct"
    and "open_chunk A key pfx h i ct f = Inr q"
  shows "i = j \<and> f = g"
proof (rule ccontr)
  assume neq: "\<not> (i = j \<and> f = g)"
  have i: "i < 4294967296" "aes_decrypt A key (pfx @ pack_I i) ct (h @ aad_tail i f) = Inr q"
    using assms(6) by (simp_all add: open_chunk_Inr)
  have tails: "aad_tail j g \<noteq> aad_tail i f"
    using aad_tail_inj [OF assms(4) i(1), of g f] neq by auto
  have lens: "length (aad_tail j g) = 5" "length (aad_tail i f) = 5"
    "length (pfx @ pack_I j) = 12" "length (pfx @ pack_I i) = 12"
    using assms(2) by simp_all
  have "aes_decrypt A key (pfx @ pack_I i) ct (h @ aad_tail i f) = Inl InvalidTag"
    using assms(1) [unfolded aead_binds_aad_def, rule_format,
        OF assms(5) lens(1,2,3,4) assms(3) tails] .
  with i(2) show False by simp
qed

lemma splice_core:
  assumes bind: "aead_binds_aad A" and pfx: "length pfx = 8" and h: "length h = 18"
    and s: "sealed A key pfx h (length chunks - 1) 0 chunks cts"
    and js: "\<forall>j\<in>set js. j < length cts" "js \<noteq> []"
    and op: "open_list A key pfx h (length js - 1) 0 (map ((!) cts) js) = Inr ps"
  shows "js = [0..<length cts]"
proof -
  have len: "length cts = length chunks" by (rule sealed_length [OF s])
  have pos: "js ! i = i \<and> ((i = length js - 1) = (i = length chunks - 1))" if "i < length js" for i
  proof -
    have j: "js ! i < length chunks" using js(1) that len by auto
    have sj: "js ! i < 4294967296"
      "aes_encrypt A key (pfx @ pack_I (js ! i)) (chunks ! (js ! i))
         (h @ aad_tail (js ! i) (js ! i = length chunks - 1)) = Inr (cts ! (js ! i))"
      using sealed_nth [OF s j] by simp_all
    have oi: "open_chunk A key pfx h i (cts ! (js ! i)) (i = length js - 1) = Inr (ps ! i)"
      using open_list_nth [OF op, of i] that by simp
    have "i = js ! i \<and> (i = length js - 1) = (js ! i = length chunks - 1)"
      by (rule open_chunk_position [OF bind pfx h sj(1) sj(2) oi])
    then show ?thesis by auto
  qed
  have "length js = length cts"
    using pos [of "length js - 1"] js len by (cases js) (auto simp: Suc_leI)
  then show ?thesis using pos by (intro nth_equalityI) auto
qed

lemma decrypt_frame_Inr:
  assumes "framer_header cs pfx = Inr h" and "length pfx = 8" and "\<forall>ct\<in>set ys. wf_ct ct"
    and "decrypt A (h @ frame_body ys) key = Inr pt"
  obtains ps where "ys \<noteq> []" "pt = concat ps"
    "open_list A key pfx h (length ys - 1) 0 ys = Inr ps"
  using assms(4) framer_header_Inr [OF assms(1,2)] parse_frame_body [OF assms(3)]
  by (auto simp: decrypt_eq split: if_splits)

text \<open>
  C17. Splice evidence: take the sealed chunks of a frame \<open>encrypt\<close> produced and rebuild a frame
  under the same header from any sequence \<open>js\<close> of them, dropping, duplicating or reordering chunks
  at will. If \<open>decrypt\<close> accepts the result at all, then the sequence is the original one, every
  chunk once and in order, and the result is the original plaintext.
\<close>

theorem splice_evident:
  assumes "aead_correct A" and "aead_binds_aad A" and "length pfx = 8" and "cs < 2147483648"
    and "encrypt A pfx pt key cs = Inr frame"
    and "parse_body (drop 18 frame) = Inr cts"
    and "\<forall>j\<in>set js. j < length cts"
    and "decrypt A (take 18 frame @ frame_body (map ((!) cts) js)) key = Inr pt'"
  shows "js = [0..<length cts] \<and> pt' = pt"
proof -
  obtain h cts0 where e: "length key = 32" "0 < cs" "framer_header cs pfx = Inr h"
    "length (chunk_list (nat cs) pt) < MAX_CHUNKS"
    "sealed A key pfx h (length (chunk_list (nat cs) pt) - 1) 0 (chunk_list (nat cs) pt) cts0"
    "frame = h @ frame_body cts0"
    using encrypt_Inr [OF assms(5)] by metis
  note hf = framer_header_Inr [OF e(3) assms(3)]
  have small: "\<forall>c\<in>set (chunk_list (nat cs) pt). length c < 2147483648"
    by (rule chunk_list_small [OF e(2) assms(4)])
  have wf: "\<forall>ct\<in>set cts0. wf_ct ct" by (rule sealed_wf [OF assms(1) e(1) assms(3) small e(5)])
  have cts: "cts = cts0" using assms(6) e(6) hf(1) parse_frame_body [OF wf] by simp
  let ?ys = "map ((!) cts0) js"
  have wfy: "\<forall>ct\<in>set ?ys. wf_ct ct" using wf assms(7) cts by auto
  have "decrypt A (h @ frame_body ?ys) key = Inr pt'" using assms(8) e(6) hf(1) cts by simp
  from decrypt_frame_Inr [OF e(3) assms(3) wfy this]
  obtain ps where ps: "js \<noteq> []" "pt' = concat ps"
    "open_list A key pfx h (length js - 1) 0 ?ys = Inr ps" by auto
  have "js = [0..<length cts]"
    using splice_core [OF assms(2,3) hf(1) e(5) _ ps(1,3)] assms(7) cts by simp
  then have js: "js = [0..<length cts0]" "length js = length (chunk_list (nat cs) pt)"
    using cts sealed_length [OF e(5)] by simp_all
  have "?ys = cts0" by (simp only: js(1) map_nth)
  then have "ps = chunk_list (nat cs) pt"
    using js(2) ps(3) open_list_sealed [OF assms(1) e(1) assms(3) small e(5)] by simp
  then show ?thesis using js(1) cts ps(2) e(2) by simp
qed

lemma frame_body_prefix:
  assumes "frame_body xs = frame_body ys @ r" and "\<forall>x\<in>set xs. wf_ct x" and "\<forall>y\<in>set ys. wf_ct y"
  shows "\<exists>zs. xs = ys @ zs \<and> frame_body zs = r"
  using assms
proof (induction ys arbitrary: xs)
  case (Cons y ys)
  show ?case
  proof (cases xs)
    case Nil
    with Cons.prems(1) show ?thesis by simp
  next
    case xs: (Cons x xs')
    have eq: "pack_I (length x) @ (x @ frame_body xs') = pack_I (length y) @ (y @ frame_body ys @ r)"
      using Cons.prems(1) xs by simp
    have "pack_I (length x) = pack_I (length y)"
      using arg_cong [OF eq, of "take 4"] by simp
    then have len: "length x = length y"
      using pack_I_inj [of "length x" "length y"] Cons.prems(2,3) xs by (simp add: wf_ct_def)
    have "x @ frame_body xs' = y @ frame_body ys @ r"
      using arg_cong [OF eq, of "drop 4"] by simp
    then have "x = y" "frame_body xs' = frame_body ys @ r" using len by simp_all
    with Cons.IH [of xs'] Cons.prems(2,3) xs show ?thesis by auto
  qed
qed auto

text \<open>
  C18. Truncation evidence: cutting a frame \<open>encrypt\<close> produced at any byte position, inside a
  length prefix, inside a ciphertext or exactly at a chunk boundary, makes \<open>decrypt\<close> raise.
\<close>

theorem truncation_evident:
  assumes "aead_correct A" and "aead_binds_aad A" and "length pfx = 8" and "cs < 2147483648"
    and "encrypt A pfx pt key cs = Inr frame"
    and "k < length frame"
  shows "is_error (decrypt A (take k frame) key)"
proof (rule ccontr)
  assume "\<not> is_error (decrypt A (take k frame) key)"
  then obtain pt' where d: "decrypt A (take k frame) key = Inr pt'"
    by (cases "decrypt A (take k frame) key") auto
  obtain h cts where e: "length key = 32" "0 < cs" "framer_header cs pfx = Inr h"
    "length (chunk_list (nat cs) pt) < MAX_CHUNKS"
    "sealed A key pfx h (length (chunk_list (nat cs) pt) - 1) 0 (chunk_list (nat cs) pt) cts"
    "frame = h @ frame_body cts"
    using encrypt_Inr [OF assms(5)] by metis
  note hf = framer_header_Inr [OF e(3) assms(3)]
  have wf: "\<forall>ct\<in>set cts. wf_ct ct"
    by (rule sealed_wf [OF assms(1) e(1) assms(3) chunk_list_small [OF e(2) assms(4)] e(5)])
  obtain ys where ys: "framer_is_encrypted (take k frame)" "parse_body (drop 18 (take k frame)) = Inr ys"
    using d by (auto simp: decrypt_eq split: if_splits)
  then have k: "18 \<le> k" by (simp add: framer_is_encrypted_def HEADER_LEN_def)
  have b: "drop 18 (take k frame) = take (k - 18) (frame_body cts)"
    using k hf(1) e(6) by (simp add: drop_take)
  with ys(2) have body: "take (k - 18) (frame_body cts) = frame_body ys" "\<forall>y\<in>set ys. wf_ct y"
    by (simp_all add: parse_body_iff)
  have "frame_body cts = frame_body ys @ drop (k - 18) (frame_body cts)"
    using body(1) by (metis append_take_drop_id)
  from frame_body_prefix [OF this wf body(2)]
  obtain zs where zs: "cts = ys @ zs" "frame_body zs = drop (k - 18) (frame_body cts)" by blast
  have "length (frame_body zs) = length (frame_body cts) - (k - 18)"
    by (simp only: zs(2) length_drop)
  then have "length (frame_body zs) \<noteq> 0" using assms(6) e(6) hf(1) k by simp
  then have "zs \<noteq> []" by auto
  have map: "map ((!) cts) [0..<length ys] = ys"
    unfolding zs(1) by (rule nth_equalityI) (simp_all add: nth_append)
  have head: "take 18 frame = h" "take k frame = h @ frame_body ys"
    using hf(1) k by (simp_all add: e(6) flip: body(1))
  from decrypt_frame_Inr [OF e(3) assms(3) body(2)] d head(2)
  obtain ps where ps: "ys \<noteq> []" "open_list A key pfx h (length ys - 1) 0 ys = Inr ps" by metis
  have "[0..<length ys] = [0..<length cts]"
    using splice_core [OF assms(2,3) hf(1) e(5), of "[0..<length ys]" ps] ps zs(1) map by simp
  then have "length ys = length cts" by (metis length_upt diff_zero)
  with zs(1) \<open>zs \<noteq> []\<close> show False by simp
qed

theorem splice_evident_witness:
  "\<exists>frame cts. encrypt toy_aead (replicate 8 7) [1, 2, 3] (replicate 32 9) 2 = Inr frame
     \<and> parse_body (drop 18 frame) = Inr cts
     \<and> decrypt toy_aead (take 18 frame @ frame_body (map ((!) cts) [0, 1])) (replicate 32 9)
         = Inr [1, 2, 3]
     \<and> [0, 1] = [0..<length cts]"
proof -
  let ?c = "[[1, 2] @ toy_tag (replicate 18 0 @ aad_tail 0 False),
             [3] @ toy_tag (replicate 18 0 @ aad_tail 1 True)] :: bytes list"
  let ?h = "MAGIC @ [VERSION, 0] @ pack_I 2 @ replicate 8 7"
  have h: "framer_header 2 (replicate 8 7) = Inr ?h"
    by (simp add: framer_header_def struct_pack_I_def)
  have c: "plain_chunks 2 [1, 2, 3 :: byte] = [[1, 2], [3]]"
    by (simp add: plain_chunks_def py_slice_def upt_rec)
  have lh: "length ?h = 18" by (simp add: MAGIC_def)
  have enc: "encrypt toy_aead (replicate 8 7) [1, 2, 3] (replicate 32 9) 2 = Inr (?h @ frame_body ?c)"
    by (simp add: encrypt_eq chunk_list_def c h MAX_CHUNKS_def Let_def seal_chunk_def framer_aad_def
        toy_aead_def toy_tag_def frame_chunk_def lh struct_pack_I_def MAGIC_def VERSION_def)
  have wf: "\<forall>ct\<in>set ?c. wf_ct ct" by (simp add: wf_ct_def TAG_LEN_def toy_tag_def)
  have p: "parse_body (drop 18 (?h @ frame_body ?c)) = Inr ?c"
    using parse_frame_body [OF wf] lh by simp
  obtain frame where f: "encrypt toy_aead (replicate 8 7) [1, 2, 3] (replicate 32 9) 2 = Inr frame"
      "decrypt toy_aead frame (replicate 32 9) = Inr [1, 2, 3]"
    using toy_round_trip by blast
  have fr: "frame = ?h @ frame_body ?c" by (rule sum.inject(2) [THEN iffD1]) (rule trans [OF f(1) [symmetric] enc])
  have t: "take 18 (?h @ frame_body ?c) = ?h" using lh by (simp only: append_eq_conv_conj [THEN iffD1, OF refl] take_append) simp
  have m: "map ((!) ?c) [0, 1] = ?c" by simp
  have d: "decrypt toy_aead (take 18 (?h @ frame_body ?c) @ frame_body (map ((!) ?c) [0, 1]))
      (replicate 32 9) = Inr [1, 2, 3]"
    using f(2) by (simp only: t m fr)
  have "[0, 1] = [0..<length ?c] \<and> [1, 2, 3 :: byte] = [1, 2, 3]"
    by (rule splice_evident [OF toy_aead_correct toy_aead_binds_aad _ _ enc p _ d]) simp_all
  with enc p d show ?thesis by blast
qed

theorem truncation_evident_witness:
  "\<exists>frame. encrypt toy_aead (replicate 8 7) [1, 2, 3] (replicate 32 9) 2 = Inr frame
     \<and> 40 < length frame \<and> is_error (decrypt toy_aead (take 40 frame) (replicate 32 9))"
proof -
  obtain frame where f: "encrypt toy_aead (replicate 8 7) [1, 2, 3] (replicate 32 9) 2 = Inr frame"
    using toy_round_trip by blast
  have l: "40 < length frame"
    using f by (auto simp: encrypt_eq chunk_list_def plain_chunks_def py_slice_def upt_rec
        framer_header_def struct_pack_I_def MAX_CHUNKS_def Let_def seal_chunk_def framer_aad_def
        toy_aead_def toy_tag_def MAGIC_def)
  have "is_error (decrypt toy_aead (take 40 frame) (replicate 32 9))"
    by (rule truncation_evident [OF toy_aead_correct toy_aead_binds_aad _ _ f l]) simp_all
  with f l show ?thesis by blast
qed

section \<open>Streaming decryption\<close>

text \<open>
  The loop of \<open>decrypt_stream\<close> depends on its input only through the bytes not yet consumed:
  \<open>stream_ref\<close> is the same loop on one byte list.
\<close>

function stream_ref ::
    "aesgcm \<Rightarrow> bytes \<Rightarrow> bytes \<Rightarrow> bytes \<Rightarrow> bytes \<Rightarrow> nat \<Rightarrow> (nat \<times> bytes) option \<Rightarrow> bytes list \<Rightarrow> gen" where
  "stream_ref A key pfx header b index held out =
     (if length b < 4 then
        (case held of
           None \<Rightarrow> (out, Some (DecryptError ''no chunks''))
         | Some (i, ct) \<Rightarrow>
             (case open_chunk A key pfx header i ct True of
                Inl e \<Rightarrow> (out, Some e) | Inr p \<Rightarrow> (out @ [p], None)))
      else let l = unpack_I (take 4 b)
        in if l < TAG_LEN then (out, Some (DecryptError ''invalid chunk length''))
           else if length b < 4 + l then (out, Some (DecryptError ''truncated chunk''))
           else let ct = take l (drop 4 b); rest = drop (4 + l) b
             in case held of
                  None \<Rightarrow> stream_ref A key pfx header rest (Suc index) (Some (index, ct)) out
                | Some (i, hct) \<Rightarrow>
                    (case open_chunk A key pfx header i hct False of
                       Inl e \<Rightarrow> (out, Some e)
                     | Inr p \<Rightarrow> stream_ref A key pfx header rest (Suc index) (Some (index, ct))
                                  (out @ [p])))"
  by pat_completeness auto
termination
  by (relation "measure (\<lambda>(A, key, pfx, header, b, index, held, out). length b)") auto

declare stream_ref.simps [simp del]

lemma fill_True:
  assumes "fill n buf ps = (True, buf', ps')" and "m \<le> n"
  shows "take m buf' = take m (buf @ concat ps)" "n \<le> length (buf @ concat ps)"
    "drop m buf' @ concat ps' = drop m (buf @ concat ps)"
proof -
  have c: "buf @ concat ps = buf' @ concat ps'" using fill_concat [OF assms(1)] by simp
  have n: "n \<le> length buf'" by (rule fill_enough [OF assms(1)])
  show "take m buf' = take m (buf @ concat ps)" using n assms(2) by (simp add: c)
  show "n \<le> length (buf @ concat ps)" using n by (simp add: c)
  show "drop m buf' @ concat ps' = drop m (buf @ concat ps)" using n assms(2) by (simp add: c)
qed

lemma fill_False:
  assumes "fill n buf ps = (False, buf', ps')"
  shows "length (buf @ concat ps) < n"
  using fill_ok [OF assms] by simp

lemma decrypt_stream_loop_ref:
  "decrypt_stream_loop A key pfx header buf ps index held out =
     stream_ref A key pfx header (buf @ concat ps) index held out"
proof (induction A key pfx header buf ps index held out rule: decrypt_stream_loop.induct)
  case (1 A key pfx header buf ps index held out)
  define b where b: "b = buf @ concat ps"
  obtain ok buf1 ps1 where f1: "fill 4 buf ps = (ok, buf1, ps1)" by (cases "fill 4 buf ps") auto
  show ?case
  proof (cases ok)
    case False
    then show ?thesis
      using f1 fill_False [of 4 buf ps buf1 ps1, folded b]
      by (simp add: decrypt_stream_loop.simps [of A key pfx header buf ps]
          stream_ref.simps [of A key pfx header b] flip: b)
  next
    case True
    with f1 have f1: "fill 4 buf ps = (True, buf1, ps1)" by simp
    define l where "l = unpack_I (take 4 b)"
    note t1 = fill_True [OF f1 order_refl, folded b]
    have l1: "unpack_I (take 4 buf1) = l" by (simp only: t1(1) l_def)
    have c1: "buf1 @ concat ps1 = b" using fill_concat [OF f1] by (simp add: b)
    obtain ok2 buf2 ps2 where f2: "fill (4 + l) buf1 ps1 = (ok2, buf2, ps2)"
      by (cases "fill (4 + l) buf1 ps1") auto
    consider (short) "l < TAG_LEN" | (trunc) "\<not> l < TAG_LEN" "\<not> ok2" | (ok) "\<not> l < TAG_LEN" "ok2"
      by blast
    then show ?thesis
    proof cases
      case short
      then show ?thesis using f1 t1(2) l1
        by (simp add: decrypt_stream_loop.simps [of A key pfx header buf ps]
            stream_ref.simps [of A key pfx header b] flip: b l_def)
    next
      case trunc
      then have "length b < 4 + l" using fill_False [of "4 + l" buf1 ps1 buf2 ps2] f2 c1 by simp
      then show ?thesis using trunc f1 f2 t1(2) l1
        by (simp add: decrypt_stream_loop.simps [of A key pfx header buf ps]
            stream_ref.simps [of A key pfx header b] flip: b l_def)
    next
      case ok
      with f2 have f2: "fill (4 + l) buf1 ps1 = (True, buf2, ps2)" by simp
      note t2 = fill_True [OF f2 order_refl, unfolded c1]
      have ct: "py_slice buf2 4 (4 + l) = take l (drop 4 b)"
        using arg_cong [OF t2(1), of "drop 4"] by (simp only: py_slice_def drop_take) simp
      note step = decrypt_stream_loop.simps [of A key pfx header buf ps]
        stream_ref.simps [of A key pfx header b]
      show ?thesis
      proof (cases held)
        case None
        have "decrypt_stream_loop A key pfx header (drop (4 + l) buf2) ps2 (Suc index)
            (Some (index, take l (drop 4 b))) out =
          stream_ref A key pfx header (drop (4 + l) b) (Suc index)
            (Some (index, take l (drop 4 b))) out"
          using "1.IH"(1) [OF f1 [symmetric] _ refl l1 [symmetric] ok(1) f2 [symmetric] _ refl
              ct [symmetric] refl None] t2(3) by simp
        then show ?thesis
          using None ok f1 f2 t1(2) t2(2) l1
          by (simp add: step ct Let_def flip: b l_def)
      next
        case (Some ih)
        obtain i hct where ih: "ih = (i, hct)" by (cases ih)
        show ?thesis
        proof (cases "open_chunk A key pfx header i hct False")
          case (Inl e)
          then show ?thesis
            using Some ih ok f1 f2 t1(2) t2(2) l1
            by (simp add: step ct Let_def flip: b l_def)
        next
          case (Inr p)
          have "decrypt_stream_loop A key pfx header (drop (4 + l) buf2) ps2 (Suc index)
              (Some (index, take l (drop 4 b))) (out @ [p]) =
            stream_ref A key pfx header (drop (4 + l) b) (Suc index)
              (Some (index, take l (drop 4 b))) (out @ [p])"
            using "1.IH"(2) [OF f1 [symmetric] _ refl l1 [symmetric] ok(1) f2 [symmetric] _ refl
                ct [symmetric] refl Some ih [symmetric] Inr] t2(3) by simp
          then show ?thesis
            using Some ih Inr ok f1 f2 t1(2) t2(2) l1
            by (simp add: step ct Let_def flip: b l_def)
        qed
      qed
    qed
  qed
qed


text \<open>
  The run of \<open>stream_ref\<close> over well-formed chunks followed by a tail too short for
  a length prefix opens exactly the chunks, the last one as final.
\<close>

lemma stream_ref_body:
  assumes "\<forall>ct\<in>set cts. wf_ct ct" and "length t < 4"
  shows "stream_ref A key pfx header (frame_body cts @ t) (Suc i) (Some (i, hct)) out =
     (outs, None) \<longleftrightarrow>
     (\<exists>ps. open_list A key pfx header (i + length cts) i (hct # cts) = Inr ps \<and> outs = out @ ps)"
  using assms(1)
proof (induction cts arbitrary: i hct out)
  case Nil
  show ?case using assms(2)
    by (auto simp: stream_ref.simps split: sum.splits)
next
  case (Cons ct cts)
  define b where "b = frame_body cts @ t"
  have ct: "length ct < 4294967296" "\<not> length ct < TAG_LEN" using Cons.prems by (auto simp: wf_ct_def)
  have step: "stream_ref A key pfx header (frame_body (ct # cts) @ t) (Suc i) (Some (i, hct)) out =
     (case open_chunk A key pfx header i hct False of
        Inl e \<Rightarrow> (out, Some e)
      | Inr p \<Rightarrow> stream_ref A key pfx header b (Suc (Suc i)) (Some (Suc i, ct)) (out @ [p]))"
    unfolding b_def using ct by (subst stream_ref.simps) (simp add: Let_def)
  show ?case
  proof (cases "open_chunk A key pfx header i hct False")
    case (Inl e)
    then show ?thesis unfolding step by simp
  next
    case (Inr p)
    have IH: "stream_ref A key pfx header b (Suc (Suc i)) (Some (Suc i, ct)) (out @ [p]) = (outs, None)
      \<longleftrightarrow> (\<exists>ps. open_list A key pfx header (Suc i + length cts) (Suc i) (ct # cts) = Inr ps
              \<and> outs = (out @ [p]) @ ps)"
      unfolding b_def using Cons.prems by (intro Cons.IH) simp
    have op: "open_list A key pfx header (i + length (ct # cts)) i (hct # ct # cts) =
        bindE (open_list A key pfx header (Suc i + length cts) (Suc i) (ct # cts)) (\<lambda>ps. Inr (p # ps))"
      using Inr by (subst open_list.simps) simp
    show ?thesis
      unfolding step op using Inr by (simp only: sum.case IH bindE_eq_Inr) auto
  qed
qed

text \<open>Where the single-list loop succeeds, its input was such a body.\<close>

lemma stream_ref_shape:
  "stream_ref A key pfx header b index held out = (outs, None) \<Longrightarrow>
     \<exists>cts t. b = frame_body cts @ t \<and> length t < 4 \<and> (\<forall>ct\<in>set cts. wf_ct ct)
        \<and> (held = None \<longrightarrow> cts \<noteq> [])"
proof (induction A key pfx header b index held out rule: stream_ref.induct)
  case (1 A key pfx header b index held out)
  let ?l = "unpack_I (take 4 b)"
  show ?case
  proof (cases "length b < 4")
    case True
    then have "b = frame_body [] @ b \<and> length b < 4 \<and> (\<forall>ct\<in>set []. wf_ct ct)" by simp
    moreover have "held \<noteq> None" using "1.prems" True by (cases held) (simp_all add: stream_ref.simps)
    ultimately show ?thesis by blast
  next
    case False
    have ok: "\<not> ?l < TAG_LEN" "\<not> length b < 4 + ?l"
      using "1.prems" False by (auto simp: stream_ref.simps [of A key pfx header b] Let_def split: if_splits)
    let ?ct = "take ?l (drop 4 b)" and ?rest = "drop (4 + ?l) b"
    have "\<exists>cts t. ?rest = frame_body cts @ t \<and> length t < 4 \<and> (\<forall>ct\<in>set cts. wf_ct ct)"
    proof (cases held)
      case None
      then have "stream_ref A key pfx header ?rest (Suc index) (Some (index, ?ct)) out = (outs, None)"
        using "1.prems" False ok by (simp add: stream_ref.simps [of A key pfx header b] Let_def)
      from "1.IH"(1) [OF False refl ok refl refl None this] show ?thesis by blast
    next
      case (Some ih)
      obtain i hct where ih: "ih = (i, hct)" by (cases ih)
      obtain p where p: "open_chunk A key pfx header i hct False = Inr p"
        using "1.prems" False ok Some ih
        by (cases "open_chunk A key pfx header i hct False")
          (simp_all add: stream_ref.simps [of A key pfx header b] Let_def)
      then have "stream_ref A key pfx header ?rest (Suc index) (Some (index, ?ct)) (out @ [p])
          = (outs, None)"
        using "1.prems" False ok Some ih by (simp add: stream_ref.simps [of A key pfx header b] Let_def)
      from "1.IH"(2) [OF False refl ok refl refl Some ih [symmetric] p this] show ?thesis by blast
    qed
    then obtain cts t where r: "?rest = frame_body cts @ t" "length t < 4" "\<forall>ct\<in>set cts. wf_ct ct"
      by blast
    have len: "length ?ct = ?l" using ok by auto
    have wf: "wf_ct ?ct" using ok len unpack_I_bound [of "take 4 b"] by (simp only: wf_ct_def) simp
    have "b = take 4 b @ ?ct @ ?rest" by (metis add.commute append_take_drop_id drop_drop)
    also have "\<dots> = frame_body (?ct # cts) @ t"
      using False r(1) by (simp only: frame_body_simps len append_assoc) simp
    finally show ?thesis using r wf by (intro exI [of _ "?ct # cts"] exI [of _ t]) simp
  qed
qed

lemma stream_ref_first:
  assumes "wf_ct ct"
  shows "stream_ref A key pfx header (frame_body (ct # cts) @ t) 0 None out =
     stream_ref A key pfx header (frame_body cts @ t) (Suc 0) (Some (0, ct)) out"
proof -
  have "length ct < 4294967296" "\<not> length ct < TAG_LEN" using assms by (auto simp: wf_ct_def)
  then show ?thesis by (subst stream_ref.simps) (simp add: Let_def)
qed

lemma stream_ref_start:
  "stream_ref A key pfx header b 0 None [] = (ps, None) \<longleftrightarrow>
     (\<exists>cts t. b = frame_body cts @ t \<and> length t < 4 \<and> (\<forall>ct\<in>set cts. wf_ct ct) \<and> cts \<noteq> []
        \<and> open_list A key pfx header (length cts - 1) 0 cts = Inr ps)"
  (is "?L \<longleftrightarrow> ?R")
proof -
  have key: "stream_ref A key pfx header (frame_body cts @ t) 0 None [] = (ps, None) \<longleftrightarrow>
      open_list A key pfx header (length cts - 1) 0 cts = Inr ps"
    if "length t < 4" "\<forall>ct\<in>set cts. wf_ct ct" "cts \<noteq> []" for cts t
  proof (cases cts)
    case (Cons ct cts')
    then show ?thesis
      using that stream_ref_first [of ct A key pfx header cts' t "[]"]
        stream_ref_body [of cts' t A key pfx header 0 ct "[]" ps] by simp
  qed (use that in simp)
  show ?thesis
    using stream_ref_shape [of A key pfx header b 0 None "[]" ps] key by blast
qed

lemma decrypt_stream_eq:
  "decrypt_stream A cipher key =
     (let b = concat cipher
      in if length key \<noteq> 32 then ([], Some (ValueError ''key must be 32 bytes (AES-256)''))
         else if length b < 18 then ([], Some (DecryptError ''truncated header''))
         else if \<not> framer_is_encrypted b then ([], Some (DecryptError ''not a TMV1 frame''))
         else stream_ref A key (py_slice b 10 18) (take 18 b) (drop 18 b) 0 None [])"
proof -
  define b where b: "b = concat cipher"
  obtain ok buf ps where f: "fill 18 [] cipher = (ok, buf, ps)" by (cases "fill 18 [] cipher") auto
  show ?thesis
  proof (cases ok)
    case False
    then have "length b < 18" using fill_False [of 18 "[]" cipher buf ps] f b by simp
    with False f show ?thesis
      by (simp add: decrypt_stream_def HEADER_LEN_def Let_def flip: b)
  next
    case True
    with f have f: "fill 18 [] cipher = (True, buf, ps)" by simp
    note t = fill_True [OF f order_refl, unfolded append_Nil, folded b]
    have i: "framer_is_encrypted b \<longleftrightarrow> \<not> (py_slice (take 18 b) 0 4 \<noteq> MAGIC \<or> take 18 b ! 4 \<noteq> VERSION)"
      using t(2) by (simp add: framer_is_encrypted_def HEADER_LEN_def py_slice_def min_def)
    have b4: "buf ! 4 = b ! 4" using arg_cong [OF t(1), of "\<lambda>x. x ! 4"] by simp
    have n: "py_slice (take 18 b) 10 18 = py_slice b 10 18" by (simp add: py_slice_def take_drop)
    show ?thesis
      using f t i n b4 by (simp add: decrypt_stream_def HEADER_LEN_def Let_def decrypt_stream_loop_ref
          flip: b)
  qed
qed

lemma decrypt_stream_of_decrypt:
  assumes "concat cipher = f @ t" and "length t < 4" and "decrypt A f key = Inr pt"
  shows "gen_result (decrypt_stream A cipher key) = Inr pt"
proof -
  from assms(3) obtain cts ps where d: "length key = 32" "framer_is_encrypted f"
      "parse_body (drop 18 f) = Inr cts" "cts \<noteq> []" "pt = concat ps"
      "open_list A key (py_slice f 10 18) (take 18 f) (length cts - 1) 0 cts = Inr ps"
    by (auto simp: decrypt_eq split: if_splits)
  have l: "18 \<le> length f" using d(2) by (simp add: framer_is_encrypted_def HEADER_LEN_def)
  have b: "framer_is_encrypted (f @ t)" "take 18 (f @ t) = take 18 f" "drop 18 (f @ t) = drop 18 f @ t"
    "py_slice (f @ t) 10 18 = py_slice f 10 18"
    using l d(2) by (simp_all add: framer_is_encrypted_def HEADER_LEN_def py_slice_def nth_append)
  have "stream_ref A key (py_slice f 10 18) (take 18 f) (drop 18 f @ t) 0 None [] = (ps, None)"
    using d(3,4,6) assms(2) unfolding stream_ref_start parse_body_iff by blast
  then show ?thesis
    using l d(1,5) by (simp add: decrypt_stream_eq assms(1) b gen_result_def)
qed

text \<open>
  C21. Streaming decryption against the single-shot call: whatever the piece boundaries, the
  streaming form succeeds with plaintext \<open>pt\<close> exactly when some frame \<open>f\<close> that \<open>decrypt\<close> opens to
  \<open>pt\<close> is the whole stream but for a tail of at most three bytes. So it never accepts a stream whose
  chunks \<open>decrypt\<close> would reject, and the one leniency is a trailing fragment shorter than a length
  prefix, which the streaming form takes for a clean end.
\<close>

theorem decrypt_stream_iff:
  "gen_result (decrypt_stream A cipher key) = Inr pt \<longleftrightarrow>
     (\<exists>f t. concat cipher = f @ t \<and> length t < 4 \<and> decrypt A f key = Inr pt)"
proof
  define b where "b = concat cipher"
  let ?h = "take 18 b" and ?pfx = "py_slice b 10 18"
  assume "gen_result (decrypt_stream A cipher key) = Inr pt"
  then obtain ps where ps: "pt = concat ps" "length key = 32" "framer_is_encrypted b"
      "stream_ref A key ?pfx ?h (drop 18 b) 0 None [] = (ps, None)"
    unfolding decrypt_stream_eq Let_def b_def [symmetric]
    by (auto simp: gen_result_def prod_eq_iff split: if_splits option.splits)
  obtain cts t where c: "drop 18 b = frame_body cts @ t" "length t < 4" "\<forall>ct\<in>set cts. wf_ct ct"
      "cts \<noteq> []" "open_list A key ?pfx ?h (length cts - 1) 0 cts = Inr ps"
    using ps(4) unfolding stream_ref_start by blast
  let ?f = "?h @ frame_body cts"
  have l: "18 \<le> length b" using ps(3) by (simp add: framer_is_encrypted_def HEADER_LEN_def)
  have b: "b = ?f @ t" using c(1) by (metis append_assoc append_take_drop_id)
  have f: "framer_is_encrypted ?f" "take 18 ?f = ?h" "py_slice ?f 10 18 = ?pfx"
    using l ps(3) by (simp_all add: framer_is_encrypted_def HEADER_LEN_def py_slice_def nth_append
        take_drop min_def)
  have "decrypt A ?f key = Inr pt"
    using f l c ps(1,2) parse_frame_body [OF c(3)] by (simp add: decrypt_eq)
  with b c(2) show "\<exists>f t. concat cipher = f @ t \<and> length t < 4 \<and> decrypt A f key = Inr pt"
    unfolding b_def by blast
next
  assume "\<exists>f t. concat cipher = f @ t \<and> length t < 4 \<and> decrypt A f key = Inr pt"
  then show "gen_result (decrypt_stream A cipher key) = Inr pt"
    using decrypt_stream_of_decrypt by blast
qed

text \<open>
  C19. Round trip: under a correct AEAD, for every plaintext, every 32-byte key, every 8-byte nonce
  prefix and every chunk size the primitive accepts, \<open>encrypt\<close> returns a frame (it does not raise),
  the frame is recognised by \<open>is_encrypted\<close>, \<open>decrypt\<close> returns exactly the plaintext, and so does
  \<open>decrypt_stream\<close> however the frame is cut into pieces.
\<close>

theorem framer_round_trip:
  assumes "aead_correct A" and "length key = 32" and "length pfx = 8"
    and "0 < cs" and "cs < 2147483648"
    and "length (plain_chunks (nat cs) pt) < MAX_CHUNKS"
  shows "\<exists>frame. encrypt A pfx pt key cs = Inr frame \<and> framer_is_encrypted frame
           \<and> decrypt A frame key = Inr pt
           \<and> (\<forall>ps. concat ps = frame \<longrightarrow> gen_result (decrypt_stream A ps key) = Inr pt)"
proof -
  obtain frame where f: "encrypt A pfx pt key cs = Inr frame" "framer_is_encrypted frame"
      "decrypt A frame key = Inr pt"
    using encrypt_decrypt [OF assms] by blast
  have "gen_result (decrypt_stream A ps key) = Inr pt" if "concat ps = frame" for ps
    by (rule decrypt_stream_of_decrypt [of _ frame "[]"]) (use that f(3) in simp_all)
  with f show ?thesis by blast
qed

theorem framer_round_trip_witness:
  "\<exists>frame. encrypt toy_aead (replicate 8 7) [1, 2, 3, 4, 5] (replicate 32 9) 2 = Inr frame
     \<and> framer_is_encrypted frame \<and> decrypt toy_aead frame (replicate 32 9) = Inr [1, 2, 3, 4, 5]
     \<and> gen_result (decrypt_stream toy_aead [take 20 frame, drop 20 frame] (replicate 32 9))
           = Inr [1, 2, 3, 4, 5]"
proof -
  have "\<exists>frame. encrypt toy_aead (replicate 8 7) [1, 2, 3, 4, 5] (replicate 32 9) 2 = Inr frame
      \<and> framer_is_encrypted frame \<and> decrypt toy_aead frame (replicate 32 9) = Inr [1, 2, 3, 4, 5]
      \<and> (\<forall>ps. concat ps = frame \<longrightarrow>
             gen_result (decrypt_stream toy_aead ps (replicate 32 9)) = Inr [1, 2, 3, 4, 5])"
    by (rule framer_round_trip [OF toy_aead_correct])
      (simp_all add: plain_chunks_def MAX_CHUNKS_def)
  then obtain frame where f: "encrypt toy_aead (replicate 8 7) [1, 2, 3, 4, 5] (replicate 32 9) 2 = Inr frame"
      "framer_is_encrypted frame" "decrypt toy_aead frame (replicate 32 9) = Inr [1, 2, 3, 4, 5]"
      "\<forall>ps. concat ps = frame \<longrightarrow>
         gen_result (decrypt_stream toy_aead ps (replicate 32 9)) = Inr [1, 2, 3, 4, 5]"
    by blast
  have "concat [take 20 frame, drop 20 frame] = frame" by simp
  with f show ?thesis by blast
qed

text \<open>
  C40. Where the two forms of decryption differ: one to three bytes appended to a valid frame are rejected by
  \<open>decrypt\<close> (a truncated length prefix) and silently ignored by \<open>decrypt_stream\<close>, although its
  docstring calls it the streaming form of \<open>decrypt\<close> that raises on malformation.
\<close>

theorem trailing_fragment_divergence:
  assumes "decrypt A f key = Inr pt" and "0 < length t" and "length t < 4"
  shows "is_error (decrypt A (f @ t) key) \<and> gen_result (decrypt_stream A [f @ t] key) = Inr pt"
proof
  show "gen_result (decrypt_stream A [f @ t] key) = Inr pt"
    by (rule decrypt_stream_of_decrypt [OF _ assms(3,1)]) simp
  obtain cts where d: "framer_is_encrypted f" "parse_body (drop 18 f) = Inr cts"
    using assms(1) by (auto simp: decrypt_eq split: if_splits)
  have l: "drop 18 (f @ t) = drop 18 f @ t"
    using d(1) by (simp add: framer_is_encrypted_def HEADER_LEN_def)
  have c: "drop 18 f = frame_body cts" "\<forall>ct\<in>set cts. wf_ct ct" using d(2) by (simp_all add: parse_body_iff)
  have no: "parse_body (drop 18 (f @ t)) \<noteq> Inr ys" for ys
  proof
    assume "parse_body (drop 18 (f @ t)) = Inr ys"
    then have "frame_body ys = frame_body cts @ t" "\<forall>y\<in>set ys. wf_ct y"
      using l c(1) by (simp_all add: parse_body_iff)
    with frame_body_prefix [of ys cts t] c(2) obtain zs where "frame_body zs = t" by blast
    with assms(2,3) show False by (cases zs) auto
  qed
  show "is_error (decrypt A (f @ t) key)"
  proof (rule ccontr)
    assume "\<not> is_error (decrypt A (f @ t) key)"
    then obtain y where "decrypt A (f @ t) key = Inr y" by (cases "decrypt A (f @ t) key") auto
    then show False using no by (auto simp: decrypt_eq split: if_splits)
  qed
qed

theorem trailing_fragment_divergence_witness:
  "\<exists>f. decrypt toy_aead f (replicate 32 9) = Inr [1, 2, 3]
     \<and> is_error (decrypt toy_aead (f @ [0, 0]) (replicate 32 9))
     \<and> gen_result (decrypt_stream toy_aead [f @ [0, 0]] (replicate 32 9)) = Inr [1, 2, 3]"
proof -
  obtain f where f: "decrypt toy_aead f (replicate 32 9) = Inr [1, 2, 3]"
    using toy_round_trip by blast
  have "0 < length [0 :: byte, 0]" "length [0 :: byte, 0] < 4" by simp_all
  from trailing_fragment_divergence [OF f this] f show ?thesis by blast
qed

end
