(* ===== verification/Envelope.thy ===== *)
theory Envelope
  imports Framer
begin

text \<open>
  The envelope of \<open>shared/crypto/envelope.py\<close> and the storage seam of
  \<open>shared/crypto/blob_cipher.py\<close>. HKDF-SHA256 is third-party: the parameter \<open>K\<close> gives
  \<open>HKDF(..., length=32, salt).derive(dek)\<close> for a DEK and a salt, and the only thing assumed of it is
  the requested length (\<open>kdf_ok\<close>). The random salt and nonce prefix are arguments.
\<close>

section \<open>The envelope\<close>

type_synonym hkdf = "bytes \<Rightarrow> bytes \<Rightarrow> bytes"

definition kdf_ok :: "hkdf \<Rightarrow> bool" where
  "kdf_ok K \<longleftrightarrow> (\<forall>d s. length (K d s) = 32)"

definition ENV_MAGIC :: bytes where
  "ENV_MAGIC = [0x54, 0x4D, 0x56, 0x45]"   \<comment> \<open>\<open>b"TMVE"\<close>\<close>

definition ENV_VERSION :: byte where
  "ENV_VERSION = 1"

definition KEY_ID_LEN :: nat where
  "KEY_ID_LEN = 16"

definition SALT_LEN :: nat where
  "SALT_LEN = 16"

definition ENV_HEADER_LEN :: nat where
  "ENV_HEADER_LEN = 4 + 1 + KEY_ID_LEN + SALT_LEN"

definition derive_key :: "hkdf \<Rightarrow> bytes \<Rightarrow> bytes \<Rightarrow> bytes result" where
  "derive_key K dek salt =
     (if length dek \<noteq> 32 then Inl (ValueError ''dek must be 32 bytes'') else Inr (K dek salt))"

definition is_encrypted :: "bytes \<Rightarrow> bool" where
  "is_encrypted data \<longleftrightarrow>
     ENV_HEADER_LEN \<le> length data \<and> py_slice data 0 4 = ENV_MAGIC \<and> data ! 4 = ENV_VERSION"

definition read_key_id :: "bytes \<Rightarrow> bytes result" where
  "read_key_id data =
     (if \<not> is_encrypted data then Inl (EnvelopeError ''not a TMVE envelope'')
      else Inr (py_slice data 5 (5 + KEY_ID_LEN)))"

definition encrypt_blob ::
    "aesgcm \<Rightarrow> hkdf \<Rightarrow> bytes \<Rightarrow> bytes \<Rightarrow> bytes \<Rightarrow> bytes \<Rightarrow> bytes \<Rightarrow> int \<Rightarrow> bytes result" where
  "encrypt_blob A K salt nonce_pfx plaintext dek key_id chunk_size =
     (if length key_id \<noteq> KEY_ID_LEN then Inl (ValueError ''key_id must be 16 bytes'')
      else bindE (derive_key K dek salt) (\<lambda>blob_key.
           bindE (encrypt A nonce_pfx plaintext blob_key chunk_size) (\<lambda>frame.
             Inr (ENV_MAGIC @ [ENV_VERSION] @ key_id @ salt @ frame))))"

text \<open>\<open>except framer.DecryptError as e: raise EnvelopeError(str(e))\<close>\<close>

definition envelope_error :: "py_error \<Rightarrow> py_error" where
  "envelope_error e = (case e of DecryptError m \<Rightarrow> EnvelopeError m | _ \<Rightarrow> e)"

definition decrypt_blob :: "aesgcm \<Rightarrow> hkdf \<Rightarrow> bytes \<Rightarrow> bytes \<Rightarrow> bytes result" where
  "decrypt_blob A K data dek =
     (if \<not> is_encrypted data then Inl (EnvelopeError ''not a TMVE envelope'')
      else bindE (derive_key K dek (py_slice data (5 + KEY_ID_LEN) ENV_HEADER_LEN)) (\<lambda>blob_key.
        case decrypt A (drop ENV_HEADER_LEN data) blob_key of
          Inl e \<Rightarrow> Inl (envelope_error e) | Inr p \<Rightarrow> Inr p))"

definition env_encrypt_stream ::
    "aesgcm \<Rightarrow> hkdf \<Rightarrow> bytes \<Rightarrow> bytes \<Rightarrow> bytes list \<Rightarrow> bytes \<Rightarrow> bytes \<Rightarrow> int \<Rightarrow> gen" where
  "env_encrypt_stream A K salt nonce_pfx plaintext dek key_id chunk_size =
     (if length key_id \<noteq> KEY_ID_LEN then ([], Some (ValueError ''key_id must be 16 bytes''))
      else (case derive_key K dek salt of
          Inl e \<Rightarrow> ([], Some e)
        | Inr blob_key \<Rightarrow>
            (case encrypt_stream A nonce_pfx plaintext blob_key chunk_size of
               (out, e) \<Rightarrow> ((ENV_MAGIC @ [ENV_VERSION] @ key_id @ salt) # out, e))))"

text \<open>
  \<open>resolve\<close> is the awaited callable that turns a key id into a DEK; it may change a state \<open>'s\<close>.
\<close>

definition env_decrypt_stream ::
    "aesgcm \<Rightarrow> hkdf \<Rightarrow> bytes list \<Rightarrow> (bytes \<Rightarrow> 's \<Rightarrow> bytes result \<times> 's) \<Rightarrow> 's \<Rightarrow> gen \<times> 's" where
  "env_decrypt_stream A K cipher resolve st =
     (case fill ENV_HEADER_LEN [] cipher of
        (_, buf, ps) \<Rightarrow>
          if \<not> is_encrypted buf then (([], Some (EnvelopeError ''not a TMVE envelope'')), st)
          else let key_id = py_slice buf 5 (5 + KEY_ID_LEN);
                   salt = py_slice buf (5 + KEY_ID_LEN) ENV_HEADER_LEN
            in (case resolve key_id st of
                 (Inl e, st') \<Rightarrow> (([], Some e), st')
               | (Inr dek, st') \<Rightarrow>
                   (case derive_key K dek salt of
                      Inl e \<Rightarrow> (([], Some e), st')
                    | Inr blob_key \<Rightarrow>
                        let rest = drop ENV_HEADER_LEN buf;
                            frame_bytes = (if rest \<noteq> [] then [rest] else []) @ ps
                        in (case decrypt_stream A frame_bytes blob_key of
                             (out, e) \<Rightarrow> ((out, map_option envelope_error e), st')))))"

section \<open>The storage seam\<close>

definition seal :: "aesgcm \<Rightarrow> hkdf \<Rightarrow> bytes \<Rightarrow> bytes \<Rightarrow> bytes \<Rightarrow> bytes \<Rightarrow> bytes \<Rightarrow> bytes result" where
  "seal A K salt nonce_pfx plaintext dek key_id =
     encrypt_blob A K salt nonce_pfx plaintext dek key_id 1048576"

definition open_blob :: "aesgcm \<Rightarrow> hkdf \<Rightarrow> bytes \<Rightarrow> bytes option \<Rightarrow> bytes result" where
  "open_blob A K data dek =
     (if \<not> is_encrypted data then Inr data
      else case dek of
          None \<Rightarrow> Inl (BlobCipherError ''encrypted blob but no DEK provided'')
        | Some d \<Rightarrow> decrypt_blob A K data d)"

text \<open>The message of the caught exception is abstracted to the fixed prefix.\<close>

definition verify_readback :: "aesgcm \<Rightarrow> hkdf \<Rightarrow> bytes \<Rightarrow> bytes \<Rightarrow> bytes \<Rightarrow> unit result" where
  "verify_readback A K downloaded expected_plaintext dek =
     (case decrypt_blob A K downloaded dek of
        Inl e \<Rightarrow> Inl (BlobCipherError ''read-back did not decrypt'')
      | Inr recovered \<Rightarrow>
          if recovered \<noteq> expected_plaintext then Inl (BlobCipherError ''read-back plaintext mismatch'')
          else Inr ())"

section \<open>Round trips\<close>

lemma ENV_HEADER_LEN_37 [simp]: "ENV_HEADER_LEN = 37"
  by (simp add: ENV_HEADER_LEN_def KEY_ID_LEN_def SALT_LEN_def)

lemma envelope_layout:
  fixes frame :: bytes
  assumes "length key_id = 16" and "length salt = 16"
  defines "data \<equiv> ENV_MAGIC @ [ENV_VERSION] @ key_id @ salt @ frame"
  shows "is_encrypted data" "py_slice data 5 21 = key_id" "py_slice data 21 37 = salt"
    "drop 37 data = frame" "read_key_id data = Inr key_id"
proof -
  show e: "is_encrypted data"
    using assms(1,2) by (simp add: data_def is_encrypted_def py_slice_def ENV_MAGIC_def)
  show k: "py_slice data 5 21 = key_id"
    using assms(1,2) by (simp add: data_def py_slice_def ENV_MAGIC_def)
  show "py_slice data 21 37 = salt" "drop 37 data = frame"
    using assms(1,2) by (simp_all add: data_def py_slice_def ENV_MAGIC_def)
  show "read_key_id data = Inr key_id" using e k by (simp add: read_key_id_def KEY_ID_LEN_def)
qed

lemma encrypt_decrypt_blob:
  assumes "aead_correct A" and "kdf_ok K" and "length dek = 32" and "length key_id = 16"
    and "length salt = 16" and "length pfx = 8" and "0 < cs" and "cs < 2147483648"
    and "length (plain_chunks (nat cs) pt) < MAX_CHUNKS"
  shows "\<exists>data frame. encrypt_blob A K salt pfx pt dek key_id cs = Inr data
     \<and> data = ENV_MAGIC @ [ENV_VERSION] @ key_id @ salt @ frame
     \<and> decrypt A frame (K dek salt) = Inr pt
     \<and> decrypt_blob A K data dek = Inr pt"
proof -
  have "length (K dek salt) = 32" using assms(2) by (simp add: kdf_ok_def)
  then obtain frame where f: "encrypt A pfx pt (K dek salt) cs = Inr frame"
      "decrypt A frame (K dek salt) = Inr pt"
    using encrypt_decrypt [OF assms(1) _ assms(6-9)] by blast
  then show ?thesis
    using assms(3,4) envelope_layout [OF assms(4,5), of frame]
    by (simp add: encrypt_blob_def decrypt_blob_def derive_key_def KEY_ID_LEN_def)
qed

lemma gen_result_cons: "gen_result (p # out, e) = bindE (gen_result (out, e)) (\<lambda>x. Inr (p @ x))"
  by (cases e) (simp_all add: gen_result_def)

text \<open>
  Streaming encryption is byte-identical to the single-shot call, exceptions included, whatever the
  boundaries of the incoming pieces.
\<close>

lemma env_encrypt_stream_join:
  assumes "length (plain_chunks (nat cs) (concat pieces)) < MAX_CHUNKS"
  shows "gen_result (env_encrypt_stream A K salt pfx pieces dek key_id cs) =
     encrypt_blob A K salt pfx (concat pieces) dek key_id cs"
proof (cases "derive_key K dek salt")
  case (Inl e)
  then show ?thesis by (simp add: env_encrypt_stream_def encrypt_blob_def gen_result_def)
next
  case (Inr k)
  obtain out e where oe: "encrypt_stream A pfx pieces k cs = (out, e)" by fastforce
  have "gen_result (out, e) = encrypt A pfx (concat pieces) k cs"
    using encrypt_stream_eq_encrypt [OF assms, of A pfx k] oe by simp
  then show ?thesis
    using Inr oe
    by (simp add: env_encrypt_stream_def encrypt_blob_def gen_result_cons)
      (simp add: gen_result_def)
qed

lemma env_decrypt_stream_envelope:
  assumes "concat cipher = ENV_MAGIC @ [ENV_VERSION] @ key_id @ salt @ frame"
    and "length key_id = 16" and "length salt = 16" and "length dek = 32"
    and "resolve key_id st = (Inr dek, st')" and "decrypt A frame (K dek salt) = Inr pt"
  shows "gen_result (fst (env_decrypt_stream A K cipher resolve st)) = Inr pt"
    and "snd (env_decrypt_stream A K cipher resolve st) = st'"
proof -
  define b where "b = concat cipher"
  note lay = envelope_layout [OF assms(2,3), of frame, folded assms(1), folded b_def]
  obtain ok buf ps where f: "fill 37 [] cipher = (ok, buf, ps)" by (cases "fill 37 [] cipher") auto
  have ok: "ok" using fill_ok [OF f] lay(1) by (simp add: is_encrypted_def b_def)
  with f have f: "fill 37 [] cipher = (True, buf, ps)" by simp
  note t = fill_True [OF f order_refl, unfolded append_Nil, folded b_def]
  have n: "37 \<le> length buf" by (rule fill_enough [OF f])
  have buf: "take 37 buf = take 37 b" by (rule t(1))
  have b4: "buf ! 4 = b ! 4" using arg_cong [OF buf, of "\<lambda>x. x ! 4"] by simp
  have tk: "py_slice buf i j = py_slice b i j" if "j \<le> 37" for i j
    using arg_cong [OF buf, of "\<lambda>x. take (j - i) (drop i (take j x))"] that
    by (simp add: py_slice_def drop_take min_def)
  have enc: "is_encrypted buf" using lay(1) n b4 tk [of 4 0] by (simp add: is_encrypted_def)
  let ?fb = "(if drop 37 buf \<noteq> [] then [drop 37 buf] else []) @ ps"
  have "concat ?fb = frame @ []" using t(3) lay(4) by auto
  from decrypt_stream_of_decrypt [OF this _ assms(6)]
  have g: "gen_result (decrypt_stream A ?fb (K dek salt)) = Inr pt" by simp
  obtain out e where oe: "decrypt_stream A ?fb (K dek salt) = (out, e)" by fastforce
  with g have e: "e = None" "concat out = pt" by (auto simp: gen_result_def split: option.splits)
  have "env_decrypt_stream A K cipher resolve st = ((out, None), st')"
    using f enc tk [of 21 5] tk [of 37 21] lay(2,3) assms(4,5) oe e
    by (simp add: env_decrypt_stream_def KEY_ID_LEN_def derive_key_def)
  then show "gen_result (fst (env_decrypt_stream A K cipher resolve st)) = Inr pt"
    "snd (env_decrypt_stream A K cipher resolve st) = st'"
    using e by (simp_all add: gen_result_def)
qed

end
