(* ===== verification/Dek_Manager.thy ===== *)
theory Dek_Manager
  imports Envelope
begin

text \<open>
  Key management: the KEK providers of \<open>shared/crypto/kek.py\<close>, the \<open>DekStore\<close> interface and the
  \<open>DekManager\<close> of \<open>shared/crypto/dek_manager.py\<close>, and the \<open>tenant_dek\<close> table behind
  \<open>SqlDekStore\<close> (\<open>shared/crypto/store.py\<close>).

  The manager is written over an injected store, a record of operations on a state \<open>'s\<close>. What it
  relies on is the locale \<open>dek_store\<close>; its lemmas are proved there and \<open>SqlDekStore\<close> interprets it.
  \<open>os.urandom\<close> and \<open>uuid4\<close> are arguments. Wrapping primitives (AES key wrap, the KMS and Key Vault
  clients) are fields of the provider.
\<close>

section \<open>KEK providers\<close>

record kek_provider =
  provider_name :: string
  kek_id :: string
  wrap_dek :: "bytes \<Rightarrow> bytes result"
  unwrap_dek :: "bytes \<Rightarrow> bytes result"

text \<open>The contract of \<open>KekProvider\<close>: a DEK wrapped now unwraps to the same bytes later.\<close>

definition kek_ok :: "kek_provider \<Rightarrow> bool" where
  "kek_ok P \<longleftrightarrow> (\<forall>d. length d = 32 \<longrightarrow> (\<exists>w. wrap_dek P d = Inr w \<and> unwrap_dek P w = Inr d))"

text \<open>\<open>aes_key_wrap\<close> and \<open>aes_key_unwrap\<close> take the wrapping key and the bytes.\<close>

record key_wrap =
  aes_key_wrap :: "bytes \<Rightarrow> bytes \<Rightarrow> bytes result"
  aes_key_unwrap :: "bytes \<Rightarrow> bytes \<Rightarrow> bytes result"

definition EnvKek :: "key_wrap \<Rightarrow> bytes \<Rightarrow> string \<Rightarrow> kek_provider result" where
  "EnvKek W master_key kid =
     (if length master_key \<noteq> 32 then Inl (ValueError ''master_key must be 32 bytes (AES-256)'')
      else Inr \<lparr>provider_name = ''env'', kek_id = kid,
                wrap_dek = aes_key_wrap W master_key, unwrap_dek = aes_key_unwrap W master_key\<rparr>)"

text \<open>A KMS client: \<open>Encrypt\<close> names the key, \<open>Decrypt\<close> takes the ciphertext alone.\<close>

record kms_client =
  kms_encrypt :: "string \<Rightarrow> bytes \<Rightarrow> bytes result"
  kms_decrypt :: "bytes \<Rightarrow> bytes result"

definition AwsKmsKek :: "kms_client \<Rightarrow> string \<Rightarrow> kek_provider" where
  "AwsKmsKek C kid = \<lparr>provider_name = ''aws_kms'', kek_id = kid,
     wrap_dek = kms_encrypt C kid, unwrap_dek = kms_decrypt C\<rparr>"

text \<open>A Key Vault \<open>CryptographyClient\<close> is made for one key; the first argument is the algorithm.\<close>

record vault_client =
  wrap_key :: "string \<Rightarrow> bytes \<Rightarrow> bytes result"
  unwrap_key :: "string \<Rightarrow> bytes \<Rightarrow> bytes result"

definition AzureKeyVaultKek :: "vault_client \<Rightarrow> string \<Rightarrow> kek_provider" where
  "AzureKeyVaultKek C kid = \<lparr>provider_name = ''azure_key_vault'', kek_id = kid,
     wrap_dek = wrap_key C ''RSA-OAEP-256'', unwrap_dek = unwrap_key C ''RSA-OAEP-256''\<rparr>"

section \<open>Records, stores and the manager\<close>

record dek_record =
  dr_tenant_id :: string
  dr_key_id :: bytes
  dr_wrapped_dek :: bytes
  dr_kek_id :: string
  dr_provider :: string
  dr_state :: string

record 's dek_store_ops =
  get_active :: "string \<Rightarrow> 's \<Rightarrow> dek_record option"
  get_by_key_id :: "bytes \<Rightarrow> 's \<Rightarrow> dek_record option"
  insert_dek :: "dek_record \<Rightarrow> 's \<Rightarrow> 's result"
  rotate_active :: "string \<Rightarrow> dek_record \<Rightarrow> 's \<Rightarrow> 's result"
  all_records :: "'s \<Rightarrow> dek_record list"
  update_wrapping :: "bytes \<Rightarrow> bytes \<Rightarrow> string \<Rightarrow> string \<Rightarrow> 's \<Rightarrow> 's"

record 's dek_manager =
  dm_kek :: kek_provider
  dm_store :: 's
  by_kid :: "bytes \<rightharpoonup> bytes"
  active_kid :: "string \<rightharpoonup> bytes"

definition DekManager :: "kek_provider \<Rightarrow> 's \<Rightarrow> 's dek_manager" where
  "DekManager kek store = \<lparr>dm_kek = kek, dm_store = store, by_kid = Map.empty, active_kid = Map.empty\<rparr>"

definition active_dek ::
    "'s dek_store_ops \<Rightarrow> 's dek_manager \<Rightarrow> string \<Rightarrow> bytes \<Rightarrow> bytes
       \<Rightarrow> (bytes \<times> bytes) result \<times> 's dek_manager" where
  "active_dek S m tenant_id new_dek uuid =
     (case active_kid m tenant_id of
        Some cached \<Rightarrow>
          (case by_kid m cached of None \<Rightarrow> (Inl PyKeyError, m) | Some d \<Rightarrow> (Inr (cached, d), m))
      | None \<Rightarrow>
          (case get_active S tenant_id (dm_store m) of
             None \<Rightarrow>
               (case wrap_dek (dm_kek m) new_dek of
                  Inl e \<Rightarrow> (Inl e, m)
                | Inr w \<Rightarrow>
                    (let rec = \<lparr>dr_tenant_id = tenant_id, dr_key_id = uuid, dr_wrapped_dek = w,
                                dr_kek_id = kek_id (dm_kek m), dr_provider = provider_name (dm_kek m),
                                dr_state = ''active''\<rparr>
                     in case insert_dek S rec (dm_store m) of
                          Inl e \<Rightarrow> (Inl e, m)
                        | Inr st \<Rightarrow> (Inr (uuid, new_dek),
                                    m\<lparr>dm_store := st, by_kid := (by_kid m)(uuid \<mapsto> new_dek),
                                      active_kid := (active_kid m)(tenant_id \<mapsto> uuid)\<rparr>)))
           | Some rec \<Rightarrow>
               (case unwrap_dek (dm_kek m) (dr_wrapped_dek rec) of
                  Inl e \<Rightarrow> (Inl e, m)
                | Inr d \<Rightarrow> (Inr (dr_key_id rec, d),
                            m\<lparr>by_kid := (by_kid m)(dr_key_id rec \<mapsto> d),
                              active_kid := (active_kid m)(tenant_id \<mapsto> dr_key_id rec)\<rparr>))))"

definition dek_for_key_id ::
    "'s dek_store_ops \<Rightarrow> 's dek_manager \<Rightarrow> bytes \<Rightarrow> bytes result \<times> 's dek_manager" where
  "dek_for_key_id S m key_id =
     (case by_kid m key_id of
        Some d \<Rightarrow> (Inr d, m)
      | None \<Rightarrow>
          (case get_by_key_id S key_id (dm_store m) of
             None \<Rightarrow> (Inl PyKeyError, m)
           | Some rec \<Rightarrow>
               (case unwrap_dek (dm_kek m) (dr_wrapped_dek rec) of
                  Inl e \<Rightarrow> (Inl e, m)
                | Inr d \<Rightarrow> (Inr d, m\<lparr>by_kid := (by_kid m)(key_id \<mapsto> d)\<rparr>))))"

definition rotate_dek ::
    "'s dek_store_ops \<Rightarrow> 's dek_manager \<Rightarrow> string \<Rightarrow> bytes \<Rightarrow> bytes \<Rightarrow> bytes result \<times> 's dek_manager"
  where
  "rotate_dek S m tenant_id new_dek uuid =
     (case wrap_dek (dm_kek m) new_dek of
        Inl e \<Rightarrow> (Inl e, m)
      | Inr w \<Rightarrow>
          (let rec = \<lparr>dr_tenant_id = tenant_id, dr_key_id = uuid, dr_wrapped_dek = w,
                      dr_kek_id = kek_id (dm_kek m), dr_provider = provider_name (dm_kek m),
                      dr_state = ''active''\<rparr>
           in case rotate_active S tenant_id rec (dm_store m) of
                Inl e \<Rightarrow> (Inl e, m)
              | Inr st \<Rightarrow> (Inr uuid,
                          m\<lparr>dm_store := st, by_kid := (by_kid m)(uuid \<mapsto> new_dek),
                            active_kid := (active_kid m)(tenant_id \<mapsto> uuid)\<rparr>)))"

text \<open>
  \<open>self._by_kid.get(key_id) or self._kek.unwrap_dek(...)\<close>: a missing or empty cached value falls
  through to unwrapping.
\<close>

definition cached_or_unwrap :: "'s dek_manager \<Rightarrow> dek_record \<Rightarrow> bytes result" where
  "cached_or_unwrap m rec =
     (case by_kid m (dr_key_id rec) of
        Some (b # bs) \<Rightarrow> Inr (b # bs)
      | _ \<Rightarrow> unwrap_dek (dm_kek m) (dr_wrapped_dek rec))"

fun rewrap_loop ::
    "'s dek_store_ops \<Rightarrow> kek_provider \<Rightarrow> dek_record list \<Rightarrow> nat \<Rightarrow> 's dek_manager
       \<Rightarrow> nat result \<times> 's dek_manager" where
  "rewrap_loop S new_kek [] n m = (Inr n, m)"
| "rewrap_loop S new_kek (rec # recs) n m =
     (case cached_or_unwrap m rec of
        Inl e \<Rightarrow> (Inl e, m)
      | Inr dek \<Rightarrow>
          (case wrap_dek new_kek dek of
             Inl e \<Rightarrow> (Inl e, m)
           | Inr w \<Rightarrow>
               rewrap_loop S new_kek recs (Suc n)
                 (m\<lparr>dm_store := update_wrapping S (dr_key_id rec) w (kek_id new_kek)
                                  (provider_name new_kek) (dm_store m),
                    by_kid := (by_kid m)(dr_key_id rec \<mapsto> dek)\<rparr>)))"

definition rewrap_all ::
    "'s dek_store_ops \<Rightarrow> 's dek_manager \<Rightarrow> kek_provider \<Rightarrow> nat result \<times> 's dek_manager" where
  "rewrap_all S m new_kek =
     (case rewrap_loop S new_kek (all_records S (dm_store m)) 0 m of
        (Inl e, m') \<Rightarrow> (Inl e, m')
      | (Inr n, m') \<Rightarrow> (Inr n, m'\<lparr>dm_kek := new_kek\<rparr>))"

section \<open>The \<open>tenant_dek\<close> table\<close>

text \<open>
  \<open>SqlDekStore\<close> over the rows of \<open>tenant_dek\<close>, with its two unique indexes: \<open>key_id\<close>, and
  \<open>tenant_id\<close> among the rows in state \<open>active\<close>. A write that would break one raises
  \<open>IntegrityError\<close> and the transaction rolls back.
\<close>

type_synonym dek_table = "dek_record list"

definition sql_get_active :: "string \<Rightarrow> dek_table \<Rightarrow> dek_record option" where
  "sql_get_active tenant rows =
     find (\<lambda>r. dr_tenant_id r = tenant \<and> dr_state r = ''active'') rows"

definition sql_get_by_key_id :: "bytes \<Rightarrow> dek_table \<Rightarrow> dek_record option" where
  "sql_get_by_key_id kid rows = find (\<lambda>r. dr_key_id r = kid) rows"

definition sql_insert :: "dek_record \<Rightarrow> dek_table \<Rightarrow> dek_table result" where
  "sql_insert rec rows =
     (if \<exists>r\<in>set rows. dr_key_id r = dr_key_id rec then Inl IntegrityError
      else if dr_state rec = ''active''
              \<and> (\<exists>r\<in>set rows. dr_tenant_id r = dr_tenant_id rec \<and> dr_state r = ''active'')
      then Inl IntegrityError
      else Inr (rows @ [rec]))"

definition retire :: "string \<Rightarrow> dek_record \<Rightarrow> dek_record" where
  "retire tenant r =
     (if dr_tenant_id r = tenant \<and> dr_state r = ''active'' then r\<lparr>dr_state := ''retired''\<rparr> else r)"

definition sql_rotate :: "string \<Rightarrow> dek_record \<Rightarrow> dek_table \<Rightarrow> dek_table result" where
  "sql_rotate tenant rec rows = sql_insert rec (map (retire tenant) rows)"

definition sql_all_records :: "dek_table \<Rightarrow> dek_record list" where
  "sql_all_records rows = rows"

definition sql_update_wrapping :: "bytes \<Rightarrow> bytes \<Rightarrow> string \<Rightarrow> string \<Rightarrow> dek_table \<Rightarrow> dek_table" where
  "sql_update_wrapping kid w kek prov rows =
     map (\<lambda>r. if dr_key_id r = kid
              then r\<lparr>dr_wrapped_dek := w, dr_kek_id := kek, dr_provider := prov\<rparr> else r) rows"

definition SqlDekStore :: "dek_table dek_store_ops" where
  "SqlDekStore = \<lparr>get_active = sql_get_active, get_by_key_id = sql_get_by_key_id,
     insert_dek = sql_insert, rotate_active = sql_rotate, all_records = sql_all_records,
     update_wrapping = sql_update_wrapping\<rparr>"

definition sql_inv :: "dek_table \<Rightarrow> bool" where
  "sql_inv rows \<longleftrightarrow>
     distinct (map dr_key_id rows)
     \<and> distinct (map dr_tenant_id (filter (\<lambda>r. dr_state r = ''active'') rows))"


section \<open>Runs of the system\<close>

text \<open>
  What can happen to a manager between two reads of the same blob: its own operations, with any
  outcome and any 32 random bytes and 16-byte uuid (a colliding uuid included), a re-wrap under a
  usable new KEK, a process restart (caches lost), and the writes of another process that holds
  the same KEK and works on the same store. A cold manager has every store effect a warm one has.
\<close>

inductive dek_step :: "'s dek_store_ops \<Rightarrow> 's dek_manager \<Rightarrow> 's dek_manager \<Rightarrow> bool" for S where
  step_active: "length d = 32 \<Longrightarrow> length u = 16 \<Longrightarrow> active_dek S m t d u = (res, m') \<Longrightarrow> dek_step S m m'"
| step_resolve: "dek_for_key_id S m k = (res', m') \<Longrightarrow> dek_step S m m'"
| step_rotate: "length d = 32 \<Longrightarrow> length u = 16 \<Longrightarrow> rotate_dek S m t d u = (res', m') \<Longrightarrow> dek_step S m m'"
| step_rewrap: "kek_ok kek \<Longrightarrow> rewrap_all S m kek = (Inr n, m') \<Longrightarrow> dek_step S m m'"
| step_restart: "dek_step S m (DekManager (dm_kek m) (dm_store m))"
| step_other_active: "length d = 32 \<Longrightarrow> length u = 16 \<Longrightarrow>
    active_dek S (DekManager (dm_kek m) (dm_store m)) t d u = (res, m') \<Longrightarrow>
    dek_step S m (m\<lparr>dm_store := dm_store m'\<rparr>)"
| step_other_rotate: "length d = 32 \<Longrightarrow> length u = 16 \<Longrightarrow>
    rotate_dek S (DekManager (dm_kek m) (dm_store m)) t d u = (res', m') \<Longrightarrow>
    dek_step S m (m\<lparr>dm_store := dm_store m'\<rparr>)"

section \<open>The interface the manager relies on\<close>

text \<open>
  The contract of \<open>DekStore\<close>. \<open>get_by_key_id\<close> is the abstraction: the store is a map from key ids
  to records, writes extend it or change the wrapped form, and nothing ever drops a key id.
\<close>

locale dek_store =
  fixes S :: "'s dek_store_ops" and inv :: "'s \<Rightarrow> bool"
  assumes lookup_key: "inv s \<Longrightarrow> get_by_key_id S k s = Some r \<Longrightarrow> dr_key_id r = k"
    and active_listed: "inv s \<Longrightarrow> get_active S t s = Some r \<Longrightarrow>
      get_by_key_id S (dr_key_id r) s = Some r \<and> dr_tenant_id r = t \<and> dr_state r = ''active''"
    and insert_ok: "inv s \<Longrightarrow> get_by_key_id S (dr_key_id r) s = None \<Longrightarrow>
      dr_state r = ''active'' \<Longrightarrow> get_active S (dr_tenant_id r) s = None \<Longrightarrow> \<exists>s'. insert_dek S r s = Inr s'"
    and insert_lookup: "inv s \<Longrightarrow> insert_dek S r s = Inr s' \<Longrightarrow>
      inv s' \<and> get_by_key_id S (dr_key_id r) s = None
      \<and> get_by_key_id S k s' = (if k = dr_key_id r then Some r else get_by_key_id S k s)"
    and rotate_ok: "inv s \<Longrightarrow> get_by_key_id S (dr_key_id r) s = None \<Longrightarrow>
      dr_state r = ''active'' \<Longrightarrow> dr_tenant_id r = t \<Longrightarrow> \<exists>s'. rotate_active S t r s = Inr s'"
    and rotate_lookup: "inv s \<Longrightarrow> rotate_active S t r s = Inr s' \<Longrightarrow>
      inv s' \<and> get_by_key_id S (dr_key_id r) s = None
      \<and> get_by_key_id S k s' =
          (if k = dr_key_id r then Some r else map_option (retire t) (get_by_key_id S k s))"
    and rotate_makes_active: "inv s \<Longrightarrow> rotate_active S t r s = Inr s' \<Longrightarrow> dr_tenant_id r = t \<Longrightarrow>
      dr_state r = ''active'' \<Longrightarrow> get_active S t s' = Some r"
    and all_listed: "inv s \<Longrightarrow> get_by_key_id S k s = Some r \<longleftrightarrow> r \<in> set (all_records S s) \<and> dr_key_id r = k"
    and all_distinct: "inv s \<Longrightarrow> distinct (map dr_key_id (all_records S s))"
    and update_lookup: "inv s \<Longrightarrow> inv (update_wrapping S k w kk p s)
      \<and> get_by_key_id S k' (update_wrapping S k w kk p s) =
          (if k' = k then map_option (\<lambda>r. r\<lparr>dr_wrapped_dek := w, dr_kek_id := kk, dr_provider := p\<rparr>)
                            (get_by_key_id S k' s)
           else get_by_key_id S k' s)"
begin

text \<open>
  The manager refines an abstract vault \<open>V\<close>, the plaintext DEK of every key id ever issued: each
  stored record unwraps to the vault's key, and the caches hold vault entries only.
\<close>

definition vault :: "'s dek_manager \<Rightarrow> (bytes \<rightharpoonup> bytes) \<Rightarrow> bool" where
  "vault m V \<longleftrightarrow>
     inv (dm_store m) \<and> kek_ok (dm_kek m)
     \<and> (\<forall>k. (V k = None) = (get_by_key_id S k (dm_store m) = None))
     \<and> (\<forall>k r. get_by_key_id S k (dm_store m) = Some r \<longrightarrow>
           unwrap_dek (dm_kek m) (dr_wrapped_dek r) = Inr (the (V k)))
     \<and> (\<forall>k d. V k = Some d \<longrightarrow> length d = 32 \<and> length k = 16)
     \<and> (\<forall>k d. by_kid m k = Some d \<longrightarrow> V k = Some d)
     \<and> (\<forall>t k. active_kid m t = Some k \<longrightarrow> by_kid m k \<noteq> None)"

lemma vaultD:
  assumes "vault m V"
  shows "inv (dm_store m)" "kek_ok (dm_kek m)"
    "V k = None \<longleftrightarrow> get_by_key_id S k (dm_store m) = None"
    "get_by_key_id S k (dm_store m) = Some r \<Longrightarrow> unwrap_dek (dm_kek m) (dr_wrapped_dek r) = Inr (the (V k))"
    "V k = Some d \<Longrightarrow> length d = 32" "V k = Some d \<Longrightarrow> length k = 16"
    "by_kid m k = Some d \<Longrightarrow> V k = Some d"
    "active_kid m t = Some k \<Longrightarrow> by_kid m k \<noteq> None"
  using assms unfolding vault_def by auto

lemma vault_stored:
  assumes "vault m V" and "get_by_key_id S k (dm_store m) = Some r"
  obtains d where "V k = Some d" "unwrap_dek (dm_kek m) (dr_wrapped_dek r) = Inr d" "length d = 32"
    "dr_key_id r = k"
  using assms vaultD(3,4) [OF assms(1), of k] vaultD(5) [OF assms(1)]
    lookup_key [OF vaultD(1) [OF assms(1)] assms(2)] by fastforce

lemma vault_cache:
  assumes "vault m V" and "V k = Some d"
  shows "vault (m\<lparr>by_kid := (by_kid m)(k \<mapsto> d)\<rparr>) V"
  using assms unfolding vault_def by auto

lemma vault_cache_active:
  assumes "vault m V" and "V k = Some d"
  shows "vault (m\<lparr>by_kid := (by_kid m)(k \<mapsto> d), active_kid := (active_kid m)(t \<mapsto> k)\<rparr>) V"
  using assms unfolding vault_def by auto

text \<open>Resolving a key id returns the vault's key, from a warm or a cold cache.\<close>

lemma dek_for_key_id_vault:
  assumes "vault m V" and "V k = Some d"
  shows "\<exists>m'. dek_for_key_id S m k = (Inr d, m') \<and> vault m' V"
proof (cases "by_kid m k")
  case (Some d')
  then show ?thesis using vaultD(7) [OF assms(1)] assms by (auto simp: dek_for_key_id_def)
next
  case None
  obtain r where r: "get_by_key_id S k (dm_store m) = Some r"
    using vaultD(3) [OF assms(1), of k] assms(2) by auto
  from vault_stored [OF assms(1) r] assms(2)
  have "unwrap_dek (dm_kek m) (dr_wrapped_dek r) = Inr d" by auto
  with None r show ?thesis using vault_cache [OF assms] by (simp add: dek_for_key_id_def)
qed

lemma dek_for_key_id_keeps:
  assumes "vault m V" and "dek_for_key_id S m k = (res, m')"
  shows "vault m' V"
proof (cases "V k")
  case (Some d)
  then show ?thesis using dek_for_key_id_vault [OF assms(1) Some] assms(2) by auto
next
  case None
  then have "get_by_key_id S k (dm_store m) = None" "by_kid m k = None"
    using vaultD(3) [OF assms(1), of k] vaultD(7) [OF assms(1), of k] by (simp, cases "by_kid m k") auto
  with assms show ?thesis by (auto simp: dek_for_key_id_def)
qed

text \<open>So the read path is a lookup in the vault, an unknown key id being a \<open>KeyError\<close>.\<close>

lemma dek_for_key_id_spec:
  assumes "vault m V"
  shows "fst (dek_for_key_id S m k) = (case V k of None \<Rightarrow> Inl PyKeyError | Some d \<Rightarrow> Inr d)"
proof (cases "V k")
  case (Some d)
  then show ?thesis using dek_for_key_id_vault [OF assms Some] by auto
next
  case None
  then have "get_by_key_id S k (dm_store m) = None" "by_kid m k = None"
    using vaultD(3) [OF assms, of k] vaultD(7) [OF assms, of k] by (simp, cases "by_kid m k") auto
  with None show ?thesis by (auto simp: dek_for_key_id_def)
qed

lemma dek_for_key_id_inv:
  "vault m V \<Longrightarrow> fst (dek_for_key_id S m k) = Inr d \<Longrightarrow> V k = Some d"
  using dek_for_key_id_spec [of m V k] by (simp split: option.splits)

text \<open>Adding a fresh record (by insert or rotate) extends the vault.\<close>

lemma vault_extend:
  assumes "vault m V" and "inv st" and "V uuid = None" and "length d = 32" and "length uuid = 16"
    and "wrap_dek (dm_kek m) d = Inr w" and "unwrap_dek (dm_kek m) w = Inr d" and "dr_wrapped_dek r = w"
    and "\<And>k. get_by_key_id S k st =
           (if k = uuid then Some r else map_option f (get_by_key_id S k (dm_store m)))"
    and "\<And>x. dr_wrapped_dek (f x) = dr_wrapped_dek x"
  shows "vault (m\<lparr>dm_store := st, by_kid := (by_kid m)(uuid \<mapsto> d),
                  active_kid := (active_kid m)(t \<mapsto> uuid)\<rparr>) (V(uuid \<mapsto> d))"
  using assms unfolding vault_def by (auto simp: map_option_case split: option.splits if_splits)

lemma kek_okE:
  assumes "vault m V" and "length d = 32"
  obtains w where "wrap_dek (dm_kek m) d = Inr w" "unwrap_dek (dm_kek m) w = Inr d"
  using vaultD(2) [OF assms(1)] assms(2) unfolding kek_ok_def by blast

text \<open>
  \<open>active_dek\<close> never fails on a fresh key id and returns a vault entry; the vault only grows.
\<close>

lemma active_dek_vault:
  assumes "vault m V" and "length d = 32" and "length uuid = 16" and "V uuid = None"
  shows "\<exists>k d' m' V'. active_dek S m t d uuid = (Inr (k, d'), m') \<and> vault m' V' \<and> V \<subseteq>\<^sub>m V'
           \<and> V' k = Some d' \<and> length k = 16 \<and> active_kid m' t = Some k"
proof (cases "active_kid m t")
  case (Some k)
  then obtain d' where "by_kid m k = Some d'" using vaultD(8) [OF assms(1) Some] by blast
  with Some show ?thesis
    using assms(1) vaultD(6,7) [OF assms(1)] by (auto simp: active_dek_def)
next
  case None
  show ?thesis
  proof (cases "get_active S t (dm_store m)")
    case (Some r)
    then have "get_by_key_id S (dr_key_id r) (dm_store m) = Some r"
      using active_listed [OF vaultD(1) [OF assms(1)]] by blast
    from vault_stored [OF assms(1) this]
    obtain d' where d': "V (dr_key_id r) = Some d'" "unwrap_dek (dm_kek m) (dr_wrapped_dek r) = Inr d'"
      by blast
    with None Some show ?thesis
      using vault_cache_active [OF assms(1) d'(1), of t] vaultD(6) [OF assms(1) d'(1)]
      by (auto simp: active_dek_def)
  next
    case no: None
    obtain w where w: "wrap_dek (dm_kek m) d = Inr w" "unwrap_dek (dm_kek m) w = Inr d"
      by (rule kek_okE [OF assms(1,2)])
    let ?r = "\<lparr>dr_tenant_id = t, dr_key_id = uuid, dr_wrapped_dek = w, dr_kek_id = kek_id (dm_kek m),
               dr_provider = provider_name (dm_kek m), dr_state = ''active''\<rparr>"
    have inv: "inv (dm_store m)" by (rule vaultD(1) [OF assms(1)])
    have fresh: "get_by_key_id S uuid (dm_store m) = None" using vaultD(3) [OF assms(1)] assms(4) by simp
    obtain st where st: "insert_dek S ?r (dm_store m) = Inr st"
      using insert_ok [OF inv, of ?r] fresh no by auto
    have "vault (m\<lparr>dm_store := st, by_kid := (by_kid m)(uuid \<mapsto> d),
                   active_kid := (active_kid m)(t \<mapsto> uuid)\<rparr>) (V(uuid \<mapsto> d))"
      by (rule vault_extend [OF assms(1) _ assms(4,2,3) w, where r = ?r and f = id])
        (use insert_lookup [OF inv st] in \<open>auto simp: option.map_id\<close>)
    moreover have "V \<subseteq>\<^sub>m V(uuid \<mapsto> d)" using assms(4) by (auto simp: map_le_def)
    ultimately show ?thesis using None no w st assms(3) by (auto simp: active_dek_def)
  qed
qed

text \<open>Rotation never fails on a fresh key id, issues it, and keeps every older entry.\<close>

lemma rotate_dek_vault:
  assumes "vault m V" and "length d = 32" and "length uuid = 16" and "V uuid = None"
  shows "\<exists>m'. rotate_dek S m t d uuid = (Inr uuid, m') \<and> vault m' (V(uuid \<mapsto> d))
           \<and> active_kid m' t = Some uuid"
proof -
  obtain w where w: "wrap_dek (dm_kek m) d = Inr w" "unwrap_dek (dm_kek m) w = Inr d"
    by (rule kek_okE [OF assms(1,2)])
  let ?r = "\<lparr>dr_tenant_id = t, dr_key_id = uuid, dr_wrapped_dek = w, dr_kek_id = kek_id (dm_kek m),
             dr_provider = provider_name (dm_kek m), dr_state = ''active''\<rparr>"
  have inv: "inv (dm_store m)" by (rule vaultD(1) [OF assms(1)])
  have fresh: "get_by_key_id S uuid (dm_store m) = None" using vaultD(3) [OF assms(1)] assms(4) by simp
  obtain st where st: "rotate_active S t ?r (dm_store m) = Inr st"
    using rotate_ok [OF inv, of ?r t] fresh by auto
  have "vault (m\<lparr>dm_store := st, by_kid := (by_kid m)(uuid \<mapsto> d),
                 active_kid := (active_kid m)(t \<mapsto> uuid)\<rparr>) (V(uuid \<mapsto> d))"
    by (rule vault_extend [OF assms(1) _ assms(4,2,3) w, where r = ?r and f = "retire t"])
      (use rotate_lookup [OF inv st] in \<open>auto simp: retire_def\<close>)
  then show ?thesis using w st by (simp add: rotate_dek_def)
qed

text \<open>Both minting operations keep the refinement on every outcome, a key id collision included.\<close>

lemma active_dek_keeps:
  assumes "vault m V" and "length d = 32" and "length uuid = 16"
    and "active_dek S m t d uuid = (res, m')"
  shows "\<exists>V'. vault m' V' \<and> V \<subseteq>\<^sub>m V' \<and> dm_kek m' = dm_kek m
           \<and> (\<forall>k d'. res = Inr (k, d') \<longrightarrow> V' k = Some d')"
proof (cases "V uuid")
  case None
  moreover have "dm_kek m' = dm_kek m"
    using assms(4) by (auto simp: active_dek_def Let_def split: option.splits sum.splits)
  ultimately show ?thesis using active_dek_vault [OF assms(1-3), of t] assms(4) by fastforce
next
  case (Some d0)
  obtain w where w: "wrap_dek (dm_kek m) d = Inr w" by (rule kek_okE [OF assms(1,2)])
  have taken: "get_by_key_id S uuid (dm_store m) \<noteq> None" using vaultD(3) [OF assms(1), of uuid] Some by simp
  have no_insert: "insert_dek S r (dm_store m) \<noteq> Inr s'" if "dr_key_id r = uuid" for r s'
    using insert_lookup [OF vaultD(1) [OF assms(1)], of r] taken that by auto
  consider k where "active_kid m t = Some k"
    | r where "active_kid m t = None" "get_active S t (dm_store m) = Some r"
    | "active_kid m t = None" "get_active S t (dm_store m) = None" by (cases "active_kid m t"; cases "get_active S t (dm_store m)") auto
  then show ?thesis
  proof cases
    case 1
    then show ?thesis
      using vaultD(7,8) [OF assms(1)] assms(1,4) by (auto simp: active_dek_def split: option.splits)
  next
    case (2 r)
    then have "get_by_key_id S (dr_key_id r) (dm_store m) = Some r"
      using active_listed [OF vaultD(1) [OF assms(1)]] by blast
    from vault_stored [OF assms(1) this]
    obtain d' where d': "V (dr_key_id r) = Some d'" "unwrap_dek (dm_kek m) (dr_wrapped_dek r) = Inr d'"
      by blast
    with 2 assms(4) show ?thesis using vault_cache_active [OF assms(1) d'(1), of t]
      by (auto simp: active_dek_def)
  next
    case 3
    with w assms(4) have "m' = m \<and> (\<exists>e. res = Inl e)"
      by (auto simp: active_dek_def no_insert Let_def split: sum.splits)
    then show ?thesis using assms(1) by auto
  qed
qed

lemma rotate_dek_keeps:
  assumes "vault m V" and "length d = 32" and "length uuid = 16"
    and "rotate_dek S m t d uuid = (res, m')"
  shows "\<exists>V'. vault m' V' \<and> V \<subseteq>\<^sub>m V' \<and> dm_kek m' = dm_kek m"
proof (cases "V uuid")
  case None
  then have "V \<subseteq>\<^sub>m V(uuid \<mapsto> d)" by (auto simp: map_le_def)
  moreover have "dm_kek m' = dm_kek m"
    using assms(4) by (auto simp: rotate_dek_def Let_def split: option.splits sum.splits)
  ultimately show ?thesis using rotate_dek_vault [OF assms(1-3) None, of t] assms(4) by auto
next
  case (Some d0)
  obtain w where w: "wrap_dek (dm_kek m) d = Inr w" by (rule kek_okE [OF assms(1,2)])
  have taken: "get_by_key_id S uuid (dm_store m) \<noteq> None" using vaultD(3) [OF assms(1), of uuid] Some by simp
  have no_rotate: "rotate_active S t r (dm_store m) \<noteq> Inr s'" if "dr_key_id r = uuid" for r s'
    using rotate_lookup [OF vaultD(1) [OF assms(1)], of t r] taken that by auto
  then have "m' = m"
    using w assms(4) by (auto simp: rotate_dek_def no_rotate Let_def split: sum.splits)
  then show ?thesis using assms(1) by auto
qed

text \<open>
  The re-wrap loop: the records still to do unwrap with the old KEK, the others with the new one.
\<close>

definition half_wrapped ::
    "kek_provider \<Rightarrow> dek_record list \<Rightarrow> 's dek_manager \<Rightarrow> (bytes \<rightharpoonup> bytes) \<Rightarrow> bool" where
  "half_wrapped new_kek recs m V \<longleftrightarrow>
     inv (dm_store m) \<and> distinct (map dr_key_id recs)
     \<and> (\<forall>r\<in>set recs. get_by_key_id S (dr_key_id r) (dm_store m) = Some r
           \<and> unwrap_dek (dm_kek m) (dr_wrapped_dek r) = Inr (the (V (dr_key_id r))))
     \<and> (\<forall>k. (V k = None) = (get_by_key_id S k (dm_store m) = None))
     \<and> (\<forall>k r. get_by_key_id S k (dm_store m) = Some r \<longrightarrow> k \<notin> dr_key_id ` set recs \<longrightarrow>
           unwrap_dek new_kek (dr_wrapped_dek r) = Inr (the (V k)))
     \<and> (\<forall>k d. V k = Some d \<longrightarrow> length d = 32 \<and> length k = 16)
     \<and> (\<forall>k d. by_kid m k = Some d \<longrightarrow> V k = Some d)
     \<and> (\<forall>t k. active_kid m t = Some k \<longrightarrow> by_kid m k \<noteq> None)"

lemma half_wrapped_start:
  "vault m V \<Longrightarrow> half_wrapped new_kek (all_records S (dm_store m)) m V"
  unfolding vault_def half_wrapped_def
  using all_listed [of "dm_store m"] all_distinct [of "dm_store m"] by fastforce

lemma half_wrapped_done:
  "half_wrapped new_kek [] m V \<Longrightarrow> kek_ok new_kek \<Longrightarrow> vault (m\<lparr>dm_kek := new_kek\<rparr>) V"
  unfolding vault_def half_wrapped_def by simp

lemma half_wrapped_step:
  assumes h: "half_wrapped new_kek (r # recs) m V" and ok: "kek_ok new_kek"
  shows "\<exists>d w. cached_or_unwrap m r = Inr d \<and> wrap_dek new_kek d = Inr w
      \<and> half_wrapped new_kek recs
          (m\<lparr>dm_store := update_wrapping S (dr_key_id r) w (kek_id new_kek) (provider_name new_kek) (dm_store m),
             by_kid := (by_kid m)(dr_key_id r \<mapsto> d)\<rparr>) V"
proof -
  have inv: "inv (dm_store m)" and g: "get_by_key_id S (dr_key_id r) (dm_store m) = Some r"
    using h unfolding half_wrapped_def by auto
  then obtain d where d: "V (dr_key_id r) = Some d" using h unfolding half_wrapped_def by fastforce
  have len: "length d = 32" using h d unfolding half_wrapped_def by blast
  have c: "cached_or_unwrap m r = Inr d"
    using h d len unfolding half_wrapped_def cached_or_unwrap_def
    by (auto split: option.splits list.splits)
  obtain w where w: "wrap_dek new_kek d = Inr w" "unwrap_dek new_kek w = Inr d"
    using ok len unfolding kek_ok_def by blast
  have "half_wrapped new_kek recs
          (m\<lparr>dm_store := update_wrapping S (dr_key_id r) w (kek_id new_kek) (provider_name new_kek) (dm_store m),
             by_kid := (by_kid m)(dr_key_id r \<mapsto> d)\<rparr>) V"
    using h d w(2) g unfolding half_wrapped_def
    by (auto simp: update_lookup [OF inv] image_iff)
  then show ?thesis using c w(1) by blast
qed

lemma rewrap_loop_half:
  assumes "half_wrapped new_kek recs m V" and "kek_ok new_kek"
  shows "\<exists>m'. rewrap_loop S new_kek recs n m = (Inr (n + length recs), m') \<and> half_wrapped new_kek [] m' V"
  using assms
proof (induction recs arbitrary: n m)
  case (Cons r recs)
  from half_wrapped_step [OF Cons.prems] obtain d w where
    "cached_or_unwrap m r = Inr d" "wrap_dek new_kek d = Inr w"
    and h: "half_wrapped new_kek recs
          (m\<lparr>dm_store := update_wrapping S (dr_key_id r) w (kek_id new_kek) (provider_name new_kek) (dm_store m),
             by_kid := (by_kid m)(dr_key_id r \<mapsto> d)\<rparr>) V" by blast
  with Cons.IH [OF h Cons.prems(2), of "Suc n"] show ?case by simp
qed simp

lemma rewrap_all_vault:
  assumes "vault m V" and "kek_ok new_kek"
  shows "\<exists>m'. rewrap_all S m new_kek = (Inr (length (all_records S (dm_store m))), m')
           \<and> vault m' V \<and> dm_kek m' = new_kek"
  using rewrap_loop_half [OF half_wrapped_start [OF assms(1)] assms(2), of 0]
    half_wrapped_done [OF _ assms(2)] by (fastforce simp: rewrap_all_def)

lemma vault_restart: "vault m V \<Longrightarrow> vault (DekManager (dm_kek m) (dm_store m)) V"
  unfolding vault_def by (simp add: DekManager_def)

lemma vault_other:
  assumes "vault m V" and "vault m' V'" and "V \<subseteq>\<^sub>m V'" and "dm_kek m' = dm_kek m"
  shows "vault (m\<lparr>dm_store := dm_store m'\<rparr>) V'"
proof -
  have "V k = Some d \<Longrightarrow> V' k = Some d" for k d using assms(3) unfolding map_le_def by (metis domI)
  then show ?thesis using assms unfolding vault_def by simp
qed

lemma dek_step_vault:
  assumes "dek_step S m m'" and "vault m V"
  shows "\<exists>V'. vault m' V' \<and> V \<subseteq>\<^sub>m V'"
  using assms
proof cases
  case (step_active d u t res)
  then show ?thesis using active_dek_keeps [OF assms(2)] by blast
next
  case (step_resolve k res)
  then show ?thesis using dek_for_key_id_keeps [OF assms(2)] map_le_refl by blast
next
  case (step_rotate d u t res)
  then show ?thesis using rotate_dek_keeps [OF assms(2)] by blast
next
  case (step_rewrap kek n)
  then show ?thesis using rewrap_all_vault [OF assms(2)] map_le_refl by fastforce
next
  case step_restart
  then show ?thesis using vault_restart [OF assms(2)] map_le_refl by blast
next
  case (step_other_active d u t res m'')
  then show ?thesis
    using active_dek_keeps [OF vault_restart [OF assms(2)]] vault_other [OF assms(2)]
    by (fastforce simp: DekManager_def)
next
  case (step_other_rotate d u t res m'')
  then show ?thesis
    using rotate_dek_keeps [OF vault_restart [OF assms(2)]] vault_other [OF assms(2)]
    by (fastforce simp: DekManager_def)
qed

lemma dek_steps_vault:
  assumes "(dek_step S)\<^sup>*\<^sup>* m m'" and "vault m V"
  shows "\<exists>V'. vault m' V' \<and> V \<subseteq>\<^sub>m V'"
  using assms
proof (induction rule: rtranclp_induct)
  case (step y z)
  then obtain V1 where "vault y V1" "V \<subseteq>\<^sub>m V1" by blast
  with dek_step_vault [OF step(2)] show ?case using map_le_trans by blast
qed (use map_le_refl in blast)

lemma vault_initial:
  "inv s \<Longrightarrow> kek_ok kek \<Longrightarrow> (\<And>k. get_by_key_id S k s = None) \<Longrightarrow> vault (DekManager kek s) Map.empty"
  unfolding vault_def by (simp add: DekManager_def)

text \<open>A key handed out for sealing resolves to the same bytes in every later state.\<close>

lemma issued_key_resolves:
  assumes "vault m V" and "length d = 32" and "length u = 16"
    and "active_dek S m t d u = (Inr (k, dek), m1)" and "(dek_step S)\<^sup>*\<^sup>* m1 m2"
  shows "\<exists>m3. dek_for_key_id S m2 k = (Inr dek, m3)"
proof -
  obtain V1 where V1: "vault m1 V1" "V1 k = Some dek" using active_dek_keeps [OF assms(1-4)] by blast
  obtain V2 where V2: "vault m2 V2" "V1 \<subseteq>\<^sub>m V2" using dek_steps_vault [OF assms(5) V1(1)] by blast
  then have "V2 k = Some dek" using V1(2) unfolding map_le_def by (metis domI)
  then show ?thesis using dek_for_key_id_vault [OF V2(1)] by blast
qed

end

section \<open>\<open>SqlDekStore\<close> implements the interface\<close>

lemma sql_find_key:
  assumes "distinct (map dr_key_id rows)"
  shows "find (\<lambda>r. dr_key_id r = k) rows = Some r \<longleftrightarrow> r \<in> set rows \<and> dr_key_id r = k"
  using assms by (induction rows) auto

lemma find_map_key:
  assumes "\<And>r. dr_key_id (f r) = dr_key_id r"
  shows "find (\<lambda>r. dr_key_id r = k) (map f rows) = map_option f (find (\<lambda>r. dr_key_id r = k) rows)"
  using assms by (induction rows) auto

lemma find_append: "find P (xs @ ys) = (case find P xs of None \<Rightarrow> find P ys | Some x \<Rightarrow> Some x)"
  by (induction xs) auto

lemma retire_simps [simp]:
  "dr_key_id (retire t r) = dr_key_id r" "dr_tenant_id (retire t r) = dr_tenant_id r"
  "dr_wrapped_dek (retire t r) = dr_wrapped_dek r"
  "dr_state (retire t r) = ''active'' \<longleftrightarrow> dr_state r = ''active'' \<and> dr_tenant_id r \<noteq> t"
  by (auto simp: retire_def)

lemma filter_retire:
  "map dr_tenant_id (filter (\<lambda>r. dr_state r = ''active'') (map (retire t) rows))
   = filter (\<lambda>u. u \<noteq> t) (map dr_tenant_id (filter (\<lambda>r. dr_state r = ''active'') rows))"
  by (induction rows) auto

lemma sql_inv_retire: "sql_inv rows \<Longrightarrow> sql_inv (map (retire t) rows)"
  unfolding sql_inv_def filter_retire by (simp add: comp_def)

lemma sql_insert_inv: "sql_inv rows \<Longrightarrow> sql_insert r rows = Inr rows' \<Longrightarrow> sql_inv rows'"
  unfolding sql_inv_def sql_insert_def by (force split: if_splits)

lemma sql_rewrap_key:
  "map dr_key_id (sql_update_wrapping k w kk p rows) = map dr_key_id rows"
  "map dr_tenant_id (filter (\<lambda>r. dr_state r = ''active'') (sql_update_wrapping k w kk p rows))
   = map dr_tenant_id (filter (\<lambda>r. dr_state r = ''active'') rows)"
  unfolding sql_update_wrapping_def by (induction rows) auto

lemma sql_insert_key:
  assumes "sql_insert r rows = Inr rows'"
  shows "find (\<lambda>r. dr_key_id r = k) rows' =
    (if k = dr_key_id r then Some r else find (\<lambda>r. dr_key_id r = k) rows)"
    and "rows' = rows @ [r]" and "find (\<lambda>x. dr_key_id x = dr_key_id r) rows = None"
proof -
  show fresh: "find (\<lambda>x. dr_key_id x = dr_key_id r) rows = None" and eq: "rows' = rows @ [r]"
    using assms by (auto simp: sql_insert_def find_None_iff split: if_splits)
  show "find (\<lambda>r. dr_key_id r = k) rows' =
    (if k = dr_key_id r then Some r else find (\<lambda>r. dr_key_id r = k) rows)"
    using fresh by (auto simp: eq find_append split: option.splits)
qed

interpretation sql: dek_store SqlDekStore sql_inv
proof
  fix s :: dek_table and k and r :: dek_record assume "sql_inv s" "get_by_key_id SqlDekStore k s = Some r"
  then show "dr_key_id r = k"
    by (auto simp: SqlDekStore_def sql_get_by_key_id_def sql_inv_def sql_find_key)
next
  fix s :: dek_table and t and r :: dek_record assume "sql_inv s" "get_active SqlDekStore t s = Some r"
  then show "get_by_key_id SqlDekStore (dr_key_id r) s = Some r \<and> dr_tenant_id r = t \<and> dr_state r = ''active''"
    by (auto simp: SqlDekStore_def sql_get_by_key_id_def sql_get_active_def sql_inv_def sql_find_key
        dest: find_SomeD)
next
  fix s :: dek_table and r :: dek_record
  assume "sql_inv s" "get_by_key_id SqlDekStore (dr_key_id r) s = None" "dr_state r = ''active''"
    "get_active SqlDekStore (dr_tenant_id r) s = None"
  then show "\<exists>s'. insert_dek SqlDekStore r s = Inr s'"
    by (auto simp: SqlDekStore_def sql_get_by_key_id_def sql_get_active_def sql_insert_def find_None_iff)
next
  fix s s' :: dek_table and r :: dek_record and k assume "sql_inv s" and i: "insert_dek SqlDekStore r s = Inr s'"
  then show "sql_inv s' \<and> get_by_key_id SqlDekStore (dr_key_id r) s = None
      \<and> get_by_key_id SqlDekStore k s' = (if k = dr_key_id r then Some r else get_by_key_id SqlDekStore k s)"
    using sql_insert_inv sql_insert_key [of r s s']
    by (simp add: SqlDekStore_def sql_get_by_key_id_def)
next
  fix s :: dek_table and t and r :: dek_record
  assume "sql_inv s" "get_by_key_id SqlDekStore (dr_key_id r) s = None" "dr_state r = ''active''"
    "dr_tenant_id r = t"
  then show "\<exists>s'. rotate_active SqlDekStore t r s = Inr s'"
    by (auto simp: SqlDekStore_def sql_get_by_key_id_def sql_rotate_def sql_insert_def find_None_iff)
next
  fix s s' :: dek_table and t and r :: dek_record and k
  assume inv: "sql_inv s" and i: "rotate_active SqlDekStore t r s = Inr s'"
  show "sql_inv s' \<and> get_by_key_id SqlDekStore (dr_key_id r) s = None
      \<and> get_by_key_id SqlDekStore k s' =
          (if k = dr_key_id r then Some r else map_option (retire t) (get_by_key_id SqlDekStore k s))"
    using sql_insert_inv [OF sql_inv_retire [OF inv]] sql_insert_key [of r "map (retire t) s" s'] i
    by (simp add: SqlDekStore_def sql_get_by_key_id_def sql_rotate_def find_map_key)
next
  fix s s' :: dek_table and t and r :: dek_record
  assume "rotate_active SqlDekStore t r s = Inr s'" "dr_tenant_id r = t" "dr_state r = ''active''"
  moreover have "find (\<lambda>r. dr_tenant_id r = t \<and> dr_state r = ''active'') (map (retire t) s) = None"
    by (auto simp: find_None_iff)
  ultimately show "get_active SqlDekStore t s' = Some r"
    using sql_insert_key(2) [of r "map (retire t) s" s']
    by (simp add: SqlDekStore_def sql_get_active_def sql_rotate_def find_append)
next
  fix s :: dek_table and k and r :: dek_record assume "sql_inv s"
  then show "get_by_key_id SqlDekStore k s = Some r \<longleftrightarrow> r \<in> set (all_records SqlDekStore s) \<and> dr_key_id r = k"
    by (simp add: SqlDekStore_def sql_get_by_key_id_def sql_all_records_def sql_inv_def sql_find_key)
next
  fix s :: dek_table assume "sql_inv s"
  then show "distinct (map dr_key_id (all_records SqlDekStore s))"
    by (simp add: SqlDekStore_def sql_all_records_def sql_inv_def)
next
  fix s :: dek_table and k w kk p k' assume "sql_inv s"
  then have "sql_inv (sql_update_wrapping k w kk p s)"
    unfolding sql_inv_def sql_rewrap_key .
  moreover have "find (\<lambda>r. dr_key_id r = k') (sql_update_wrapping k w kk p s) =
    (if k' = k then map_option (\<lambda>r. r\<lparr>dr_wrapped_dek := w, dr_kek_id := kk, dr_provider := p\<rparr>)
         (find (\<lambda>r. dr_key_id r = k') s) else find (\<lambda>r. dr_key_id r = k') s)"
    unfolding sql_update_wrapping_def by (induction s) auto
  ultimately show "sql_inv (update_wrapping SqlDekStore k w kk p s)
      \<and> get_by_key_id SqlDekStore k' (update_wrapping SqlDekStore k w kk p s) =
          (if k' = k then map_option (\<lambda>r. r\<lparr>dr_wrapped_dek := w, dr_kek_id := kk, dr_provider := p\<rparr>)
                            (get_by_key_id SqlDekStore k' s)
           else get_by_key_id SqlDekStore k' s)"
    by (simp add: SqlDekStore_def sql_get_by_key_id_def)
qed

text \<open>Re-wrapping changes the wrapping columns of every row and keeps the rows.\<close>

lemma SqlDekStore_ops:
  "update_wrapping SqlDekStore = sql_update_wrapping" "all_records SqlDekStore rows = rows"
  by (simp_all add: SqlDekStore_def sql_all_records_def)

lemma rewrap_loop_rows:
  assumes "rewrap_loop SqlDekStore new_kek recs n m = (Inr n', m')"
    and "\<forall>r\<in>set (dm_store m). dr_key_id r \<in> dr_key_id ` set recs
           \<or> dr_kek_id r = kek_id new_kek \<and> dr_provider r = provider_name new_kek"
  shows "map dr_key_id (dm_store m') = map dr_key_id (dm_store m)
    \<and> (\<forall>r\<in>set (dm_store m'). dr_kek_id r = kek_id new_kek \<and> dr_provider r = provider_name new_kek)"
  using assms
proof (induction recs arbitrary: n m)
  case (Cons rec recs)
  obtain d where d: "cached_or_unwrap m rec = Inr d"
    using Cons.prems(1) by (cases "cached_or_unwrap m rec") auto
  obtain w where w: "wrap_dek new_kek d = Inr w"
    using Cons.prems(1) d by (cases "wrap_dek new_kek d") auto
  have run: "rewrap_loop SqlDekStore new_kek recs (Suc n)
      (m\<lparr>dm_store := sql_update_wrapping (dr_key_id rec) w (kek_id new_kek) (provider_name new_kek) (dm_store m),
         by_kid := (by_kid m)(dr_key_id rec \<mapsto> d)\<rparr>) = (Inr n', m')"
    using Cons.prems(1) by (simp add: d w SqlDekStore_ops)
  let ?st = "sql_update_wrapping (dr_key_id rec) w (kek_id new_kek) (provider_name new_kek) (dm_store m)"
  have "\<forall>r\<in>set ?st. dr_key_id r \<in> dr_key_id ` set recs
      \<or> dr_kek_id r = kek_id new_kek \<and> dr_provider r = provider_name new_kek"
    using Cons.prems(2) unfolding sql_update_wrapping_def by auto
  with Cons.IH [OF run] show ?case by (simp add: sql_rewrap_key)
qed simp

lemma rewrap_all_rows:
  assumes "rewrap_all SqlDekStore m new_kek = (Inr n, m')"
  shows "map dr_key_id (dm_store m') = map dr_key_id (dm_store m)
    \<and> (\<forall>r\<in>set (dm_store m'). dr_kek_id r = kek_id new_kek \<and> dr_provider r = provider_name new_kek)"
proof -
  obtain m1 where "rewrap_loop SqlDekStore new_kek (dm_store m) 0 m = (Inr n, m1)" "m' = m1\<lparr>dm_kek := new_kek\<rparr>"
    using assms by (auto simp: rewrap_all_def SqlDekStore_ops split: prod.splits sum.splits)
  then show ?thesis using rewrap_loop_rows [of new_kek "dm_store m" 0 m n m1] by simp
qed

text \<open>A deployment starts with an empty table.\<close>

lemma sql_vault_initial: "kek_ok kek \<Longrightarrow> sql.vault (DekManager kek []) Map.empty"
  by (rule sql.vault_initial) (simp_all add: sql_inv_def SqlDekStore_def sql_get_by_key_id_def)

text \<open>The AES-KW provider meets the contract when unwrapping inverts wrapping (RFC 3394).\<close>

definition key_wrap_ok :: "key_wrap \<Rightarrow> bool" where
  "key_wrap_ok W \<longleftrightarrow> (\<forall>mk d. length mk = 32 \<longrightarrow> length d = 32 \<longrightarrow>
     (\<exists>w. aes_key_wrap W mk d = Inr w \<and> aes_key_unwrap W mk w = Inr d))"

lemma EnvKek_ok: "key_wrap_ok W \<Longrightarrow> EnvKek W mk kid = Inr P \<Longrightarrow> kek_ok P"
  unfolding key_wrap_ok_def kek_ok_def EnvKek_def by (auto split: if_splits)

text \<open>A wrapping that satisfies the contract, for concrete runs: prepend the key.\<close>

definition toy_wrap :: key_wrap where
  "toy_wrap = \<lparr>aes_key_wrap = (\<lambda>mk d. Inr (mk @ d)),
     aes_key_unwrap = (\<lambda>mk w. if take (length mk) w = mk then Inr (drop (length mk) w)
                              else Inl (LibraryError ''InvalidUnwrap''))\<rparr>"

definition toy_kek :: kek_provider where
  "toy_kek = \<lparr>provider_name = ''env'', kek_id = ''env'',
     wrap_dek = aes_key_wrap toy_wrap (replicate 32 7), unwrap_dek = aes_key_unwrap toy_wrap (replicate 32 7)\<rparr>"

lemma toy_wrap_ok: "key_wrap_ok toy_wrap"
  unfolding key_wrap_ok_def toy_wrap_def by simp

lemma toy_kek_ok: "kek_ok toy_kek"
  by (rule EnvKek_ok [OF toy_wrap_ok, of "replicate 32 7" "''env''"]) (simp add: EnvKek_def toy_kek_def)

section \<open>Properties\<close>

text \<open>
  C5. Key durability. Take any run of the key management from an empty table under a usable KEK:
  mints, rotations (colliding uuids included), re-wraps under new usable KEKs, restarts and the
  writes of other processes. A key id and DEK that \<open>active_dek\<close> hands out for sealing resolve to the
  same DEK by \<open>dek_for_key_id\<close> after every continuation of that run.
\<close>

theorem issued_dek_survives:
  assumes "kek_ok kek" and "(dek_step SqlDekStore)\<^sup>*\<^sup>* (DekManager kek []) m"
    and "length d = 32" and "length u = 16"
    and "active_dek SqlDekStore m t d u = (Inr (k, dek), m1)" and "(dek_step SqlDekStore)\<^sup>*\<^sup>* m1 m2"
  shows "\<exists>m3. dek_for_key_id SqlDekStore m2 k = (Inr dek, m3)"
proof -
  obtain V where "sql.vault m V"
    using sql.dek_steps_vault [OF assms(2) sql_vault_initial [OF assms(1)]] by blast
  then show ?thesis using sql.issued_key_resolves assms(3-6) by blast
qed

theorem issued_dek_survives_witness:
  "\<exists>m1 m2 m3. active_dek SqlDekStore (DekManager toy_kek []) ''t'' (replicate 32 1) (replicate 16 2)
        = (Inr (replicate 16 2, replicate 32 1), m1)
     \<and> rotate_dek SqlDekStore m1 ''t'' (replicate 32 3) (replicate 16 4) = (Inr (replicate 16 4), m2)
     \<and> dek_for_key_id SqlDekStore (DekManager (dm_kek m2) (dm_store m2)) (replicate 16 2)
        = (Inr (replicate 32 1), m3)"
proof -
  obtain m1 where m1: "active_dek SqlDekStore (DekManager toy_kek []) ''t'' (replicate 32 1) (replicate 16 2)
        = (Inr (replicate 16 2, replicate 32 1), m1)"
    by (simp add: active_dek_def DekManager_def SqlDekStore_def sql_get_active_def sql_insert_def
        toy_kek_def toy_wrap_def)
  obtain m2 where m2: "rotate_dek SqlDekStore m1 ''t'' (replicate 32 3) (replicate 16 4)
        = (Inr (replicate 16 4), m2)"
    using m1 by (auto simp: active_dek_def DekManager_def SqlDekStore_def sql_get_active_def sql_insert_def
        toy_kek_def toy_wrap_def rotate_dek_def sql_rotate_def)
  have "(dek_step SqlDekStore)\<^sup>*\<^sup>* m1 (DekManager (dm_kek m2) (dm_store m2))"
    using dek_step.step_rotate [OF _ _ m2] dek_step.step_restart [of SqlDekStore m2]
    by (meson converse_rtranclp_into_rtranclp length_replicate r_into_rtranclp)
  from issued_dek_survives [OF toy_kek_ok rtranclp.rtrancl_refl _ _ m1 this]
  show ?thesis using m1 m2 by auto
qed

lemma distinct_map_filter_one:
  assumes "distinct (map f (filter P xs))"
  shows "length (filter (\<lambda>x. f x = a \<and> P x) xs) \<le> 1"
proof -
  have "map f (filter (\<lambda>x. f x = a \<and> P x) xs) = filter (\<lambda>y. y = a) (map f (filter P xs))"
    by (induction xs) auto
  then have "distinct (map f (filter (\<lambda>x. f x = a \<and> P x) xs))"
    using distinct_filter [OF assms] by simp
  moreover have "set (map f (filter (\<lambda>x. f x = a \<and> P x) xs)) \<subseteq> {a}" by auto
  ultimately have "card (set (map f (filter (\<lambda>x. f x = a \<and> P x) xs))) \<le> 1
      \<and> length (map f (filter (\<lambda>x. f x = a \<and> P x) xs)) = card (set (map f (filter (\<lambda>x. f x = a \<and> P x) xs)))"
    using card_mono [of "{a}"] distinct_card by fastforce
  then show ?thesis by simp
qed

definition active_rows :: "string \<Rightarrow> dek_table \<Rightarrow> dek_table" where
  "active_rows t rows = filter (\<lambda>r. dr_tenant_id r = t \<and> dr_state r = ''active'') rows"

lemma active_rows_unique: "sql_inv rows \<Longrightarrow> length (active_rows t rows) \<le> 1"
  unfolding active_rows_def sql_inv_def
  using distinct_map_filter_one [of dr_tenant_id "\<lambda>r. dr_state r = ''active''"] by blast

text \<open>What each write of the table does to the active rows.\<close>

lemma active_rows_get: "sql_get_active t rows = None \<longleftrightarrow> active_rows t rows = []"
  by (auto simp: sql_get_active_def active_rows_def find_None_iff filter_empty_conv)

lemma active_rows_insert:
  assumes "sql_insert r rows = Inr rows'" and "dr_state r = ''active''"
  shows "active_rows t rows' = active_rows t rows @ (if dr_tenant_id r = t then [r] else [])"
    and "active_rows (dr_tenant_id r) rows = []"
  using assms by (auto simp: sql_insert_def active_rows_def filter_empty_conv split: if_splits)

lemma active_rows_retire: "active_rows t' (map (retire t) rows) = (if t' = t then [] else active_rows t' rows)"
  by (induction rows) (auto simp: active_rows_def retire_def)

lemma active_rows_rotate:
  assumes "sql_rotate t r rows = Inr rows'" and "dr_state r = ''active''" and "dr_tenant_id r = t"
  shows "active_rows t' rows' = (if t' = t then [r] else active_rows t' rows)"
  using active_rows_insert(1) [OF assms(1) [unfolded sql_rotate_def] assms(2), of t'] assms(3)
  by (simp add: active_rows_retire)

lemma active_rows_update: "active_rows t (sql_update_wrapping k w kk p rows) = [] \<longleftrightarrow> active_rows t rows = []"
  by (induction rows) (auto simp: active_rows_def sql_update_wrapping_def)

lemma active_rows_rewrap:
  "rewrap_loop SqlDekStore kek recs n m = (Inr n', m') \<Longrightarrow>
     active_kid m' = active_kid m \<and> (active_rows t (dm_store m') = [] \<longleftrightarrow> active_rows t (dm_store m) = [])"
  by (induction recs arbitrary: n m)
    (auto simp: SqlDekStore_ops active_rows_update split: sum.splits)

text \<open>A tenant with a cached active key id has an active row, which may by now be a newer one.\<close>

definition warm :: "dek_table dek_manager \<Rightarrow> bool" where
  "warm m \<longleftrightarrow> (\<forall>t. active_kid m t \<noteq> None \<longrightarrow> active_rows t (dm_store m) \<noteq> [])"

lemma active_dek_warm:
  assumes "active_dek SqlDekStore m t d u = (res, m')" and "warm m"
  shows "warm m' \<and> (\<forall>t'. active_rows t' (dm_store m) \<noteq> [] \<longrightarrow> active_rows t' (dm_store m') \<noteq> [])"
  using assms active_rows_get [of t "dm_store m"]
  by (auto simp: active_dek_def SqlDekStore_def warm_def active_rows_insert Let_def
      split: option.splits sum.splits if_splits)

lemma rotate_dek_warm:
  assumes "rotate_dek SqlDekStore m t d u = (res, m')" and "warm m"
  shows "warm m' \<and> (\<forall>t'. active_rows t' (dm_store m) \<noteq> [] \<longrightarrow> active_rows t' (dm_store m') \<noteq> [])"
  using assms
  by (auto simp: rotate_dek_def SqlDekStore_def warm_def active_rows_rotate Let_def
      split: sum.splits if_splits)

lemma rewrap_all_warm: "rewrap_all SqlDekStore m kek = (Inr n, m') \<Longrightarrow> warm m \<Longrightarrow> warm m'"
  using active_rows_rewrap
  by (fastforce simp: rewrap_all_def warm_def split: prod.splits sum.splits)

lemma warm_cold [simp]: "warm (DekManager kek rows)"
  by (simp add: warm_def DekManager_def)

lemma warm_other:
  assumes "warm m" and "\<forall>t. active_rows t (dm_store m) \<noteq> [] \<longrightarrow> active_rows t rows \<noteq> []"
  shows "warm (m\<lparr>dm_store := rows\<rparr>)"
  using assms by (simp add: warm_def)

lemma dek_for_key_id_fields:
  "dek_for_key_id S m k = (res, m') \<Longrightarrow> active_kid m' = active_kid m \<and> dm_store m' = dm_store m"
  by (auto simp: dek_for_key_id_def split: option.splits sum.splits)

lemma dek_step_warm: "dek_step SqlDekStore m m' \<Longrightarrow> warm m \<Longrightarrow> warm m'"
proof (induction rule: dek_step.induct)
  case (step_resolve m k res' m')
  then show ?case using dek_for_key_id_fields by (fastforce simp: warm_def)
next
  case (step_other_active d u m t res m')
  from active_dek_warm [OF step_other_active(3)] have "\<forall>t. active_rows t (dm_store m) \<noteq> [] \<longrightarrow> active_rows t (dm_store m') \<noteq> []"
    by (simp add: DekManager_def warm_def)
  then show ?case by (rule warm_other [OF step_other_active(4)])
next
  case (step_other_rotate d u m t res' m')
  from rotate_dek_warm [OF step_other_rotate(3)] have "\<forall>t. active_rows t (dm_store m) \<noteq> [] \<longrightarrow> active_rows t (dm_store m') \<noteq> []"
    by (simp add: DekManager_def warm_def)
  then show ?case by (rule warm_other [OF step_other_rotate(4)])
qed (auto dest: active_dek_warm rotate_dek_warm rewrap_all_warm)

lemma dek_steps_warm: "(dek_step SqlDekStore)\<^sup>*\<^sup>* m m' \<Longrightarrow> warm m \<Longrightarrow> warm m'"
  by (induction rule: rtranclp_induct) (auto intro: dek_step_warm)

text \<open>On a fresh key id both minting operations succeed and leave one active row of the tenant.\<close>

lemma active_dek_one_row:
  assumes "sql.vault m V" and "warm m" and "length d = 32" and "length u = 16" and "V u = None"
  shows "\<exists>k dek m'. active_dek SqlDekStore m t d u = (Inr (k, dek), m')
    \<and> length (active_rows t (dm_store m')) = 1
    \<and> (active_rows t (dm_store m) \<noteq> [] \<longrightarrow> dm_store m' = dm_store m)
    \<and> (active_kid m t = None \<longrightarrow> map dr_key_id (active_rows t (dm_store m')) = [k])"
proof -
  obtain k dek m' V' where a: "active_dek SqlDekStore m t d u = (Inr (k, dek), m')"
    and v: "sql.vault m' V'" "active_kid m' t = Some k"
    using sql.active_dek_vault [OF assms(1,3-5), of t] by blast
  have "active_rows t (dm_store m') \<noteq> []" using active_dek_warm [OF a assms(2)] v(2) by (simp add: warm_def)
  then have one: "length (active_rows t (dm_store m')) = 1"
    using active_rows_unique [OF sql.vaultD(1) [OF v(1)], of t] by (cases "active_rows t (dm_store m')") auto
  have same: "dm_store m' = dm_store m" if "active_rows t (dm_store m) \<noteq> []"
    using a that active_rows_get [of t "dm_store m"]
    by (auto simp: active_dek_def SqlDekStore_def split: option.splits sum.splits)
  have "k \<in> set (map dr_key_id (active_rows t (dm_store m')))" if "active_kid m t = None"
  proof (cases "sql_get_active t (dm_store m)")
    case None
    with a that show ?thesis
      by (auto simp: active_dek_def SqlDekStore_def sql_insert_def active_rows_def Let_def
          image_iff split: sum.splits if_splits)
  next
    case (Some r)
    have "r \<in> set (active_rows t (dm_store m))"
      using find_SomeD [OF Some [unfolded sql_get_active_def]] by (simp add: active_rows_def)
    with Some a that show ?thesis by (auto simp: active_dek_def SqlDekStore_def split: sum.splits)
  qed
  with a one same show ?thesis by (auto simp: length_Suc_conv)
qed

lemma rotate_dek_one_row:
  assumes "sql.vault m V" and "length d = 32" and "length u = 16" and "V u = None"
  shows "\<exists>m'. rotate_dek SqlDekStore m t d u = (Inr u, m')
    \<and> map dr_key_id (dm_store m') = map dr_key_id (dm_store m) @ [u]
    \<and> map dr_key_id (active_rows t (dm_store m')) = [u]
    \<and> (\<forall>t'. t' \<noteq> t \<longrightarrow> active_rows t' (dm_store m') = active_rows t' (dm_store m))"
proof -
  obtain m' where m': "rotate_dek SqlDekStore m t d u = (Inr u, m')"
    using sql.rotate_dek_vault [OF assms, of t] by blast
  then obtain r where r: "sql_rotate t r (dm_store m) = Inr (dm_store m')" "dr_state r = ''active''"
      "dr_tenant_id r = t" "dr_key_id r = u"
    by (fastforce simp: rotate_dek_def SqlDekStore_def Let_def split: sum.splits)
  have "dm_store m' = map (retire t) (dm_store m) @ [r]"
    using sql_insert_key(2) [OF r(1) [unfolded sql_rotate_def]] .
  with m' r(4) show ?thesis using active_rows_rotate [OF r(1-3)] by (simp add: comp_def)
qed

text \<open>
  C22. One active DEK per tenant, always obtainable. In every state the key management can reach from
  an empty table, no tenant has two rows in state \<open>active\<close> and no key id occurs twice, and the two
  unique indexes never stop a mint: on a fresh uuid \<open>active_dek\<close> does not raise, leaves exactly one
  active row of the tenant, writes nothing when there was one, and a process without a cached key
  returns the key id of that row; \<open>rotate_dek\<close> does not raise, appends the new key id, makes its row
  the only active one of the tenant and leaves the active rows of the other tenants alone.
\<close>

theorem one_active_dek:
  assumes "kek_ok kek" and "(dek_step SqlDekStore)\<^sup>*\<^sup>* (DekManager kek []) m"
    and "length d = 32" and "length u = 16" and "\<forall>r\<in>set (dm_store m). dr_key_id r \<noteq> u"
  shows "(\<forall>t. length (active_rows t (dm_store m)) \<le> 1) \<and> distinct (map dr_key_id (dm_store m))
    \<and> (\<exists>k dek m'. active_dek SqlDekStore m t d u = (Inr (k, dek), m')
         \<and> length (active_rows t (dm_store m')) = 1
         \<and> (active_rows t (dm_store m) \<noteq> [] \<longrightarrow> dm_store m' = dm_store m)
         \<and> (active_kid m t = None \<longrightarrow> map dr_key_id (active_rows t (dm_store m')) = [k]))
    \<and> (\<exists>m'. rotate_dek SqlDekStore m t d u = (Inr u, m')
         \<and> map dr_key_id (dm_store m') = map dr_key_id (dm_store m) @ [u]
         \<and> map dr_key_id (active_rows t (dm_store m')) = [u]
         \<and> (\<forall>t'. t' \<noteq> t \<longrightarrow> active_rows t' (dm_store m') = active_rows t' (dm_store m)))"
proof -
  obtain V where V: "sql.vault m V"
    using sql.dek_steps_vault [OF assms(2) sql_vault_initial [OF assms(1)]] by blast
  have none: "V u = None"
    using assms(5) sql.vaultD(3) [OF V] by (auto simp: SqlDekStore_def sql_get_by_key_id_def find_None_iff)
  have inv: "sql_inv (dm_store m)" by (rule sql.vaultD [OF V])
  have w: "warm m" by (rule dek_steps_warm [OF assms(2) warm_cold])
  have keys: "distinct (map dr_key_id (dm_store m))" using inv by (simp add: sql_inv_def)
  show ?thesis
    by (intro conjI allI active_rows_unique [OF inv] keys active_dek_one_row [OF V w assms(3,4) none]
        rotate_dek_one_row [OF V assms(3,4) none])
qed

theorem one_active_dek_witness:
  "\<exists>m1 m2. active_dek SqlDekStore (DekManager toy_kek []) ''t'' (replicate 32 1) (replicate 16 2)
        = (Inr (replicate 16 2, replicate 32 1), m1)
     \<and> rotate_dek SqlDekStore m1 ''t'' (replicate 32 3) (replicate 16 4) = (Inr (replicate 16 4), m2)
     \<and> map dr_key_id (dm_store m2) = [replicate 16 2, replicate 16 4]
     \<and> map dr_key_id (active_rows ''t'' (dm_store m2)) = [replicate 16 4]"
proof -
  obtain m1 where m1: "active_dek SqlDekStore (DekManager toy_kek []) ''t'' (replicate 32 1) (replicate 16 2)
        = (Inr (replicate 16 2, replicate 32 1), m1)" "map dr_key_id (dm_store m1) = [replicate 16 2]"
    by (simp add: active_dek_def DekManager_def SqlDekStore_def sql_get_active_def sql_insert_def
        toy_kek_def toy_wrap_def)
  have "(dek_step SqlDekStore)\<^sup>*\<^sup>* (DekManager toy_kek []) m1"
    using dek_step.step_active [OF _ _ m1(1)] by (meson length_replicate r_into_rtranclp)
  moreover have "\<forall>r\<in>set (dm_store m1). dr_key_id r \<noteq> replicate 16 4"
  proof
    fix r assume "r \<in> set (dm_store m1)"
    then have "dr_key_id r \<in> set (map dr_key_id (dm_store m1))" by simp
    then show "dr_key_id r \<noteq> replicate 16 4" by (simp add: m1(2))
  qed
  ultimately show ?thesis
    using one_active_dek [OF toy_kek_ok, of m1 "replicate 32 3" "replicate 16 4" "''t''"] m1 by force
qed

text \<open>
  C23. Rotation. On a reachable manager and a fresh uuid, \<open>rotate_dek\<close> never raises and returns that
  uuid; a process started afterwards seals under exactly the new key id and DEK, whatever random
  bytes it draws, and every key id that resolved before still resolves to the same DEK.
\<close>

theorem rotate_dek_takes_over:
  assumes "kek_ok kek" and "(dek_step SqlDekStore)\<^sup>*\<^sup>* (DekManager kek []) m"
    and "length d = 32" and "length u = 16" and "\<forall>r\<in>set (dm_store m). dr_key_id r \<noteq> u"
  shows "\<exists>m'. rotate_dek SqlDekStore m t d u = (Inr u, m')
    \<and> (\<forall>d2 u2. fst (active_dek SqlDekStore (DekManager (dm_kek m') (dm_store m')) t d2 u2) = Inr (u, d))
    \<and> (\<forall>k old. fst (dek_for_key_id SqlDekStore m k) = Inr old \<longrightarrow>
         fst (dek_for_key_id SqlDekStore (DekManager (dm_kek m') (dm_store m')) k) = Inr old)"
proof -
  obtain V where V: "sql.vault m V"
    using sql.dek_steps_vault [OF assms(2) sql_vault_initial [OF assms(1)]] by blast
  have none: "V u = None"
    using assms(5) sql.vaultD(3) [OF V] by (auto simp: SqlDekStore_def sql_get_by_key_id_def find_None_iff)
  from sql.rotate_dek_vault [OF V assms(3,4) none, of t]
  obtain m' where m': "rotate_dek SqlDekStore m t d u = (Inr u, m')" "sql.vault m' (V(u \<mapsto> d))" by blast
  obtain w where w: "wrap_dek (dm_kek m) d = Inr w" "unwrap_dek (dm_kek m) w = Inr d"
    by (rule sql.kek_okE [OF V assms(3)])
  let ?r = "\<lparr>dr_tenant_id = t, dr_key_id = u, dr_wrapped_dek = w, dr_kek_id = kek_id (dm_kek m),
             dr_provider = provider_name (dm_kek m), dr_state = ''active''\<rparr>"
  have rot: "rotate_active SqlDekStore t ?r (dm_store m) = Inr (dm_store m')" and kek: "dm_kek m' = dm_kek m"
    using m'(1) w(1) by (auto simp: rotate_dek_def split: sum.splits)
  have "get_active SqlDekStore t (dm_store m') = Some ?r"
    using sql.rotate_makes_active [OF sql.vaultD(1) [OF V] rot] by simp
  then have "fst (active_dek SqlDekStore (DekManager (dm_kek m') (dm_store m')) t d2 u2) = Inr (u, d)" for d2 u2
    using w(2) kek by (simp add: active_dek_def DekManager_def)
  moreover have "fst (dek_for_key_id SqlDekStore (DekManager (dm_kek m') (dm_store m')) k) = Inr old"
    if "fst (dek_for_key_id SqlDekStore m k) = Inr old" for k old
  proof -
    have "V k = Some old" using sql.dek_for_key_id_inv [OF V that] .
    then have "(V(u \<mapsto> d)) k = Some old" using none by auto
    from sql.dek_for_key_id_vault [OF sql.vault_restart [OF m'(2)] this] show ?thesis by auto
  qed
  ultimately show ?thesis using m'(1) by blast
qed

theorem rotate_dek_takes_over_witness:
  "\<exists>m'. rotate_dek SqlDekStore (DekManager toy_kek []) ''t'' (replicate 32 3) (replicate 16 4)
      = (Inr (replicate 16 4), m')
    \<and> fst (active_dek SqlDekStore (DekManager (dm_kek m') (dm_store m')) ''t'' [] []) = Inr (replicate 16 4, replicate 32 3)"
  using rotate_dek_takes_over [OF toy_kek_ok rtranclp.rtrancl_refl, of "replicate 32 3" "replicate 16 4" "''t''"]
  by (fastforce simp: DekManager_def)

text \<open>
  C24. Master key change. Re-wrapping under a usable new KEK never raises on a reachable manager and
  reports the number of rows; afterwards every row names the new KEK and unwraps under it, to the
  DEK its key id resolved to before, so a process started with the new KEK alone reads every blob.
\<close>

theorem rewrap_all_adopts:
  assumes "kek_ok kek" and "(dek_step SqlDekStore)\<^sup>*\<^sup>* (DekManager kek []) m" and "kek_ok new_kek"
  shows "\<exists>m'. rewrap_all SqlDekStore m new_kek = (Inr (length (dm_store m)), m') \<and> dm_kek m' = new_kek
    \<and> map dr_key_id (dm_store m') = map dr_key_id (dm_store m)
    \<and> (\<forall>r\<in>set (dm_store m'). dr_kek_id r = kek_id new_kek \<and> dr_provider r = provider_name new_kek)
    \<and> (\<forall>k. fst (dek_for_key_id SqlDekStore (DekManager new_kek (dm_store m')) k)
           = fst (dek_for_key_id SqlDekStore m k))"
proof -
  obtain V where V: "sql.vault m V"
    using sql.dek_steps_vault [OF assms(2) sql_vault_initial [OF assms(1)]] by blast
  obtain m' where m': "rewrap_all SqlDekStore m new_kek = (Inr (length (dm_store m)), m')"
      "sql.vault m' V" "dm_kek m' = new_kek"
    using sql.rewrap_all_vault [OF V assms(3)] by (auto simp: SqlDekStore_def sql_all_records_def)
  have res: "fst (dek_for_key_id SqlDekStore (DekManager new_kek (dm_store m')) k)
       = fst (dek_for_key_id SqlDekStore m k)" for k
    using sql.dek_for_key_id_spec [OF V, of k] sql.dek_for_key_id_spec [OF sql.vault_restart [OF m'(2)], of k]
      m'(3) by simp
  from rewrap_all_rows [OF m'(1)] show ?thesis using m' res by blast
qed

theorem rewrap_all_adopts_witness:
  "\<exists>m1 m2. active_dek SqlDekStore (DekManager toy_kek []) ''t'' (replicate 32 1) (replicate 16 2)
        = (Inr (replicate 16 2, replicate 32 1), m1)
     \<and> rewrap_all SqlDekStore m1 (toy_kek\<lparr>kek_id := ''new''\<rparr>) = (Inr 1, m2)
     \<and> map dr_kek_id (dm_store m2) = [''new'']"
proof -
  obtain m1 where m1: "active_dek SqlDekStore (DekManager toy_kek []) ''t'' (replicate 32 1) (replicate 16 2)
        = (Inr (replicate 16 2, replicate 32 1), m1)" "length (dm_store m1) = 1"
    by (simp add: active_dek_def DekManager_def SqlDekStore_def sql_get_active_def sql_insert_def
        toy_kek_def toy_wrap_def)
  have ok: "kek_ok (toy_kek\<lparr>kek_id := ''new''\<rparr>)" using toy_kek_ok by (simp add: kek_ok_def)
  have "(dek_step SqlDekStore)\<^sup>*\<^sup>* (DekManager toy_kek []) m1"
    using dek_step.step_active [OF _ _ m1(1)] by (meson length_replicate r_into_rtranclp)
  from rewrap_all_adopts [OF toy_kek_ok this ok] obtain m2 where
    m2: "rewrap_all SqlDekStore m1 (toy_kek\<lparr>kek_id := ''new''\<rparr>) = (Inr 1, m2)"
      "map dr_key_id (dm_store m2) = map dr_key_id (dm_store m1)"
      "\<forall>r\<in>set (dm_store m2). dr_kek_id r = ''new''"
    using m1(2) by auto
  have "length (dm_store m2) = 1" using m2(2) m1(2) by (metis length_map)
  then have "map dr_kek_id (dm_store m2) = [''new'']" using m2(3) by (auto simp: length_Suc_conv)
  with m1(1) m2(1) show ?thesis by (intro exI conjI)
qed

end
