(* ===== verification/Crypto_Runtime.thy ===== *)
theory Crypto_Runtime
  imports Dek_Manager
begin

text \<open>
  The process-global encryption hook of \<open>shared/crypto/runtime.py\<close>: the installed manager and its two
  flags, sealing on write, opening on read, and the streaming forms. The end-to-end property is that
  what the write path stores the read path returns, after any later key management.

  The three module globals are the record \<open>crypto_runtime\<close>. The metrics call in \<open>configure\<close> is left
  out: it runs inside a catch-all and changes no state. An incoming byte stream is the list of the
  pieces it yields.
\<close>

section \<open>State and configuration\<close>

record 's crypto_runtime =
  rt_dek_manager :: "'s dek_manager option"
  rt_write_enabled :: bool
  rt_verify_readback :: bool

definition configure :: "'s dek_manager option \<Rightarrow> bool \<Rightarrow> bool \<Rightarrow> 's crypto_runtime" where
  "configure dek_manager write_enabled verify =
     \<lparr>rt_dek_manager = dek_manager, rt_write_enabled = write_enabled, rt_verify_readback = verify\<rparr>"

definition is_write_enabled :: "'s crypto_runtime \<Rightarrow> bool" where
  "is_write_enabled rt \<longleftrightarrow> rt_write_enabled rt \<and> rt_dek_manager rt \<noteq> None"

definition verify_readback_enabled :: "'s crypto_runtime \<Rightarrow> bool" where
  "verify_readback_enabled rt = rt_verify_readback rt"

text \<open>What one write draws from the operating system: DEK, uuid, HKDF salt and nonce prefix.\<close>

record randoms =
  rnd_dek :: bytes
  rnd_uuid :: bytes
  rnd_salt :: bytes
  rnd_prefix :: bytes

definition randoms_ok :: "randoms \<Rightarrow> bool" where
  "randoms_ok R \<longleftrightarrow> length (rnd_dek R) = 32 \<and> length (rnd_uuid R) = 16
     \<and> length (rnd_salt R) = 16 \<and> length (rnd_prefix R) = 8"

section \<open>Single-shot paths\<close>

text \<open>\<open>active_dek\<close> of the installed manager, with the manager's new state stored back.\<close>

definition rt_active_dek ::
    "'s dek_store_ops \<Rightarrow> randoms \<Rightarrow> string \<Rightarrow> 's crypto_runtime
       \<Rightarrow> (bytes \<times> bytes) result \<times> 's crypto_runtime" where
  "rt_active_dek S R tenant rt =
     (case rt_dek_manager rt of
        None \<Rightarrow> (Inl (LibraryError ''AttributeError''), rt)
      | Some m \<Rightarrow> (case active_dek S m tenant (rnd_dek R) (rnd_uuid R) of
                     (res, m') \<Rightarrow> (res, rt\<lparr>rt_dek_manager := Some m'\<rparr>)))"

definition maybe_encrypt ::
    "aesgcm \<Rightarrow> hkdf \<Rightarrow> 's dek_store_ops \<Rightarrow> randoms \<Rightarrow> bytes \<Rightarrow> string option \<Rightarrow> 's crypto_runtime
       \<Rightarrow> (bytes \<times> bool) result \<times> 's crypto_runtime" where
  "maybe_encrypt A K S R content tenant_id rt =
     (if \<not> is_write_enabled rt then (Inr (content, False), rt)
      else (case tenant_id of
          None \<Rightarrow> (Inr (content, False), rt)
        | Some tenant \<Rightarrow>
            (case rt_active_dek S R tenant rt of
               (Inl e, rt') \<Rightarrow> (Inl e, rt')
             | (Inr (key_id, dek), rt') \<Rightarrow>
                 (bindE (seal A K (rnd_salt R) (rnd_prefix R) content dek key_id) (\<lambda>data. Inr (data, True)),
                  rt'))))"

definition maybe_decrypt ::
    "aesgcm \<Rightarrow> hkdf \<Rightarrow> 's dek_store_ops \<Rightarrow> bytes option \<Rightarrow> 's crypto_runtime
       \<Rightarrow> bytes option result \<times> 's crypto_runtime" where
  "maybe_decrypt A K S data rt =
     (case data of
        None \<Rightarrow> (Inr None, rt)
      | Some d \<Rightarrow>
          if \<not> is_encrypted d then (Inr (Some d), rt)
          else (case rt_dek_manager rt of
              None \<Rightarrow> (Inl (BlobCipherError ''encrypted blob but no DEK manager configured''), rt)
            | Some m \<Rightarrow>
                (case read_key_id d of
                   Inl e \<Rightarrow> (Inl e, rt)
                 | Inr kid \<Rightarrow>
                     (case dek_for_key_id S m kid of
                        (Inl e, m') \<Rightarrow> (Inl e, rt\<lparr>rt_dek_manager := Some m'\<rparr>)
                      | (Inr dek, m') \<Rightarrow>
                          (bindE (open_blob A K d (Some dek)) (\<lambda>p. Inr (Some p)),
                           rt\<lparr>rt_dek_manager := Some m'\<rparr>)))))"

section \<open>Streaming paths\<close>

text \<open>
  The inner loop of \<open>_rechunk\<close>. With a chunk size of zero it yields empty chunks for ever, which
  is \<open>None\<close>.
\<close>

partial_function (option) rechunk_drain :: "nat \<Rightarrow> bytes \<Rightarrow> (bytes list \<times> bytes) option" where
  "rechunk_drain cs buf =
     (if cs \<le> length buf
      then Option.bind (rechunk_drain cs (drop cs buf)) (\<lambda>(out, rest). Some (take cs buf # out, rest))
      else Some ([], buf))"

fun rechunk_pieces :: "nat \<Rightarrow> bytes \<Rightarrow> bytes list \<Rightarrow> (bytes list \<times> bytes) option" where
  "rechunk_pieces cs buf [] = Some ([], buf)"
| "rechunk_pieces cs buf (piece # src) =
     (case rechunk_drain cs (buf @ piece) of
        None \<Rightarrow> None
      | Some (out, rest) \<Rightarrow>
          (case rechunk_pieces cs rest src of
             None \<Rightarrow> None
           | Some (out', rest') \<Rightarrow> Some (out @ out', rest')))"

text \<open>An exception of the source passes through after the full chunks; the buffer is dropped.\<close>

definition rechunk :: "gen \<Rightarrow> nat \<Rightarrow> gen option" where
  "rechunk src chunk_size =
     (case src of
        (pieces, err) \<Rightarrow>
          (case rechunk_pieces chunk_size [] pieces of
             None \<Rightarrow> None
           | Some (out, buf) \<Rightarrow>
               Some (case err of
                       Some e \<Rightarrow> (out, Some e)
                     | None \<Rightarrow> (out @ (if buf \<noteq> [] then [buf] else []), None))))"

definition maybe_encrypt_stream ::
    "aesgcm \<Rightarrow> hkdf \<Rightarrow> 's dek_store_ops \<Rightarrow> randoms \<Rightarrow> bytes list \<Rightarrow> string option \<Rightarrow> int \<Rightarrow> 's crypto_runtime
       \<Rightarrow> (gen \<times> bool) result \<times> 's crypto_runtime" where
  "maybe_encrypt_stream A K S R plaintext tenant_id chunk_size rt =
     (if \<not> is_write_enabled rt then (Inr ((plaintext, None), False), rt)
      else (case tenant_id of
          None \<Rightarrow> (Inr ((plaintext, None), False), rt)
        | Some tenant \<Rightarrow>
            (case rt_active_dek S R tenant rt of
               (Inl e, rt') \<Rightarrow> (Inl e, rt')
             | (Inr (key_id, dek), rt') \<Rightarrow>
                 (Inr (env_encrypt_stream A K (rnd_salt R) (rnd_prefix R) plaintext dek key_id chunk_size, True),
                  rt'))))"

text \<open>
  The header is buffered with \<open>fill\<close>, then the buffered bytes and the rest are streamed again.
\<close>

definition rt_decrypt_stream ::
    "aesgcm \<Rightarrow> hkdf \<Rightarrow> 's dek_store_ops \<Rightarrow> bytes list \<Rightarrow> nat \<Rightarrow> 's crypto_runtime
       \<Rightarrow> gen option \<times> 's crypto_runtime" where
  "rt_decrypt_stream A K S raw chunk_size rt =
     (case fill ENV_HEADER_LEN [] raw of
        (_, head, ait) \<Rightarrow>
          let restream = (if head \<noteq> [] then [head] else []) @ ait
          in if \<not> is_encrypted head then (rechunk (restream, None) chunk_size, rt)
             else (case rt_dek_manager rt of
                 None \<Rightarrow> (Some ([], Some (BlobCipherError ''encrypted blob but no DEK manager configured'')), rt)
               | Some m \<Rightarrow>
                   (case env_decrypt_stream A K restream (\<lambda>kid m. dek_for_key_id S m kid) m of
                      (plaintext, m') \<Rightarrow> (rechunk plaintext chunk_size, rt\<lparr>rt_dek_manager := Some m'\<rparr>))))"

section \<open>Rechunking\<close>

lemma rechunk_drain_total:
  assumes "0 < cs"
  shows "\<exists>out rest. rechunk_drain cs buf = Some (out, rest) \<and> concat out @ rest = buf
    \<and> length rest < cs \<and> (\<forall>c\<in>set out. length c = cs)"
proof (induction buf rule: length_induct)
  case (1 buf)
  show ?case
  proof (cases "cs \<le> length buf")
    case True
    with assms have "length (drop cs buf) < length buf" by simp
    with 1 obtain out rest where "rechunk_drain cs (drop cs buf) = Some (out, rest)"
      "concat out @ rest = drop cs buf" "length rest < cs" "\<forall>c\<in>set out. length c = cs" by blast
    with True show ?thesis by (subst rechunk_drain.simps) simp
  next
    case False
    then show ?thesis by (subst rechunk_drain.simps) simp
  qed
qed

lemma rechunk_pieces_total:
  assumes "0 < cs" and "length buf < cs"
  shows "\<exists>out rest. rechunk_pieces cs buf ps = Some (out, rest) \<and> concat out @ rest = buf @ concat ps
    \<and> length rest < cs \<and> (\<forall>c\<in>set out. length c = cs)"
  using assms(2)
proof (induction ps arbitrary: buf)
  case (Cons p ps)
  obtain out rest where d: "rechunk_drain cs (buf @ p) = Some (out, rest)" "concat out @ rest = buf @ p"
    "length rest < cs" "\<forall>c\<in>set out. length c = cs"
    using rechunk_drain_total [OF assms(1)] by blast
  from Cons.IH [OF d(3)] obtain out' rest' where
    "rechunk_pieces cs rest ps = Some (out', rest')" "concat out' @ rest' = rest @ concat ps"
    "length rest' < cs" "\<forall>c\<in>set out'. length c = cs" by blast
  moreover from this d(2) have "concat (out @ out') @ rest' = buf @ concat (p # ps)"
    by (metis append.assoc concat.simps(2) concat_append)
  ultimately show ?case using d(1,4) by fastforce
qed simp

text \<open>With a positive chunk size it terminates, keeps the bytes and bounds every chunk.\<close>

lemma rechunk_spec:
  assumes "0 < cs"
  shows "\<exists>out. rechunk (ps, None) cs = Some (out, None) \<and> concat out = concat ps
    \<and> (\<forall>c\<in>set out. 0 < length c \<and> length c \<le> cs)"
proof -
  obtain out rest where "rechunk_pieces cs [] ps = Some (out, rest)" "concat out @ rest = concat ps"
    "length rest < cs" "\<forall>c\<in>set out. length c = cs"
    using rechunk_pieces_total [OF assms, of "[]" ps] assms by auto
  then show ?thesis using assms by (auto simp: rechunk_def)
qed

lemma rechunk_returns: "0 < cs \<Longrightarrow> \<exists>g. rechunk src cs = Some g"
  using rechunk_pieces_total [of cs "[]" "fst src"] by (cases src) (auto simp: rechunk_def)

section \<open>Reading\<close>

lemma fill_header:
  assumes "fill 37 [] raw = (ok, head, ait)"
  shows "is_encrypted head = is_encrypted (concat raw)"
    and "concat ((if head \<noteq> [] then [head] else []) @ ait) = concat raw"
proof -
  have cat: "head @ concat ait = concat raw" using fill_concat [OF assms] by simp
  then show "concat ((if head \<noteq> [] then [head] else []) @ ait) = concat raw" by auto
  show "is_encrypted head = is_encrypted (concat raw)"
  proof (cases ok)
    case True
    with assms have "37 \<le> length head" using fill_enough by simp
    then show ?thesis unfolding is_encrypted_def cat [symmetric] by (simp add: py_slice_def nth_append)
  next
    case False
    with assms have "ait = []" using fill_exhausted by simp
    with cat show ?thesis by simp
  qed
qed

lemma is_encrypted_split:
  assumes "is_encrypted data"
  obtains kid salt frame where "data = ENV_MAGIC @ [ENV_VERSION] @ kid @ salt @ frame"
    "length kid = 16" "length salt = 16"
proof
  have len: "37 \<le> length data" and m: "take 4 data = ENV_MAGIC" and v: "data ! 4 = ENV_VERSION"
    using assms by (auto simp: is_encrypted_def py_slice_def)
  show "length (take 16 (drop 5 data)) = 16" "length (take 16 (drop 21 data)) = 16" using len by auto
  have "data = take 4 data @ data ! 4 # drop 5 data"
    using id_take_nth_drop [of 4 data] len by simp
  moreover have "drop 5 data = take 16 (drop 5 data) @ drop 21 data"
    using append_take_drop_id [of 16 "drop 5 data"] by simp
  moreover have "drop 21 data = take 16 (drop 21 data) @ drop 37 data"
    using append_take_drop_id [of 16 "drop 21 data"] by simp
  ultimately show "data = ENV_MAGIC @ [ENV_VERSION] @ take 16 (drop 5 data) @ take 16 (drop 21 data) @ drop 37 data"
    using m v by (metis append_Cons append_Nil)
qed

text \<open>Whatever the single-shot read returns, the streaming read returns in pieces.\<close>

lemma stream_read:
  assumes "fst (maybe_decrypt A K S (Some (concat raw)) rt) = Inr (Some p)" and "0 < cs"
  shows "\<exists>out. fst (rt_decrypt_stream A K S raw cs rt) = Some (out, None) \<and> concat out = p
    \<and> (\<forall>c\<in>set out. 0 < length c \<and> length c \<le> cs)"
proof -
  obtain ok head ait where f: "fill 37 [] raw = (ok, head, ait)" by (cases "fill 37 [] raw") auto
  let ?re = "(if head \<noteq> [] then [head] else []) @ ait"
  show ?thesis
  proof (cases "is_encrypted (concat raw)")
    case False
    with assms(1) have "p = concat raw" by (simp add: maybe_decrypt_def)
    with False show ?thesis
      using rechunk_spec [OF assms(2), of ?re] fill_header [OF f] f by (simp add: rt_decrypt_stream_def Let_def)
  next
    case True
    then obtain kid salt frame where sp: "concat raw = ENV_MAGIC @ [ENV_VERSION] @ kid @ salt @ frame"
      "length kid = 16" "length salt = 16" by (rule is_encrypted_split)
    note lay = envelope_layout [OF sp(2,3), of frame, folded sp(1)]
    from assms(1) True lay(5) obtain m m' dek where m: "rt_dek_manager rt = Some m"
      "dek_for_key_id S m kid = (Inr dek, m')" "decrypt_blob A K (concat raw) dek = Inr p"
      by (auto simp: maybe_decrypt_def open_blob_def split: option.splits prod.splits sum.splits)
    from m(3) True lay(3,4) have d: "length dek = 32" "decrypt A frame (K dek salt) = Inr p"
      by (auto simp: decrypt_blob_def derive_key_def KEY_ID_LEN_def split: if_splits sum.splits)
    have cat: "concat ?re = ENV_MAGIC @ [ENV_VERSION] @ kid @ salt @ frame" using fill_header(2) [OF f] sp(1) by argo
    obtain g m'' where e: "env_decrypt_stream A K ?re (\<lambda>kid m. dek_for_key_id S m kid) m = (g, m'')" by fastforce
    have "gen_result g = Inr p"
      using env_decrypt_stream_envelope(1) [OF cat sp(2,3) d(1), of "\<lambda>kid m. dek_for_key_id S m kid" m m' A K p] m(2) d(2) e
      by simp
    then obtain ps where g: "g = (ps, None)" "concat ps = p"
      by (cases g) (auto simp: gen_result_def split: option.splits)
    have "fst (rt_decrypt_stream A K S raw cs rt) = rechunk (ps, None) cs"
      using fill_header(1) [OF f] True f m(1) e g(1) by (simp add: rt_decrypt_stream_def Let_def)
    with rechunk_spec [OF assms(2), of ps] g(2) show ?thesis by simp
  qed
qed

section \<open>Writing\<close>

context dek_store
begin

lemma maybe_encrypt_vault:
  assumes "aead_correct A" and "kdf_ok K" and "vault m V" and "rt_dek_manager rt = Some m"
    and "rt_write_enabled rt" and "randoms_ok R" and "length (plain_chunks 1048576 content) < MAX_CHUNKS"
    and "maybe_encrypt A K S R content (Some t) rt = (Inr (data, enc), rt1)"
  shows "\<exists>m1 V1 k dek. enc \<and> rt_dek_manager rt1 = Some m1 \<and> vault m1 V1 \<and> V1 k = Some dek
    \<and> is_encrypted data \<and> read_key_id data = Inr k \<and> decrypt_blob A K data dek = Inr content"
proof -
  have w: "is_write_enabled rt" using assms(4,5) by (simp add: is_write_enabled_def)
  obtain res m1 where ad: "active_dek S m t (rnd_dek R) (rnd_uuid R) = (res, m1)" by fastforce
  obtain k dek where kd: "res = Inr (k, dek)"
    using assms(4,8) w ad by (cases res) (auto simp: maybe_encrypt_def rt_active_dek_def)
  have s: "seal A K (rnd_salt R) (rnd_prefix R) content dek k = Inr data" "enc"
      "rt_dek_manager rt1 = Some m1"
    using assms(4,8) w ad kd by (auto simp: maybe_encrypt_def rt_active_dek_def)
  obtain V1 where V1: "vault m1 V1" "V1 k = Some dek"
    using active_dek_keeps [OF assms(3) _ _ ad] assms(6) kd by (auto simp: randoms_ok_def)
  have "\<exists>data' frame. encrypt_blob A K (rnd_salt R) (rnd_prefix R) content dek k 1048576 = Inr data'
     \<and> data' = ENV_MAGIC @ [ENV_VERSION] @ k @ rnd_salt R @ frame
     \<and> decrypt A frame (K dek (rnd_salt R)) = Inr content \<and> decrypt_blob A K data' dek = Inr content"
    by (rule encrypt_decrypt_blob [OF assms(1,2)])
      (use assms(6,7) vaultD(5,6) [OF V1] in \<open>simp_all add: randoms_ok_def\<close>)
  then obtain frame where fr: "data = ENV_MAGIC @ [ENV_VERSION] @ k @ rnd_salt R @ frame"
      "decrypt_blob A K data dek = Inr content"
    using s(1) by (auto simp: seal_def)
  have "length k = 16" "length (rnd_salt R) = 16"
    using vaultD(6) [OF V1] assms(6) by (simp_all add: randoms_ok_def)
  from envelope_layout(1,5) [OF this, of frame] show ?thesis
    using s(2,3) V1 fr by (metis (no_types))
qed

lemma maybe_decrypt_vault:
  assumes "vault m V" and "V k = Some dek" and "rt_dek_manager rt = Some m" and "is_encrypted data"
    and "read_key_id data = Inr k" and "decrypt_blob A K data dek = Inr content"
  shows "fst (maybe_decrypt A K S (Some data) rt) = Inr (Some content)"
  using dek_for_key_id_vault [OF assms(1,2)] assms(3-6)
  by (auto simp: maybe_decrypt_def open_blob_def)

lemma maybe_encrypt_succeeds:
  assumes "aead_correct A" and "kdf_ok K" and "vault m V" and "rt_dek_manager rt = Some m"
    and "rt_write_enabled rt" and "randoms_ok R" and "length (plain_chunks 1048576 content) < MAX_CHUNKS"
    and "V (rnd_uuid R) = None"
  shows "\<exists>data rt1. maybe_encrypt A K S R content (Some t) rt = (Inr (data, True), rt1)"
proof -
  have "length (rnd_dek R) = 32" "length (rnd_uuid R) = 16" using assms(6) by (auto simp: randoms_ok_def)
  from active_dek_vault [OF assms(3) this assms(8), of t] obtain k dek m1 V1 where
    ad: "active_dek S m t (rnd_dek R) (rnd_uuid R) = (Inr (k, dek), m1)" and V1: "vault m1 V1" "V1 k = Some dek"
    by blast
  have "\<exists>data. encrypt_blob A K (rnd_salt R) (rnd_prefix R) content dek k 1048576 = Inr data"
    using encrypt_decrypt_blob [OF assms(1,2), of dek k "rnd_salt R" "rnd_prefix R" 1048576 content]
      assms(6,7) vaultD(5,6) [OF V1] by (auto simp: randoms_ok_def)
  then show ?thesis
    using ad assms(4,5) by (auto simp: maybe_encrypt_def is_write_enabled_def rt_active_dek_def seal_def)
qed

end

section \<open>Properties\<close>

text \<open>
  C1. End-to-end durability of stored content. Content that the write hook sealed for a tenant, in
  any reachable state of the key management, is returned by the read hook after every later run of
  it: re-wraps, rotations, restarts, other processes, and whether or not writes are still enabled.
  The single-shot read returns it whole; the streaming read terminates without an exception and
  returns it in non-empty pieces of at most the chunk size, however the object store splits the
  stored bytes. (Content of up to \<open>_MAX_CHUNKS\<close> chunks of one MiB.)
\<close>

theorem stored_content_durable:
  assumes "aead_correct A" and "kdf_ok K" and "kek_ok kek" and "randoms_ok R"
    and "(dek_step SqlDekStore)\<^sup>*\<^sup>* (DekManager kek []) m"
    and "rt_dek_manager rt = Some m" and "rt_write_enabled rt"
    and "length (plain_chunks 1048576 content) < MAX_CHUNKS"
    and "maybe_encrypt A K SqlDekStore R content (Some t) rt = (Inr (data, enc), rt1)"
    and "rt_dek_manager rt1 = Some m1" and "(dek_step SqlDekStore)\<^sup>*\<^sup>* m1 m2" and "rt_dek_manager rt2 = Some m2"
  shows "enc \<and> is_encrypted data
    \<and> fst (maybe_decrypt A K SqlDekStore (Some data) rt2) = Inr (Some content)
    \<and> (\<forall>raw cs. concat raw = data \<longrightarrow> 0 < cs \<longrightarrow>
         (\<exists>out. fst (rt_decrypt_stream A K SqlDekStore raw cs rt2) = Some (out, None) \<and> concat out = content
            \<and> (\<forall>c\<in>set out. 0 < length c \<and> length c \<le> cs)))"
proof -
  obtain V where V: "sql.vault m V"
    using sql.dek_steps_vault [OF assms(5) sql_vault_initial [OF assms(3)]] by blast
  from sql.maybe_encrypt_vault [OF assms(1,2) V assms(6,7,4,8,9)] assms(10) obtain V1 k dek where
    e: "enc" "sql.vault m1 V1" "V1 k = Some dek" "is_encrypted data" "read_key_id data = Inr k"
      "decrypt_blob A K data dek = Inr content" by auto
  obtain V2 where V2: "sql.vault m2 V2" "V1 \<subseteq>\<^sub>m V2" using sql.dek_steps_vault [OF assms(11) e(2)] by blast
  have "V2 k = Some dek" using V2(2) e(3) unfolding map_le_def by (metis domI)
  from sql.maybe_decrypt_vault [OF V2(1) this assms(12) e(4-6)]
  have r: "fst (maybe_decrypt A K SqlDekStore (Some data) rt2) = Inr (Some content)" .
  then show ?thesis using e(1,4) stream_read [of A K SqlDekStore _ rt2 content] by blast
qed

definition toy_kdf :: hkdf where
  "toy_kdf d s = take 32 (s @ d @ replicate 32 0)"

lemma toy_kdf_ok: "kdf_ok toy_kdf"
  by (auto simp: kdf_ok_def toy_kdf_def min_def)

definition toy_randoms :: randoms where
  "toy_randoms = \<lparr>rnd_dek = replicate 32 1, rnd_uuid = replicate 16 2, rnd_salt = replicate 16 3,
     rnd_prefix = replicate 8 4\<rparr>"

lemma toy_randoms_ok: "randoms_ok toy_randoms"
  by (simp add: randoms_ok_def toy_randoms_def)

lemma toy_write:
  "\<exists>data rt1. maybe_encrypt toy_aead toy_kdf SqlDekStore toy_randoms [1, 2, 3] (Some ''t'')
      (configure (Some (DekManager toy_kek [])) True True) = (Inr (data, True), rt1)"
  by (rule sql.maybe_encrypt_succeeds [OF toy_aead_correct toy_kdf_ok sql_vault_initial [OF toy_kek_ok]])
    (simp_all add: configure_def toy_randoms_ok plain_chunks_def MAX_CHUNKS_def)

lemma maybe_encrypt_manager:
  "rt_dek_manager rt \<noteq> None \<Longrightarrow> maybe_encrypt A K S R c t rt = (res, rt1) \<Longrightarrow> rt_dek_manager rt1 \<noteq> None"
  by (auto simp: maybe_encrypt_def rt_active_dek_def split: if_splits option.splits prod.splits sum.splits)

theorem stored_content_durable_witness:
  "\<exists>data rt1 m1. maybe_encrypt toy_aead toy_kdf SqlDekStore toy_randoms [1, 2, 3] (Some ''t'')
      (configure (Some (DekManager toy_kek [])) True True) = (Inr (data, True), rt1)
    \<and> rt_dek_manager rt1 = Some m1
    \<and> fst (maybe_decrypt toy_aead toy_kdf SqlDekStore (Some data)
        (configure (Some (DekManager (dm_kek m1) (dm_store m1))) False True)) = Inr (Some [1, 2, 3])"
proof -
  obtain data rt1 where w: "maybe_encrypt toy_aead toy_kdf SqlDekStore toy_randoms [1, 2, 3] (Some ''t'')
      (configure (Some (DekManager toy_kek [])) True True) = (Inr (data, True), rt1)" using toy_write by blast
  then obtain m1 where m1: "rt_dek_manager rt1 = Some m1"
    using maybe_encrypt_manager [OF _ w] by (auto simp: configure_def)
  have st: "(dek_step SqlDekStore)\<^sup>*\<^sup>* m1 (DekManager (dm_kek m1) (dm_store m1))"
    using dek_step.step_restart by blast
  have "length (plain_chunks 1048576 [1, 2, 3 :: byte]) < MAX_CHUNKS" by (simp add: plain_chunks_def MAX_CHUNKS_def)
  from stored_content_durable [OF toy_aead_correct toy_kdf_ok toy_kek_ok toy_randoms_ok
      rtranclp.rtrancl_refl _ _ this w m1 st, of "configure (Some (DekManager (dm_kek m1) (dm_store m1))) False True"]
  show ?thesis using w m1 by (auto simp: configure_def)
qed

text \<open>
  C20. The streaming write stores the same object as the single-shot write. For the same random
  draws, whatever the piece boundaries, joining the stream that \<open>maybe_encrypt_stream\<close> returns gives
  exactly the result of \<open>maybe_encrypt\<close> on the joined plaintext: the same bytes, the same
  encrypted flag, the same exception, and the same runtime state afterwards.
\<close>

theorem stream_write_same:
  assumes "length (plain_chunks 1048576 (concat pieces)) < MAX_CHUNKS"
  shows "maybe_encrypt A K S R (concat pieces) t rt =
    (case maybe_encrypt_stream A K S R pieces t 1048576 rt of
       (res, rt') \<Rightarrow> (bindE res (\<lambda>(g, enc). bindE (gen_result g) (\<lambda>data. Inr (data, enc))), rt'))"
proof -
  have e: "seal A K s p (concat pieces) dek k = gen_result (env_encrypt_stream A K s p pieces dek k 1048576)"
    for s p dek k
    using env_encrypt_stream_join [of 1048576 pieces A K s p dek k] assms by (simp add: seal_def)
  show ?thesis
    by (auto simp: maybe_encrypt_def maybe_encrypt_stream_def e gen_result_def
        split: option.splits prod.splits sum.splits)
qed

theorem stream_write_same_witness:
  "maybe_encrypt toy_aead toy_kdf SqlDekStore toy_randoms (concat [[1], [2, 3], []]) (Some ''t'')
      (configure (Some (DekManager toy_kek [])) True True) =
    (case maybe_encrypt_stream toy_aead toy_kdf SqlDekStore toy_randoms [[1], [2, 3], []] (Some ''t'') 1048576
            (configure (Some (DekManager toy_kek [])) True True) of
       (res, rt') \<Rightarrow> (bindE res (\<lambda>(g, enc). bindE (gen_result g) (\<lambda>data. Inr (data, enc))), rt'))"
  by (rule stream_write_same) (simp add: plain_chunks_def MAX_CHUNKS_def)

text \<open>
  C33. Encryption off is a passthrough. Without an enabled manager or without a tenant the write hook
  returns the content itself and leaves the state alone. Any stored bytes that do not begin with
  an envelope header then read back unchanged under every configuration of the reader, in one
  piece or streamed, and reading never touches the installed manager.
\<close>

theorem plaintext_passthrough:
  assumes "\<not> is_write_enabled rt \<or> t = None"
  shows "maybe_encrypt A K S R content t rt = (Inr (content, False), rt)
    \<and> (\<not> is_encrypted content \<longrightarrow>
        (\<forall>rt2. maybe_decrypt A K S (Some content) rt2 = (Inr (Some content), rt2)
          \<and> (\<forall>raw cs. concat raw = content \<longrightarrow> 0 < cs \<longrightarrow>
               (\<exists>out. rt_decrypt_stream A K S raw cs rt2 = (Some (out, None), rt2) \<and> concat out = content))))"
proof -
  have "\<exists>out. rt_decrypt_stream A K S raw cs rt2 = (Some (out, None), rt2) \<and> concat out = content"
    if "\<not> is_encrypted content" "concat raw = content" "0 < cs" for rt2 raw cs
  proof -
    obtain ok head ait where f: "fill 37 [] raw = (ok, head, ait)" by (cases "fill 37 [] raw") auto
    have h: "\<not> is_encrypted head" using fill_header(1) [OF f] that(1,2) by simp
    let ?re = "(if head \<noteq> [] then [head] else []) @ ait"
    have "concat ?re = content" using fill_header(2) [OF f] that(2) by argo
    moreover have "rt_decrypt_stream A K S raw cs rt2 = (rechunk (?re, None) cs, rt2)"
      using f h unfolding rt_decrypt_stream_def by simp
    ultimately show ?thesis using rechunk_spec [OF that(3), of ?re] by auto
  qed
  then show ?thesis using assms by (auto simp: maybe_encrypt_def maybe_decrypt_def split: option.splits)
qed

theorem plaintext_passthrough_witness:
  "maybe_encrypt toy_aead toy_kdf SqlDekStore toy_randoms [1, 2, 3] (Some ''t'') (configure None False True)
     = (Inr ([1, 2, 3], False), configure None False True)
   \<and> maybe_decrypt toy_aead toy_kdf SqlDekStore (Some [1, 2, 3]) (configure (Some (DekManager toy_kek [])) True True)
     = (Inr (Some [1, 2, 3]), configure (Some (DekManager toy_kek [])) True True)"
proof -
  have "\<not> is_write_enabled (configure None False True) \<or> Some ''t'' = None"
    by (simp add: is_write_enabled_def configure_def)
  from plaintext_passthrough [OF this, of toy_aead toy_kdf SqlDekStore toy_randoms "[1, 2, 3]"]
  show ?thesis by (simp add: is_encrypted_def)
qed

text \<open>Documented behaviour of \<open>AESGCM\<close>: what decrypts is 16 bytes longer than its plaintext.\<close>

definition aead_tag_removed :: "aesgcm \<Rightarrow> bool" where
  "aead_tag_removed A \<longleftrightarrow> (\<forall>k n c a p. aes_decrypt A k n c a = Inr p \<longrightarrow> length c = length p + 16)"

lemma toy_aead_tag_removed: "aead_tag_removed toy_aead"
  by (simp add: aead_tag_removed_def toy_aead_def)

lemma open_list_shorter:
  assumes "aead_tag_removed A"
  shows "open_list A key pfx header last_i i cts = Inr ps \<Longrightarrow> length (concat ps) \<le> length (frame_body cts)"
proof (induction cts arbitrary: i ps)
  case (Cons ct cts)
  then obtain p ps' where p: "ps = p # ps'" "open_list A key pfx header last_i (Suc i) cts = Inr ps'"
      "open_chunk A key pfx header i ct (i = last_i) = Inr p" by auto
  have "length p \<le> length ct" using assms p(3) by (fastforce simp: open_chunk_Inr aead_tag_removed_def)
  with Cons.IH [OF p(2)] show ?case by (simp add: p(1))
qed simp

text \<open>So an opened envelope is longer than its plaintext: a read never returns the stored bytes.\<close>

lemma decrypt_shorter:
  assumes "aead_tag_removed A" and "decrypt A frame key = Inr p"
  shows "length p \<le> length frame"
proof -
  obtain cts ps where "parse_body (drop 18 frame) = Inr cts" "p = concat ps"
      "open_list A key (py_slice frame 10 18) (take 18 frame) (length cts - 1) 0 cts = Inr ps"
    using assms(2) by (auto simp: decrypt_eq split: if_splits)
  then show ?thesis
    using open_list_shorter [OF assms(1)] parse_body_Inr by (metis diff_le_self length_drop order_trans)
qed

lemma open_blob_shorter:
  assumes "aead_tag_removed A" and "is_encrypted data" and "open_blob A K data dek = Inr p"
  shows "length p < length data"
proof -
  obtain key where "decrypt A (drop ENV_HEADER_LEN data) key = Inr p"
    using assms(2,3)
    by (cases dek; cases "derive_key K (the dek) (py_slice data (5 + KEY_ID_LEN) ENV_HEADER_LEN)")
      (auto simp: open_blob_def decrypt_blob_def split: sum.split_asm)
  from decrypt_shorter [OF assms(1) this] assms(2) show ?thesis
    by (auto simp: is_encrypted_def ENV_HEADER_LEN_def)
qed

text \<open>
  C37. Content with a header-like prefix. Stored while encryption is off, content that itself begins
  with the envelope magic, version and 32 further bytes is written verbatim and never read back: no
  later runtime, whatever its manager, keys and flags, returns the content. With no manager installed
  the read raises \<open>BlobCipherError\<close>, and with a manager that has the bytes taken as key id neither
  cached nor stored it raises \<open>KeyError\<close>.
\<close>

theorem magic_collision_unreadable:
  assumes "is_encrypted content" and "\<not> is_write_enabled rt" and "aead_tag_removed A"
  shows "maybe_encrypt A K S R content t rt = (Inr (content, False), rt)
    \<and> fst (maybe_decrypt A K S (Some content) rt') \<noteq> Inr (Some content)
    \<and> (rt_dek_manager rt' = None \<longrightarrow> fst (maybe_decrypt A K S (Some content) rt') =
         Inl (BlobCipherError ''encrypted blob but no DEK manager configured''))
    \<and> (\<forall>m. rt_dek_manager rt' = Some m \<longrightarrow> by_kid m (py_slice content 5 21) = None
         \<longrightarrow> get_by_key_id S (py_slice content 5 21) (dm_store m) = None
         \<longrightarrow> fst (maybe_decrypt A K S (Some content) rt') = Inl PyKeyError)"
proof (intro conjI impI allI)
  show "maybe_encrypt A K S R content t rt = (Inr (content, False), rt)"
    using assms(2) by (simp add: maybe_encrypt_def)
  have "open_blob A K content (Some dek) \<noteq> Inr content" for dek
    using open_blob_shorter [OF assms(3,1)] by blast
  then show "fst (maybe_decrypt A K S (Some content) rt') \<noteq> Inr (Some content)"
    using assms(1) by (auto simp: maybe_decrypt_def split: option.splits sum.splits prod.splits)
qed (use assms(1) in \<open>auto simp: maybe_decrypt_def read_key_id_def KEY_ID_LEN_def dek_for_key_id_def\<close>)

theorem magic_collision_unreadable_witness:
  "maybe_encrypt toy_aead toy_kdf SqlDekStore toy_randoms (ENV_MAGIC @ ENV_VERSION # replicate 32 0) (Some ''t'')
       (configure None False True)
     = (Inr (ENV_MAGIC @ ENV_VERSION # replicate 32 0, False), configure None False True)
   \<and> fst (maybe_decrypt toy_aead toy_kdf SqlDekStore (Some (ENV_MAGIC @ ENV_VERSION # replicate 32 0))
        (configure (Some (DekManager toy_kek [])) True True)) = Inl PyKeyError"
proof -
  have e: "is_encrypted (ENV_MAGIC @ ENV_VERSION # replicate 32 0)"
    by (simp add: is_encrypted_def ENV_MAGIC_def py_slice_def)
  have "\<not> is_write_enabled (configure None False True :: dek_table crypto_runtime)"
    by (simp add: is_write_enabled_def configure_def)
  from magic_collision_unreadable [OF e this toy_aead_tag_removed, of toy_kdf SqlDekStore toy_randoms "Some ''t''"
      "configure (Some (DekManager toy_kek [])) True True"]
  show ?thesis by (simp add: configure_def DekManager_def SqlDekStore_def sql_get_by_key_id_def)
qed

end
