(* ===== verification/Encryption_Config.thy ===== *)
theory Encryption_Config
  imports Crypto_Runtime
begin

text \<open>
  Choosing and installing the KEK: \<open>build_kek\<close> of \<open>shared/crypto/kek.py\<close>, the bootstrap of
  \<open>shared/crypto/bootstrap.py\<close>, the singleton configuration row of \<open>shared/crypto/config_store.py\<close>
  and the operator endpoints \<open>/api/v1/encryption/config\<close> and \<open>/api/v1/encryption/rewrap\<close> of
  \<open>services/tenant-service/main.py\<close>. The question is whether the KEK a process builds at its next
  start still unwraps every DEK of the table.

  The process environment is a map of strings. Cloud SDK clients come from the parameter record
  \<open>kek_clients\<close>. \<open>updated_at\<close> is left out. A cloud provider row without a key reference, which neither
  endpoint can write, fails to build here.
\<close>

section \<open>Text helpers of the standard library\<close>

definition is_space :: "char \<Rightarrow> bool" where
  "is_space c \<longleftrightarrow> of_char c \<in> {9, 10, 11, 12, 13, 32 :: nat}"

definition hex_value :: "char \<Rightarrow> nat option" where
  "hex_value c =
     (let n = of_char c :: nat
      in if 48 \<le> n \<and> n \<le> 57 then Some (n - 48)
         else if 65 \<le> n \<and> n \<le> 70 then Some (n - 55)
         else if 97 \<le> n \<and> n \<le> 102 then Some (n - 87)
         else None)"

text \<open>\<open>bytes.fromhex\<close>: pairs of hex digits, ASCII whitespace allowed between pairs.\<close>

fun fromhex :: "string \<Rightarrow> bytes result" where
  "fromhex [] = Inr []"
| "fromhex [c] = (if is_space c then Inr [] else Inl (ValueError ''non-hexadecimal number found in fromhex()''))"
| "fromhex (c # d # cs) =
     (if is_space c then fromhex (d # cs)
      else (case (hex_value c, hex_value d) of
              (Some a, Some b) \<Rightarrow> bindE (fromhex cs) (\<lambda>bs. Inr (word_of_nat (16 * a + b) # bs))
            | _ \<Rightarrow> Inl (ValueError ''non-hexadecimal number found in fromhex()'')))"

section \<open>Building a KEK\<close>

record kek_clients =
  kc_key_wrap :: key_wrap
  kms_for :: "string option \<Rightarrow> kms_client result"
  vault_for :: "string \<Rightarrow> vault_client result"

record kek_config =
  kc_provider :: "string option"
  kc_master_key_hex :: "string option"
  kc_kek_id :: "string option"
  kc_key_id :: "string option option"       \<comment> \<open>absent, or present and possibly \<open>None\<close>\<close>
  kc_region_name :: "string option"

definition build_kek :: "kek_clients \<Rightarrow> kek_config \<Rightarrow> kek_provider result" where
  "build_kek C config =
     (if kc_provider config = Some ''env'' then
        (case kc_master_key_hex config of
           None \<Rightarrow> Inl PyKeyError
         | Some hex \<Rightarrow> bindE (fromhex hex) (\<lambda>mk.
             EnvKek (kc_key_wrap C) mk (case kc_kek_id config of None \<Rightarrow> ''env'' | Some k \<Rightarrow> k)))
      else if kc_provider config = Some ''aws_kms'' then
        (case kc_key_id config of
           None \<Rightarrow> Inl PyKeyError
         | Some None \<Rightarrow> Inl (LibraryError ''no key id'')
         | Some (Some kid) \<Rightarrow> bindE (kms_for C (kc_region_name config)) (\<lambda>cl. Inr (AwsKmsKek cl kid)))
      else if kc_provider config = Some ''azure_key_vault'' then
        (case kc_key_id config of
           None \<Rightarrow> Inl PyKeyError
         | Some None \<Rightarrow> Inl (LibraryError ''no key id'')
         | Some (Some kid) \<Rightarrow> bindE (vault_for C kid) (\<lambda>cl. Inr (AzureKeyVaultKek cl kid)))
      else Inl (ValueError ''unknown KEK provider''))"

definition truthy :: "string option \<Rightarrow> bool" where
  "truthy v \<longleftrightarrow> py_lower (py_strip (case v of None \<Rightarrow> [] | Some s \<Rightarrow> s)) \<in> {''1'', ''true'', ''yes'', ''on''}"

definition build_kek_from_env :: "environ \<Rightarrow> kek_clients \<Rightarrow> kek_provider option result" where
  "build_kek_from_env env C =
     (case env ''BACKUP_ENCRYPTION_KEK_PROVIDER'' of
        None \<Rightarrow> Inr None
      | Some provider \<Rightarrow>
          if provider = [] then Inr None
          else if provider = ''env'' then
            (case env ''BACKUP_ENCRYPTION_MASTER_KEY_HEX'' of
               None \<Rightarrow> Inl PyKeyError
             | Some mk_hex \<Rightarrow> bindE (fromhex mk_hex) (\<lambda>mk.
                 bindE (EnvKek (kc_key_wrap C) mk
                          (case env ''BACKUP_ENCRYPTION_KEK_ID'' of None \<Rightarrow> ''env'' | Some k \<Rightarrow> k))
                   (\<lambda>kek. Inr (Some kek))))
          else if provider = ''aws_kms'' then
            (case env ''BACKUP_ENCRYPTION_AWS_KMS_KEY_ID'' of
               None \<Rightarrow> Inl PyKeyError
             | Some kid \<Rightarrow> bindE (kms_for C (env ''AWS_REGION'')) (\<lambda>cl. Inr (Some (AwsKmsKek cl kid))))
          else if provider = ''azure_key_vault'' then
            (case env ''BACKUP_ENCRYPTION_AZURE_KEY_ID'' of
               None \<Rightarrow> Inl PyKeyError
             | Some kid \<Rightarrow> bindE (vault_for C kid) (\<lambda>cl. Inr (Some (AzureKeyVaultKek cl kid))))
          else Inl (ValueError ''unknown BACKUP_ENCRYPTION_KEK_PROVIDER''))"

text \<open>The configuration row holds no secret; the master key comes from the environment.\<close>

definition config_dict_from :: "environ \<Rightarrow> string \<Rightarrow> string option \<Rightarrow> kek_config result" where
  "config_dict_from env provider ref =
     (if provider = ''env'' then
        (case env ''BACKUP_ENCRYPTION_MASTER_KEY_HEX'' of
           None \<Rightarrow> Inl PyKeyError
         | Some hex \<Rightarrow> Inr \<lparr>kc_provider = Some ''env'', kc_master_key_hex = Some hex,
             kc_kek_id = Some (case env ''BACKUP_ENCRYPTION_KEK_ID'' of None \<Rightarrow> ''env'' | Some k \<Rightarrow> k),
             kc_key_id = None, kc_region_name = None\<rparr>)
      else if provider = ''aws_kms'' then
        Inr \<lparr>kc_provider = Some ''aws_kms'', kc_master_key_hex = None, kc_kek_id = None,
             kc_key_id = Some ref, kc_region_name = env ''AWS_REGION''\<rparr>
      else if provider = ''azure_key_vault'' then
        Inr \<lparr>kc_provider = Some ''azure_key_vault'', kc_master_key_hex = None, kc_kek_id = None,
             kc_key_id = Some ref, kc_region_name = None\<rparr>
      else Inl (ValueError ''unknown encryption provider''))"

definition build_kek_from_config ::
    "environ \<Rightarrow> kek_clients \<Rightarrow> string \<Rightarrow> string option \<Rightarrow> kek_provider result" where
  "build_kek_from_config env C provider ref = bindE (config_dict_from env provider ref) (build_kek C)"

section \<open>Installing the runtime\<close>

record enc_config =
  ec_provider :: string
  ec_key_reference :: "string option"
  ec_enabled :: bool
  ec_verify_readback :: bool
  ec_updated_by :: "string option"

definition install_from_env ::
    "environ \<Rightarrow> kek_clients \<Rightarrow> 's \<Rightarrow> (bool \<times> 's crypto_runtime) result" where
  "install_from_env env C store =
     bindE (build_kek_from_env env C) (\<lambda>kek.
       case kek of
         None \<Rightarrow> Inr (False, configure None False True)
       | Some k \<Rightarrow> Inr (True, configure (Some (DekManager k store))
            (truthy (env ''BACKUP_ENCRYPTION_ENABLED''))
            (truthy (Some (case env ''BACKUP_ENCRYPTION_VERIFY'' of None \<Rightarrow> ''true'' | Some v \<Rightarrow> v)))))"

definition configure_from_config ::
    "environ \<Rightarrow> kek_clients \<Rightarrow> enc_config option \<Rightarrow> 's \<Rightarrow> (bool \<times> 's crypto_runtime) result" where
  "configure_from_config env C cfg store =
     (case cfg of
        None \<Rightarrow> install_from_env env C store
      | Some c \<Rightarrow>
          if ec_provider c = [] then install_from_env env C store
          else (case build_kek_from_config env C (ec_provider c) (ec_key_reference c) of
              Inl e \<Rightarrow> Inr (False, configure None False True)
            | Inr kek \<Rightarrow> Inr (True, configure (Some (DekManager kek store)) (ec_enabled c) (ec_verify_readback c))))"

text \<open>\<open>cfg_read\<close> is what reading the row gave, an exception included.\<close>

definition install ::
    "environ \<Rightarrow> kek_clients \<Rightarrow> enc_config option result \<Rightarrow> 's \<Rightarrow> (bool \<times> 's crypto_runtime) result" where
  "install env C cfg_read store =
     configure_from_config env C (case cfg_read of Inl e \<Rightarrow> None | Inr cfg \<Rightarrow> cfg) store"

section \<open>The configuration row and the operator endpoints\<close>

record enc_db =
  db_config :: "enc_config option"
  db_deks :: dek_table



text \<open>
  The request body. A flag is \<open>None\<close> when the key is absent, else \<open>bool()\<close> of the value given, so a JSON
  null arrives as \<open>Some False\<close>.
\<close>

record enc_request =
  rq_provider :: "string option"
  rq_key_reference :: "string option"
  rq_enabled :: "bool option"
  rq_verify_readback :: "bool option"
  rq_updated_by :: "string option"

definition ENC_PROVIDERS :: "string list" where
  "ENC_PROVIDERS = [''env'', ''aws_kms'', ''azure_key_vault'']"

definition active_count :: "dek_table \<Rightarrow> nat" where
  "active_count rows = length (filter (\<lambda>r. dr_state r = ''active'') rows)"

text \<open>The validation both endpoints start with: the accepted provider.\<close>

definition request_provider :: "enc_request \<Rightarrow> string result" where
  "request_provider rq =
     (case rq_provider rq of
        None \<Rightarrow> Inl (HTTPException 400)
      | Some p \<Rightarrow>
          if p \<notin> set ENC_PROVIDERS then Inl (HTTPException 400)
          else if p \<in> {''aws_kms'', ''azure_key_vault''} \<and> rq_key_reference rq \<in> {None, Some []}
          then Inl (HTTPException 400)
          else Inr p)"

definition put_encryption_config :: "enc_request \<Rightarrow> enc_db \<Rightarrow> enc_config result \<times> enc_db" where
  "put_encryption_config rq db =
     (case request_provider rq of
        Inl e \<Rightarrow> (Inl e, db)
      | Inr provider \<Rightarrow>
          let key_reference = rq_key_reference rq;
              enabled = (case rq_enabled rq of None \<Rightarrow> False | Some b \<Rightarrow> b);
              verify = (case rq_verify_readback rq of None \<Rightarrow> True | Some b \<Rightarrow> b);
              changes = (case db_config db of
                           None \<Rightarrow> False
                         | Some row \<Rightarrow> ec_provider row \<noteq> provider \<or> ec_key_reference row \<noteq> key_reference);
              row = \<lparr>ec_provider = provider, ec_key_reference = key_reference, ec_enabled = enabled,
                     ec_verify_readback = verify, ec_updated_by = rq_updated_by rq\<rparr>
          in if changes \<and> active_count (db_deks db) \<noteq> 0 then (Inl (HTTPException 409), db)
             else (Inr row, db\<lparr>db_config := Some row\<rparr>))"

text \<open>The KEK the endpoint takes as current: of the row when it names a provider, else of the environment.\<close>

definition current_kek :: "environ \<Rightarrow> kek_clients \<Rightarrow> enc_config option \<Rightarrow> kek_provider option result" where
  "current_kek env C current =
     (case current of
        None \<Rightarrow> build_kek_from_env env C
      | Some c \<Rightarrow>
          if ec_provider c = [] then build_kek_from_env env C
          else bindE (build_kek_from_config env C (ec_provider c) (ec_key_reference c)) (\<lambda>k. Inr (Some k)))"



section \<open>Runs of operators and workers\<close>


























section \<open>Properties\<close>

text \<open>The runtime a process installs holds the current KEK over the stored table.\<close>

lemma install_current:
  assumes "current_kek env C cfg = Inr (Some k)"
  shows "\<exists>w v. install env C (Inr cfg) store = Inr (True, configure (Some (DekManager k store)) w v)"
  using assms
  by (auto simp: install_def configure_from_config_def current_kek_def install_from_env_def
      split: option.splits if_splits) blast+


definition toy_env :: environ where
  "toy_env = [''BACKUP_ENCRYPTION_MASTER_KEY_HEX'' \<mapsto> concat (replicate 32 ''07'')]"

definition toy_clients :: kek_clients where
  "toy_clients = \<lparr>kc_key_wrap = toy_wrap,
     kms_for = (\<lambda>r. Inr \<lparr>kms_encrypt = (\<lambda>k p. Inr (1 # p)),
       kms_decrypt = (\<lambda>c. if c \<noteq> [] \<and> hd c = 1 then Inr (tl c) else Inl (ClientError ''InvalidCiphertextException'' []))\<rparr>),
     vault_for = (\<lambda>k. Inl (LibraryError ''no vault''))\<rparr>"



definition toy_row :: enc_config where
  "toy_row = \<lparr>ec_provider = ''aws_kms'', ec_key_reference = Some ''arn'', ec_enabled = True,
     ec_verify_readback = True, ec_updated_by = None\<rparr>"

definition toy_request :: enc_request where
  "toy_request = \<lparr>rq_provider = Some ''aws_kms'', rq_key_reference = Some ''arn'', rq_enabled = Some True,
     rq_verify_readback = None, rq_updated_by = None\<rparr>"

lemma toy_put:
  "put_encryption_config toy_request \<lparr>db_config = None, db_deks = rows\<rparr>
     = (Inr toy_row, \<lparr>db_config = Some toy_row, db_deks = rows\<rparr>)"
  by (simp add: put_encryption_config_def request_provider_def toy_request_def ENC_PROVIDERS_def toy_row_def Let_def)




text \<open>
  C36. The orphaning guard does not cover the first \<open>PUT\<close>. With no configuration row, DEKs may already
  exist under the KEK of the environment; a \<open>PUT\<close> naming another provider is then accepted, the
  re-wrap check is skipped and no DEK is re-wrapped. The next process installs the new KEK, and
  reading any blob fails with whatever the new KEK raises on the old wrapped bytes.
\<close>

theorem first_config_orphans_keys:
  assumes "db_config db = None" and "request_provider rq = Inr p"
    and "build_kek_from_config env C p (rq_key_reference rq) = Inr k"
    and "sql_get_by_key_id kid (db_deks db) = Some r" and "unwrap_dek k (dr_wrapped_dek r) = Inl e"
  shows "\<exists>row w v. put_encryption_config rq db = (Inr row, db\<lparr>db_config := Some row\<rparr>)
    \<and> install env C (Inr (Some row)) (db_deks db) = Inr (True, configure (Some (DekManager k (db_deks db))) w v)
    \<and> fst (dek_for_key_id SqlDekStore (DekManager k (db_deks db)) kid) = Inl e"
proof -
  have ne: "p \<noteq> []" using assms(2) by (auto simp: request_provider_def ENC_PROVIDERS_def split: option.splits if_splits)
  let ?row = "\<lparr>ec_provider = p, ec_key_reference = rq_key_reference rq,
     ec_enabled = (case rq_enabled rq of None \<Rightarrow> False | Some b \<Rightarrow> b),
     ec_verify_readback = (case rq_verify_readback rq of None \<Rightarrow> True | Some b \<Rightarrow> b),
     ec_updated_by = rq_updated_by rq\<rparr>"
  have "put_encryption_config rq db = (Inr ?row, db\<lparr>db_config := Some ?row\<rparr>)"
    using assms(1,2) by (simp add: put_encryption_config_def Let_def)
  moreover obtain w v where "install env C (Inr (Some ?row)) (db_deks db)
      = Inr (True, configure (Some (DekManager k (db_deks db))) w v)"
    using install_current [of env C "Some ?row" k "db_deks db"] assms(3) ne by (auto simp: current_kek_def)
  moreover have "fst (dek_for_key_id SqlDekStore (DekManager k (db_deks db)) kid) = Inl e"
    using assms(4,5) by (simp add: dek_for_key_id_def DekManager_def SqlDekStore_def)
  ultimately show ?thesis by (intro exI conjI)
qed

theorem first_config_orphans_keys_witness:
  "\<exists>rec k row w v. sql_get_by_key_id (replicate 16 2) [rec] = Some rec
    \<and> put_encryption_config toy_request \<lparr>db_config = None, db_deks = [rec]\<rparr>
        = (Inr row, \<lparr>db_config = Some row, db_deks = [rec]\<rparr>)
    \<and> install toy_env toy_clients (Inr (Some row)) [rec] = Inr (True, configure (Some (DekManager k [rec])) w v)
    \<and> fst (dek_for_key_id SqlDekStore (DekManager k [rec]) (replicate 16 2))
        = Inl (ClientError ''InvalidCiphertextException'' [])"
proof -
  let ?rec = "\<lparr>dr_tenant_id = ''t'', dr_key_id = replicate 16 2, dr_wrapped_dek = replicate 32 7 @ replicate 32 1,
     dr_kek_id = ''env'', dr_provider = ''env'', dr_state = ''active''\<rparr>"
  have rq: "request_provider toy_request = Inr ''aws_kms''"
    by (simp add: request_provider_def toy_request_def ENC_PROVIDERS_def)
  obtain k where k: "build_kek_from_config toy_env toy_clients ''aws_kms'' (rq_key_reference toy_request) = Inr k"
      "unwrap_dek k (dr_wrapped_dek ?rec) = Inl (ClientError ''InvalidCiphertextException'' [])"
    by (simp add: build_kek_from_config_def config_dict_from_def build_kek_def toy_clients_def AwsKmsKek_def
        toy_request_def)
  have row: "sql_get_by_key_id (replicate 16 2) [?rec] = Some ?rec" by (simp add: sql_get_by_key_id_def)
  obtain row' w v where "put_encryption_config toy_request \<lparr>db_config = None, db_deks = [?rec]\<rparr>
        = (Inr row', \<lparr>db_config = Some row', db_deks = [?rec]\<rparr>)"
      "install toy_env toy_clients (Inr (Some row')) [?rec] = Inr (True, configure (Some (DekManager k [?rec])) w v)"
      "fst (dek_for_key_id SqlDekStore (DekManager k [?rec]) (replicate 16 2))
        = Inl (ClientError ''InvalidCiphertextException'' [])"
    using first_config_orphans_keys [of "\<lparr>db_config = None, db_deks = [?rec]\<rparr>", OF _ rq k(1) _ k(2), of "replicate 16 2"] row
    by auto
  with row show ?thesis by (intro exI conjI)
qed

text \<open>
  C35. A configuration whose KEK cannot be built turns encryption off. When the row asks for
  encrypted writes but its KEK fails to build, installation reports \<open>False\<close> without raising, new
  content is stored in the clear for every tenant, and reading an existing envelope raises instead
  of returning ciphertext.
\<close>

theorem unbuildable_kek_turns_off:
  assumes "ec_provider c \<noteq> []" and "build_kek_from_config env C (ec_provider c) (ec_key_reference c) = Inl e"
  shows "\<exists>rt. install env C (Inr (Some c)) store = Inr (False, rt)
    \<and> maybe_encrypt A K S R content t rt = (Inr (content, False), rt)
    \<and> (is_encrypted data \<longrightarrow> is_error (fst (maybe_decrypt A K S (Some data) rt)))"
  using assms
  by (simp add: install_def configure_from_config_def maybe_encrypt_def maybe_decrypt_def configure_def
      is_write_enabled_def)

theorem unbuildable_kek_turns_off_witness:
  "\<exists>rt. install Map.empty toy_clients
        (Inr (Some \<lparr>ec_provider = ''env'', ec_key_reference = None, ec_enabled = True,
           ec_verify_readback = True, ec_updated_by = None\<rparr>)) [] = Inr (False, rt)
    \<and> maybe_encrypt toy_aead toy_kdf SqlDekStore toy_randoms [1] (Some ''t'') rt = (Inr ([1], False), rt)"
  using unbuildable_kek_turns_off [of "\<lparr>ec_provider = ''env'', ec_key_reference = None, ec_enabled = True,
           ec_verify_readback = True, ec_updated_by = None\<rparr>" Map.empty toy_clients PyKeyError "[]"
      toy_aead toy_kdf SqlDekStore toy_randoms "[1]" "Some ''t''"]
  by (auto simp: build_kek_from_config_def config_dict_from_def)

end
