(* ===== verification/Blob_Store.thy ===== *)
theory Blob_Store
  imports Encryption_Config
begin

text \<open>
  The S3-compatible object store adapter of \<open>shared/storage/seaweedfs.py\<close> where it meets the
  encryption hook (sharding, key layout, upload with write-then-verify, download, streaming
  download, header probe, delete), the dict-returning facade of \<open>shared/azure_storage.py\<close>, and the
  backfill of \<open>shared/crypto/migrate.py\<close> that seals existing plaintext blobs.

  The S3 service is the parameter record \<open>s3_client\<close> over its own state \<open>'o\<close>; reads do not change
  it. What is relied on of it, where anything is, is the hypothesis \<open>s3_ok\<close>. Metrics are left out.
  Multipart uploads are not part of this theory.
\<close>

section \<open>Stores and keys\<close>

record seaweed_store =
  ss_backend_id :: string
  ss_endpoint :: string
  ss_buckets :: "string list"
  ss_forced_bucket :: "string option"
  ss_tenant_id :: "string option"

definition SeaweedStore :: "string \<Rightarrow> string \<Rightarrow> string list \<Rightarrow> seaweed_store" where
  "SeaweedStore backend_id endpoint buckets =
     \<lparr>ss_backend_id = backend_id, ss_endpoint = endpoint, ss_buckets = buckets,
      ss_forced_bucket = None, ss_tenant_id = None\<rparr>"

text \<open>\<open>md5\<close> gives the digest of a string as an integer.\<close>

definition shard_for :: "(string \<Rightarrow> nat) \<Rightarrow> seaweed_store \<Rightarrow> string \<Rightarrow> string \<Rightarrow> seaweed_store result" where
  "shard_for md5 st tenant_id resource_id =
     (if ss_buckets st = [] then Inl (PyRuntimeError ''no buckets configured'')
      else let h = md5 (tenant_id @ '':'' @ resource_id);
               chosen = ss_buckets st ! (h mod length (ss_buckets st))
           in Inr ((SeaweedStore (ss_backend_id st) (ss_endpoint st) [chosen])
                     \<lparr>ss_forced_bucket := Some chosen, ss_tenant_id := Some tenant_id\<rparr>))"

definition is_catalogue :: "string \<Rightarrow> bool" where
  "is_catalogue container \<longleftrightarrow> take 15 container = ''chat-catalogue-''"

text \<open>Python's \<open>x or y\<close> on an optional string: absent and empty both fall through.\<close>

definition or_else :: "string option \<Rightarrow> string option \<Rightarrow> string option" where
  "or_else x y = (if x = None \<or> x = Some [] then y else x)"

definition store_bucket :: "seaweed_store \<Rightarrow> string \<Rightarrow> string" where
  "store_bucket st container =
     (if is_catalogue container then container
      else the (or_else (ss_forced_bucket st)
                  (Some (case ss_buckets st of [] \<Rightarrow> container | b # _ \<Rightarrow> b))))"

definition store_key :: "seaweed_store \<Rightarrow> string \<Rightarrow> string \<Rightarrow> string" where
  "store_key st container path =
     (if or_else (ss_forced_bucket st) None \<noteq> None \<and> container \<noteq> [] \<and> \<not> is_catalogue container
      then container @ ''/'' @ path else path)"

section \<open>The S3 service\<close>

record s3_head_info =
  hd_content_length :: nat
  hd_etag :: string
  hd_last_modified :: int

record 'o s3_client =
  s3_put_object :: "string \<Rightarrow> string \<Rightarrow> bytes \<Rightarrow> (string \<times> string) list \<Rightarrow> 'o \<Rightarrow> unit result \<times> 'o"
  s3_head_object :: "string \<Rightarrow> string \<Rightarrow> 'o \<Rightarrow> s3_head_info result"
  s3_get_object :: "string \<Rightarrow> string \<Rightarrow> 'o \<Rightarrow> bytes result"
  s3_get_range :: "string \<Rightarrow> string \<Rightarrow> nat \<Rightarrow> nat \<Rightarrow> 'o \<Rightarrow> bytes result"
  s3_delete_object :: "string \<Rightarrow> string \<Rightarrow> 'o \<Rightarrow> unit result \<times> 'o"

text \<open>\<open>_clean_metadata\<close>: a dict of strings with non-ASCII characters replaced by question marks.\<close>

definition ascii_replace :: "string \<Rightarrow> string" where
  "ascii_replace s = map (\<lambda>c. if of_char c < (128 :: nat) then c else CHR ''?'') s"

fun dict_set :: "string \<Rightarrow> string \<Rightarrow> (string \<times> string) list \<Rightarrow> (string \<times> string) list" where
  "dict_set k v [] = [(k, v)]"
| "dict_set k v ((k', v') # d) = (if k' = k then (k, v) # d else (k', v') # dict_set k v d)"

definition clean_metadata :: "(string \<times> string) list \<Rightarrow> (string \<times> string) list" where
  "clean_metadata metadata =
     fold (\<lambda>(k, v) clean. dict_set (ascii_replace k) (ascii_replace v) clean) metadata []"

text \<open>\<open>except ClientError\<close>: the two handlers of the read paths and the one of the write path.\<close>

definition unreachable_error :: "py_error \<Rightarrow> py_error" where
  "unreachable_error e = (case e of ClientError c m \<Rightarrow> BackendUnreachableError c | _ \<Rightarrow> e)"

definition not_found :: "py_error \<Rightarrow> bool" where
  "not_found e \<longleftrightarrow> (case e of ClientError c m \<Rightarrow> c \<in> {''NoSuchKey'', ''404'', ''NoSuchBucket''} | _ \<Rightarrow> False)"

section \<open>Operations\<close>

record ('o, 's) blob_world =
  bw_objects :: 'o
  bw_runtime :: "'s crypto_runtime"

text \<open>
  \<open>download\<close>: the handler covers the decryption too, so a \<open>ClientError\<close> of a KMS is treated
  as one of the object store.
\<close>

definition store_download ::
    "aesgcm \<Rightarrow> hkdf \<Rightarrow> 's dek_store_ops \<Rightarrow> 'o s3_client \<Rightarrow> seaweed_store \<Rightarrow> string \<Rightarrow> string
       \<Rightarrow> ('o, 's) blob_world \<Rightarrow> bytes option result \<times> ('o, 's) blob_world" where
  "store_download A K S C st container path w =
     (case (case s3_get_object C (store_bucket st container) (store_key st container path) (bw_objects w) of
              Inl e \<Rightarrow> (Inl e, bw_runtime w)
            | Inr body \<Rightarrow> maybe_decrypt A K S (Some body) (bw_runtime w)) of
        (Inr data, rt) \<Rightarrow> (Inr data, w\<lparr>bw_runtime := rt\<rparr>)
      | (Inl e, rt) \<Rightarrow>
          (if not_found e then Inr None else Inl (unreachable_error e), w\<lparr>bw_runtime := rt\<rparr>))"

definition head_is_encrypted ::
    "'o s3_client \<Rightarrow> seaweed_store \<Rightarrow> string \<Rightarrow> string \<Rightarrow> 'o \<Rightarrow> bool result" where
  "head_is_encrypted C st container path obj =
     (case s3_get_range C (store_bucket st container) (store_key st container path) 0 4 obj of
        Inl e \<Rightarrow> if not_found e then Inr False else Inl (unreachable_error e)
      | Inr head \<Rightarrow> Inr (py_slice head 0 4 = ENV_MAGIC))"

definition store_delete ::
    "'o s3_client \<Rightarrow> seaweed_store \<Rightarrow> string \<Rightarrow> string \<Rightarrow> 'o \<Rightarrow> unit result \<times> 'o" where
  "store_delete C st container path obj =
     (case s3_delete_object C (store_bucket st container) (store_key st container path) obj of
        (Inr u, obj') \<Rightarrow> (Inr u, obj')
      | (Inl e, obj') \<Rightarrow>
          ((case e of
              ClientError code msg \<Rightarrow>
                if code \<in> {''AccessDenied'', ''InvalidRequest''}
                   \<and> (py_in ''worm'' msg \<or> py_in ''retention'' msg \<or> py_in ''object lock'' msg)
                then Inl (ImmutableBlobError code)
                else if code \<in> {''NoSuchKey'', ''404''} then Inr ()
                else Inl (BackendUnreachableError code)
            | _ \<Rightarrow> Inl e), obj'))"

record blob_info =
  bi_backend_id :: string
  bi_container :: string
  bi_path :: string
  bi_size :: nat
  bi_etag :: string
  bi_url :: string
  bi_last_modified :: int

definition strip_quotes :: "string \<Rightarrow> string" where
  "strip_quotes s = rev (dropWhile (\<lambda>c. of_char c = (34 :: nat)) (rev (dropWhile (\<lambda>c. of_char c = (34 :: nat)) s)))"

definition blob_info_of :: "seaweed_store \<Rightarrow> string \<Rightarrow> string \<Rightarrow> s3_head_info \<Rightarrow> blob_info" where
  "blob_info_of st container path head =
     \<lparr>bi_backend_id = ss_backend_id st, bi_container = container, bi_path = path,
      bi_size = hd_content_length head, bi_etag = strip_quotes (hd_etag head),
      bi_url = ss_endpoint st @ ''/'' @ store_bucket st container @ ''/'' @ store_key st container path,
      bi_last_modified = hd_last_modified head\<rparr>"

text \<open>The put and head of an upload, inside its \<open>try\<close>.\<close>

definition put_and_head ::
    "'o s3_client \<Rightarrow> string \<Rightarrow> string \<Rightarrow> bytes \<Rightarrow> (string \<times> string) list \<Rightarrow> 'o \<Rightarrow> s3_head_info result \<times> 'o" where
  "put_and_head C bucket key stored metadata obj =
     (case s3_put_object C bucket key stored (clean_metadata metadata) obj of
        (Inl e, obj') \<Rightarrow> (Inl (unreachable_error e), obj')
      | (Inr u, obj') \<Rightarrow>
          (case s3_head_object C bucket key obj' of
             Inl e \<Rightarrow> (Inl (unreachable_error e), obj')
           | Inr head \<Rightarrow> (Inr head, obj')))"

text \<open>
  The write-then-verify rail: read back, compare, and on a mismatch delete (ignoring failures) and
  raise. An exception of the read itself passes through.
\<close>

definition verify_upload ::
    "aesgcm \<Rightarrow> hkdf \<Rightarrow> 's dek_store_ops \<Rightarrow> 'o s3_client \<Rightarrow> seaweed_store \<Rightarrow> string \<Rightarrow> string \<Rightarrow> bytes
       \<Rightarrow> ('o, 's) blob_world \<Rightarrow> unit result \<times> ('o, 's) blob_world" where
  "verify_upload A K S C st container path plaintext w =
     (case store_download A K S C st container path w of
        (Inl e, w') \<Rightarrow> (Inl e, w')
      | (Inr readback, w') \<Rightarrow>
          if readback \<noteq> Some plaintext
          then (Inl (BackendUnreachableError ''encryption write-then-verify failed''),
                w'\<lparr>bw_objects := snd (store_delete C st container path (bw_objects w'))\<rparr>)
          else (Inr (), w'))"

definition store_upload ::
    "aesgcm \<Rightarrow> hkdf \<Rightarrow> 's dek_store_ops \<Rightarrow> 'o s3_client \<Rightarrow> randoms \<Rightarrow> seaweed_store \<Rightarrow> string \<Rightarrow> string \<Rightarrow> bytes
       \<Rightarrow> (string \<times> string) list \<Rightarrow> string option \<Rightarrow> ('o, 's) blob_world \<Rightarrow> blob_info result \<times> ('o, 's) blob_world" where
  "store_upload A K S C R st container path content metadata tenant_id w =
     (case maybe_encrypt A K S R content (or_else tenant_id (ss_tenant_id st)) (bw_runtime w) of
        (Inl e, rt) \<Rightarrow> (Inl e, w\<lparr>bw_runtime := rt\<rparr>)
      | (Inr (stored, encrypted), rt) \<Rightarrow>
          (case put_and_head C (store_bucket st container) (store_key st container path) stored metadata (bw_objects w) of
             (Inl e, obj) \<Rightarrow> (Inl e, w\<lparr>bw_objects := obj, bw_runtime := rt\<rparr>)
           | (Inr head, obj) \<Rightarrow>
               let w1 = w\<lparr>bw_objects := obj, bw_runtime := rt\<rparr>;
                   info = blob_info_of st container path head
               in if encrypted \<and> verify_readback_enabled rt
                  then (case verify_upload A K S C st container path content w1 of
                          (Inl e, w2) \<Rightarrow> (Inl e, w2)
                        | (Inr u, w2) \<Rightarrow> (Inr info, w2))
                  else (Inr info, w1)))"

text \<open>A missing object streams nothing; a failing one ends the stream with the exception.\<close>

definition store_download_stream ::
    "aesgcm \<Rightarrow> hkdf \<Rightarrow> 's dek_store_ops \<Rightarrow> 'o s3_client \<Rightarrow> (bytes \<Rightarrow> nat \<Rightarrow> bytes list) \<Rightarrow> seaweed_store
       \<Rightarrow> string \<Rightarrow> string \<Rightarrow> nat \<Rightarrow> ('o, 's) blob_world \<Rightarrow> gen option \<times> ('o, 's) blob_world" where
  "store_download_stream A K S C iter_chunks st container path chunk_size w =
     (case s3_get_object C (store_bucket st container) (store_key st container path) (bw_objects w) of
        Inl e \<Rightarrow> (Some (if not_found e then ([], None) else ([], Some (unreachable_error e))), w)
      | Inr body \<Rightarrow>
          (case rt_decrypt_stream A K S (iter_chunks body chunk_size) chunk_size (bw_runtime w) of
             (g, rt) \<Rightarrow> (g, w\<lparr>bw_runtime := rt\<rparr>)))"

section \<open>The facade and the backfill\<close>

datatype upload_outcome = UploadOk blob_info | UploadFailed py_error

definition upload_blob ::
    "aesgcm \<Rightarrow> hkdf \<Rightarrow> 's dek_store_ops \<Rightarrow> 'o s3_client \<Rightarrow> randoms \<Rightarrow> seaweed_store \<Rightarrow> string \<Rightarrow> string \<Rightarrow> bytes
       \<Rightarrow> string option \<Rightarrow> ('o, 's) blob_world \<Rightarrow> upload_outcome \<times> ('o, 's) blob_world" where
  "upload_blob A K S C R st container path content tenant_id w =
     (case store_upload A K S C R st container path content [] tenant_id w of
        (Inr info, w') \<Rightarrow> (UploadOk info, w')
      | (Inl e, w') \<Rightarrow> (UploadFailed e, w'))"

definition reencrypt_blob ::
    "aesgcm \<Rightarrow> hkdf \<Rightarrow> 's dek_store_ops \<Rightarrow> 'o s3_client \<Rightarrow> randoms \<Rightarrow> seaweed_store \<Rightarrow> string \<Rightarrow> string \<Rightarrow> string
       \<Rightarrow> ('o, 's) blob_world \<Rightarrow> string result \<times> ('o, 's) blob_world" where
  "reencrypt_blob A K S C R st container path tenant_id w =
     (case head_is_encrypted C st container path (bw_objects w) of
        Inl e \<Rightarrow> (Inl e, w)
      | Inr True \<Rightarrow> (Inr ''skipped'', w)
      | Inr False \<Rightarrow>
          (case store_download A K S C st container path w of
             (Inl e, w') \<Rightarrow> (Inl e, w')
           | (Inr None, w') \<Rightarrow> (Inr ''missing'', w')
           | (Inr (Some plaintext), w') \<Rightarrow>
               (case upload_blob A K S C R st container path plaintext (Some tenant_id) w' of
                  (UploadFailed e, w'') \<Rightarrow> (Inl (PyRuntimeError ''reencrypt upload failed''), w'')
                | (UploadOk info, w'') \<Rightarrow> (Inr ''encrypted'', w''))))"

record reencrypt_stats =
  rs_encrypted :: nat
  rs_skipped :: nat
  rs_missing :: nat
  rs_failed :: nat

definition count_status :: "string result \<Rightarrow> reencrypt_stats \<Rightarrow> reencrypt_stats" where
  "count_status res stats =
     (case res of
        Inl e \<Rightarrow> stats\<lparr>rs_failed := rs_failed stats + 1\<rparr>
      | Inr s \<Rightarrow>
          if s = ''encrypted'' then stats\<lparr>rs_encrypted := rs_encrypted stats + 1\<rparr>
          else if s = ''skipped'' then stats\<lparr>rs_skipped := rs_skipped stats + 1\<rparr>
          else stats\<lparr>rs_missing := rs_missing stats + 1\<rparr>)"

text \<open>
  The tasks of \<open>reencrypt_container\<close> in some completion order: \<open>paths\<close> with the random draws of
  each. A task touches its own path and the key manager only.
\<close>

fun reencrypt_paths ::
    "aesgcm \<Rightarrow> hkdf \<Rightarrow> 's dek_store_ops \<Rightarrow> 'o s3_client \<Rightarrow> seaweed_store \<Rightarrow> string \<Rightarrow> string
       \<Rightarrow> (string \<times> randoms) list \<Rightarrow> reencrypt_stats \<Rightarrow> ('o, 's) blob_world \<Rightarrow> reencrypt_stats \<times> ('o, 's) blob_world" where
  "reencrypt_paths A K S C st container tenant_id [] stats w = (stats, w)"
| "reencrypt_paths A K S C st container tenant_id ((path, R) # paths) stats w =
     (case reencrypt_blob A K S C R st container path tenant_id w of
        (res, w') \<Rightarrow> reencrypt_paths A K S C st container tenant_id paths (count_status res stats) w')"

definition reencrypt_container ::
    "aesgcm \<Rightarrow> hkdf \<Rightarrow> 's dek_store_ops \<Rightarrow> 'o s3_client \<Rightarrow> seaweed_store \<Rightarrow> string \<Rightarrow> string
       \<Rightarrow> (string \<times> randoms) list \<Rightarrow> ('o, 's) blob_world \<Rightarrow> reencrypt_stats result \<times> ('o, 's) blob_world" where
  "reencrypt_container A K S C st container tenant_id paths w =
     (if \<not> is_write_enabled (bw_runtime w)
      then (Inl (PyRuntimeError ''reencrypt_container requires encryption writes enabled''), w)
      else (case reencrypt_paths A K S C st container tenant_id paths
                   \<lparr>rs_encrypted = 0, rs_skipped = 0, rs_missing = 0, rs_failed = 0\<rparr> w of
              (stats, w') \<Rightarrow> (Inr stats, w')))"

section \<open>Library\<close>

text \<open>A resolved key stays cached, so a successful read can be repeated.\<close>

lemma dek_for_key_id_again:
  "dek_for_key_id S m k = (Inr d, m') \<Longrightarrow> dek_for_key_id S m' k = (Inr d, m')"
  by (auto simp: dek_for_key_id_def split: option.splits sum.splits)

lemma maybe_decrypt_again:
  assumes "maybe_decrypt A K S data rt = (Inr p, rt')"
  shows "maybe_decrypt A K S data rt' = (Inr p, rt')"
proof (cases "\<exists>d. data = Some d \<and> is_encrypted d")
  case False
  then show ?thesis using assms by (auto simp: maybe_decrypt_def split: option.splits)
next
  case True
  then obtain d where d: "data = Some d" "is_encrypted d" by blast
  then obtain kid where kid: "read_key_id d = Inr kid" by (simp add: read_key_id_def)
  obtain m where m: "rt_dek_manager rt = Some m" using assms d by (auto simp: maybe_decrypt_def split: option.splits)
  obtain res m' where r: "dek_for_key_id S m kid = (res, m')" by fastforce
  obtain dek where dek: "res = Inr dek" using assms d kid m r by (cases res) (auto simp: maybe_decrypt_def)
  with assms d kid m r have "rt' = rt\<lparr>rt_dek_manager := Some m'\<rparr>"
    and "bindE (open_blob A K d (Some dek)) (\<lambda>p. Inr (Some p)) = Inr p" by (auto simp: maybe_decrypt_def)
  with dek_for_key_id_again [OF r [unfolded dek]] d kid show ?thesis by (simp add: maybe_decrypt_def)
qed

lemma store_download_again:
  assumes "store_download A K S C st container path w = (Inr (Some p), w')"
  shows "store_download A K S C st container path w' = (Inr (Some p), w')"
proof -
  let ?g = "s3_get_object C (store_bucket st container) (store_key st container path)"
  obtain body where b: "?g (bw_objects w) = Inr body"
    using assms by (cases "?g (bw_objects w)") (auto simp: store_download_def split: if_splits)
  obtain res rt where r: "maybe_decrypt A K S (Some body) (bw_runtime w) = (res, rt)" by fastforce
  with assms b have "res = Inr (Some p)" "w' = w\<lparr>bw_runtime := rt\<rparr>"
    by (auto simp: store_download_def split: sum.splits if_splits)
  with maybe_decrypt_again [of A K S "Some body" "bw_runtime w" "Some p" rt] r b
  show ?thesis by (simp add: store_download_def)
qed

lemma store_download_objects [simp]:
  "store_download A K S C st container path w = (res, w') \<Longrightarrow> bw_objects w' = bw_objects w"
  by (auto simp: store_download_def split: sum.splits prod.splits)

text \<open>The write-then-verify rail makes a returned upload readable, whatever the object store does.\<close>

lemma upload_then_download:
  assumes "is_write_enabled (bw_runtime w)" and "verify_readback_enabled (bw_runtime w)"
    and "or_else tenant_id (ss_tenant_id st) \<noteq> None"
    and "store_upload A K S C R st container path content metadata tenant_id w = (Inr info, w')"
  shows "fst (store_download A K S C st container path w') = Inr (Some content)"
proof -
  obtain res rt where me: "maybe_encrypt A K S R content (or_else tenant_id (ss_tenant_id st)) (bw_runtime w) = (res, rt)"
    by fastforce
  with assms(4) obtain stored enc where res: "res = Inr (stored, enc)"
    by (cases res) (auto simp: store_upload_def)
  have enc: "enc" "verify_readback_enabled rt"
    using me res assms(1-3)
    by (auto simp: maybe_encrypt_def rt_active_dek_def verify_readback_enabled_def
        split: option.splits prod.splits sum.splits)
  obtain hd obj where ph: "put_and_head C (store_bucket st container) (store_key st container path) stored metadata
      (bw_objects w) = (Inr hd, obj)"
    using assms(4) me res by (auto simp: store_upload_def split: prod.splits sum.splits)
  let ?w1 = "w\<lparr>bw_objects := obj, bw_runtime := rt\<rparr>"
  have "verify_upload A K S C st container path content ?w1 = (Inr (), w')"
    using assms(4) me res ph enc by (auto simp: store_upload_def Let_def split: prod.splits sum.splits)
  then have "store_download A K S C st container path ?w1 = (Inr (Some content), w')"
    by (auto simp: verify_upload_def split: prod.splits sum.splits if_splits)
  from store_download_again [OF this] show ?thesis by simp
qed

text \<open>
  Documented behaviour of the object store: a put that succeeds is visible to the next get and head
  and leaves other objects alone; a ranged get of a non-empty object is the slice of its bytes.
\<close>

definition s3_ok :: "'o s3_client \<Rightarrow> bool" where
  "s3_ok C \<longleftrightarrow>
     (\<forall>b k data md obj obj'. s3_put_object C b k data md obj = (Inr (), obj') \<longrightarrow>
        s3_get_object C b k obj' = Inr data
        \<and> (\<forall>b' k'. (b', k') \<noteq> (b, k) \<longrightarrow> s3_get_object C b' k' obj' = s3_get_object C b' k' obj))
     \<and> (\<forall>b k obj data. s3_get_object C b k obj = Inr data \<longrightarrow> data \<noteq> [] \<longrightarrow>
        (\<forall>i j. s3_get_range C b k i j obj = Inr (py_slice data i (Suc j))))"

lemma s3_putD:
  assumes "s3_ok C" and "s3_put_object C b k data md obj = (Inr (), obj')"
  shows "s3_get_object C b k obj' = Inr data"
    and "(b', k') \<noteq> (b, k) \<Longrightarrow> s3_get_object C b' k' obj' = s3_get_object C b' k' obj"
  using assms unfolding s3_ok_def by blast+

lemma s3_rangeD:
  "s3_ok C \<Longrightarrow> s3_get_object C b k obj = Inr data \<Longrightarrow> data \<noteq> [] \<Longrightarrow>
   s3_get_range C b k i j obj = Inr (py_slice data i (Suc j))"
  unfolding s3_ok_def by blast

lemma head_is_encrypted_spec:
  assumes "s3_ok C" and "s3_get_object C (store_bucket st c) (store_key st c p) obj = Inr data" and "data \<noteq> []"
  shows "head_is_encrypted C st c p obj = Inr (take 4 data = ENV_MAGIC)"
  using s3_rangeD [OF assms] by (simp add: head_is_encrypted_def py_slice_def min_def)

lemma is_encrypted_magic: "is_encrypted data \<Longrightarrow> data \<noteq> [] \<and> take 4 data = ENV_MAGIC"
  by (auto simp: is_encrypted_def py_slice_def)

text \<open>A blob the header probe takes for plaintext is read as it is stored.\<close>

lemma plaintext_download:
  assumes "s3_ok C" and "head_is_encrypted C st c p (bw_objects w) = Inr False"
    and "store_download A K S C st c p w = (Inr (Some content), w')"
  shows "w' = w \<and> s3_get_object C (store_bucket st c) (store_key st c p) (bw_objects w) = Inr content"
proof -
  let ?g = "s3_get_object C (store_bucket st c) (store_key st c p) (bw_objects w)"
  obtain body where b: "?g = Inr body"
    using assms(3) by (cases ?g) (auto simp: store_download_def split: if_splits)
  have "\<not> is_encrypted body"
    using is_encrypted_magic [of body] head_is_encrypted_spec [OF assms(1) b] assms(2) by auto
  with b assms(3) show ?thesis by (auto simp: store_download_def maybe_decrypt_def)
qed

lemma upload_puts:
  assumes "store_upload A K S C R st c p content md t w = (Inr info, w')"
  obtains stored enc rt obj where
    "maybe_encrypt A K S R content (or_else t (ss_tenant_id st)) (bw_runtime w) = (Inr (stored, enc), rt)"
    "s3_put_object C (store_bucket st c) (store_key st c p) stored (clean_metadata md) (bw_objects w) = (Inr (), obj)"
    "bw_objects w' = obj" "\<not> (enc \<and> verify_readback_enabled rt) \<Longrightarrow> bw_runtime w' = rt"
proof -
  obtain res rt where me: "maybe_encrypt A K S R content (or_else t (ss_tenant_id st)) (bw_runtime w) = (res, rt)"
    by fastforce
  with assms obtain stored enc where res: "res = Inr (stored, enc)"
    by (cases res) (auto simp: store_upload_def)
  obtain hd obj where ph: "put_and_head C (store_bucket st c) (store_key st c p) stored md (bw_objects w) = (Inr hd, obj)"
    using assms me res by (auto simp: store_upload_def split: prod.splits sum.splits)
  then have put: "s3_put_object C (store_bucket st c) (store_key st c p) stored (clean_metadata md) (bw_objects w) = (Inr (), obj)"
    by (auto simp: put_and_head_def split: prod.splits sum.splits)
  have "bw_objects w' = obj \<and> (\<not> (enc \<and> verify_readback_enabled rt) \<longrightarrow> bw_runtime w' = rt)"
  proof (cases "enc \<and> verify_readback_enabled rt")
    case True
    then have "verify_upload A K S C st c p content (w\<lparr>bw_objects := obj, bw_runtime := rt\<rparr>) = (Inr (), w')"
      using assms me res ph by (auto simp: store_upload_def Let_def split: prod.splits sum.splits)
    then show ?thesis using True
      by (auto simp: verify_upload_def split: prod.splits sum.splits if_splits dest: store_download_objects)
  next
    case False
    then show ?thesis using assms me res ph by (auto simp: store_upload_def Let_def)
  qed
  with that me res put show thesis by blast
qed

section \<open>Properties\<close>

text \<open>
  C9. Nothing unrecoverable is reported as stored. If an upload for a known tenant returns normally
  while encrypted writes and write-then-verify are on, then downloading the same blob right after
  returns exactly the uploaded content. This holds for an arbitrary object store, one that corrupts
  or drops the bytes it was given included.
\<close>

theorem verified_upload_recoverable:
  assumes "is_write_enabled (bw_runtime w)" and "verify_readback_enabled (bw_runtime w)"
    and "or_else tenant_id (ss_tenant_id st) \<noteq> None"
    and "store_upload A K S C R st container path content metadata tenant_id w = (Inr info, w')"
  shows "fst (store_download A K S C st container path w') = Inr (Some content)"
  by (rule upload_then_download [OF assms])

text \<open>A concrete object store for evaluated runs: a map from bucket and key to bytes.\<close>

type_synonym toy_objects = "string \<times> string \<Rightarrow> bytes option"

definition toy_get :: "string \<Rightarrow> string \<Rightarrow> toy_objects \<Rightarrow> bytes result" where
  "toy_get b k obj = (case obj (b, k) of None \<Rightarrow> Inl (ClientError ''NoSuchKey'' []) | Some d \<Rightarrow> Inr d)"

definition toy_s3 :: "toy_objects s3_client" where
  "toy_s3 = \<lparr>s3_put_object = (\<lambda>b k d md obj. (Inr (), obj((b, k) \<mapsto> d))),
     s3_head_object = (\<lambda>b k obj. bindE (toy_get b k obj)
       (\<lambda>d. Inr \<lparr>hd_content_length = length d, hd_etag = [], hd_last_modified = 0\<rparr>)),
     s3_get_object = toy_get,
     s3_get_range = (\<lambda>b k i j obj. bindE (toy_get b k obj)
       (\<lambda>d. if d = [] then Inl (ClientError ''InvalidRange'' []) else Inr (py_slice d i (Suc j)))),
     s3_delete_object = (\<lambda>b k obj. (Inr (), obj((b, k) := None)))\<rparr>"

lemma toy_s3_ok: "s3_ok toy_s3"
  by (simp add: s3_ok_def toy_s3_def toy_get_def)

definition toy_shard :: seaweed_store where
  "toy_shard = \<lparr>ss_backend_id = ''b'', ss_endpoint = ''http://s'', ss_buckets = [''sh''],
     ss_forced_bucket = Some ''sh'', ss_tenant_id = Some ''t''\<rparr>"

definition toy_world :: "(toy_objects, dek_table) blob_world" where
  "toy_world = \<lparr>bw_objects = [(''sh'', ''c/p'') \<mapsto> [1, 2, 3]],
     bw_runtime = configure (Some (DekManager toy_kek [])) True True\<rparr>"

lemma toy_keys:
  "store_bucket toy_shard ''c'' = ''sh''" "store_key toy_shard ''c'' p = ''c/'' @ p"
  by (simp_all add: store_bucket_def store_key_def or_else_def is_catalogue_def toy_shard_def)

lemma toy_upload:
  "\<exists>info w'. store_upload toy_aead toy_kdf SqlDekStore toy_s3 toy_randoms toy_shard ''c'' ''p'' [1, 2, 3] []
      (Some ''t'') toy_world = (Inr info, w')"
proof -
  have v: "sql.vault (DekManager toy_kek []) Map.empty" by (rule sql_vault_initial [OF toy_kek_ok])
  have len: "length (plain_chunks 1048576 [1, 2, 3 :: byte]) < MAX_CHUNKS" by (simp add: plain_chunks_def MAX_CHUNKS_def)
  obtain data rt1 where w: "maybe_encrypt toy_aead toy_kdf SqlDekStore toy_randoms [1, 2, 3] (Some ''t'')
      (configure (Some (DekManager toy_kek [])) True True) = (Inr (data, True), rt1)" using toy_write by blast
  from sql.maybe_encrypt_vault [OF toy_aead_correct toy_kdf_ok v _ _ toy_randoms_ok len w]
  obtain m1 V1 k dek where e: "rt_dek_manager rt1 = Some m1" "sql.vault m1 V1" "V1 k = Some dek" "is_encrypted data"
    "read_key_id data = Inr k" "decrypt_blob toy_aead toy_kdf data dek = Inr [1, 2, 3]"
    by (auto simp: configure_def)
  obtain rt2 where r: "maybe_decrypt toy_aead toy_kdf SqlDekStore (Some data) rt1 = (Inr (Some [1, 2, 3]), rt2)"
    using sql.maybe_decrypt_vault [OF e(2,3,1,4-6)] by (cases "maybe_decrypt toy_aead toy_kdf SqlDekStore (Some data) rt1") auto
  let ?w1 = "toy_world\<lparr>bw_objects := (bw_objects toy_world)((''sh'', ''c/p'') \<mapsto> data), bw_runtime := rt1\<rparr>"
  have "store_download toy_aead toy_kdf SqlDekStore toy_s3 toy_shard ''c'' ''p'' ?w1
      = (Inr (Some [1, 2, 3]), ?w1\<lparr>bw_runtime := rt2\<rparr>)"
    using r by (simp add: store_download_def toy_keys toy_s3_def toy_get_def)
  then show ?thesis
    using w by (simp add: store_upload_def toy_keys or_else_def toy_world_def put_and_head_def toy_s3_def toy_get_def
        verify_upload_def Let_def)
qed

theorem verified_upload_recoverable_witness:
  "\<exists>info w'. store_upload toy_aead toy_kdf SqlDekStore toy_s3 toy_randoms toy_shard ''c'' ''p'' [1, 2, 3] []
      (Some ''t'') toy_world = (Inr info, w')
    \<and> fst (store_download toy_aead toy_kdf SqlDekStore toy_s3 toy_shard ''c'' ''p'' w') = Inr (Some [1, 2, 3])"
proof -
  obtain info w' where u: "store_upload toy_aead toy_kdf SqlDekStore toy_s3 toy_randoms toy_shard ''c'' ''p'' [1, 2, 3] []
      (Some ''t'') toy_world = (Inr info, w')" using toy_upload by blast
  from verified_upload_recoverable [OF _ _ _ u] show ?thesis
    using u by (auto simp: toy_world_def configure_def is_write_enabled_def verify_readback_enabled_def or_else_def)
qed

text \<open>
  C10. The backfill is safe and makes progress. On an object store with the documented behaviour and
  with encrypted writes on, when \<open>reencrypt_blob\<close> reports \<open>encrypted\<close> the stored object is an envelope,
  downloading it returns exactly the bytes that were stored before, every other object is untouched
  and running it again reports \<open>skipped\<close>; with any other status no object has changed.
\<close>

theorem reencrypt_blob_safe:
  assumes "aead_correct A" and "kdf_ok K" and "s3_ok C" and "kek_ok kek" and "randoms_ok R" and "t \<noteq> []"
    and "(dek_step SqlDekStore)\<^sup>*\<^sup>* (DekManager kek []) m" and "rt_dek_manager (bw_runtime w) = Some m"
    and "rt_write_enabled (bw_runtime w)"
    and "\<forall>body. s3_get_object C (store_bucket st c) (store_key st c p) (bw_objects w) = Inr body \<longrightarrow>
           length (plain_chunks 1048576 body) < MAX_CHUNKS"
    and "reencrypt_blob A K SqlDekStore C R st c p t w = (Inr status, w')"
  shows "(status = ''encrypted'' \<longrightarrow>
      (\<exists>body stored. s3_get_object C (store_bucket st c) (store_key st c p) (bw_objects w) = Inr body
        \<and> s3_get_object C (store_bucket st c) (store_key st c p) (bw_objects w') = Inr stored \<and> is_encrypted stored
        \<and> fst (store_download A K SqlDekStore C st c p w') = Inr (Some body))
      \<and> (\<forall>b k. (b, k) \<noteq> (store_bucket st c, store_key st c p) \<longrightarrow>
           s3_get_object C b k (bw_objects w') = s3_get_object C b k (bw_objects w))
      \<and> reencrypt_blob A K SqlDekStore C R st c p t w' = (Inr ''skipped'', w'))
    \<and> (status \<noteq> ''encrypted'' \<longrightarrow> bw_objects w' = bw_objects w)"
proof (cases "status = ''encrypted''")
  case False
  then show ?thesis
    using assms(11)
    by (auto simp: reencrypt_blob_def split: sum.splits bool.splits prod.splits option.splits upload_outcome.splits
        dest: store_download_objects)
next
  case True
  have head: "head_is_encrypted C st c p (bw_objects w) = Inr False"
    using assms(11) True by (auto simp: reencrypt_blob_def split: sum.splits bool.splits)
  obtain body w1 info where dl: "store_download A K SqlDekStore C st c p w = (Inr (Some body), w1)"
    and up: "store_upload A K SqlDekStore C R st c p body [] (Some t) w1 = (Inr info, w')"
    using assms(11) True head
    by (auto simp: reencrypt_blob_def upload_blob_def split: prod.splits sum.splits option.splits)
  have w1: "w1 = w" and body: "s3_get_object C (store_bucket st c) (store_key st c p) (bw_objects w) = Inr body"
    using plaintext_download [OF assms(3) head dl] by auto
  have tid: "or_else (Some t) (ss_tenant_id st) = Some t" using assms(6) by (simp add: or_else_def)
  obtain V where V: "sql.vault m V"
    using sql.dek_steps_vault [OF assms(7) sql_vault_initial [OF assms(4)]] by blast
  from up obtain stored enc rt obj where
    me: "maybe_encrypt A K SqlDekStore R body (Some t) (bw_runtime w) = (Inr (stored, enc), rt)"
    and put: "s3_put_object C (store_bucket st c) (store_key st c p) stored (clean_metadata []) (bw_objects w) = (Inr (), obj)"
    and obj: "bw_objects w' = obj" and rt: "\<not> (enc \<and> verify_readback_enabled rt) \<Longrightarrow> bw_runtime w' = rt"
    unfolding w1 by (rule upload_puts) (use tid in auto)
  from sql.maybe_encrypt_vault [OF assms(1,2) V assms(8,9,5) _ me] assms(10) body
  obtain m1 V1 k dek where e: "enc" "rt_dek_manager rt = Some m1" "sql.vault m1 V1" "V1 k = Some dek"
    "is_encrypted stored" "read_key_id stored = Inr k" "decrypt_blob A K stored dek = Inr body" by auto
  have get: "s3_get_object C (store_bucket st c) (store_key st c p) (bw_objects w') = Inr stored"
    using s3_putD(1) [OF assms(3) put] obj by simp
  have flag: "verify_readback_enabled rt = verify_readback_enabled (bw_runtime w)"
    using me by (auto simp: maybe_encrypt_def rt_active_dek_def verify_readback_enabled_def
        split: if_splits option.splits prod.splits sum.splits)
  have read: "fst (store_download A K SqlDekStore C st c p w') = Inr (Some body)"
  proof (cases "verify_readback_enabled rt")
    case True
    show ?thesis
      by (rule upload_then_download [OF _ _ _ up])
        (use True flag tid assms(8,9) w1 in \<open>auto simp: is_write_enabled_def\<close>)
  next
    case False
    then have "bw_runtime w' = rt" using rt by blast
    moreover obtain rt2 where "maybe_decrypt A K SqlDekStore (Some stored) rt = (Inr (Some body), rt2)"
      using sql.maybe_decrypt_vault [OF e(3,4,2,5-7)] by (metis eq_fst_iff)
    ultimately show ?thesis using get by (simp add: store_download_def)
  qed
  have "reencrypt_blob A K SqlDekStore C R st c p t w' = (Inr ''skipped'', w')"
    using head_is_encrypted_spec [OF assms(3) get] is_encrypted_magic [OF e(5)] by (simp add: reencrypt_blob_def)
  then show ?thesis
    using True body get e(5) read s3_putD(2) [OF assms(3) put] obj by auto
qed

theorem reencrypt_blob_safe_witness:
  "\<exists>w'. reencrypt_blob toy_aead toy_kdf SqlDekStore toy_s3 toy_randoms toy_shard ''c'' ''p'' ''t'' toy_world
      = (Inr ''encrypted'', w')
    \<and> fst (store_download toy_aead toy_kdf SqlDekStore toy_s3 toy_shard ''c'' ''p'' w') = Inr (Some [1, 2, 3])"
proof -
  have head: "head_is_encrypted toy_s3 toy_shard ''c'' ''p'' (bw_objects toy_world) = Inr False"
    by (simp add: head_is_encrypted_def toy_keys toy_s3_def toy_get_def toy_world_def py_slice_def ENV_MAGIC_def)
  have dl: "store_download toy_aead toy_kdf SqlDekStore toy_s3 toy_shard ''c'' ''p'' toy_world = (Inr (Some [1, 2, 3]), toy_world)"
    by (simp add: store_download_def toy_keys toy_s3_def toy_get_def toy_world_def maybe_decrypt_def is_encrypted_def)
  obtain info w' where u: "store_upload toy_aead toy_kdf SqlDekStore toy_s3 toy_randoms toy_shard ''c'' ''p'' [1, 2, 3] []
      (Some ''t'') toy_world = (Inr info, w')" using toy_upload by blast
  have r: "reencrypt_blob toy_aead toy_kdf SqlDekStore toy_s3 toy_randoms toy_shard ''c'' ''p'' ''t'' toy_world
      = (Inr ''encrypted'', w')"
    by (simp add: reencrypt_blob_def upload_blob_def head dl u)
  have body: "s3_get_object toy_s3 (store_bucket toy_shard ''c'') (store_key toy_shard ''c'' ''p'') (bw_objects toy_world)
      = Inr [1, 2, 3]"
    by (simp add: toy_keys toy_s3_def toy_get_def toy_world_def)
  have "length (plain_chunks 1048576 [1, 2, 3 :: byte]) < MAX_CHUNKS" by (simp add: plain_chunks_def MAX_CHUNKS_def)
  with body have len: "\<forall>body. s3_get_object toy_s3 (store_bucket toy_shard ''c'') (store_key toy_shard ''c'' ''p'')
      (bw_objects toy_world) = Inr body \<longrightarrow> length (plain_chunks 1048576 body) < MAX_CHUNKS" by simp
  have rt: "rt_dek_manager (bw_runtime toy_world) = Some (DekManager toy_kek [])" "rt_write_enabled (bw_runtime toy_world)"
    by (simp_all add: toy_world_def configure_def)
  have "fst (store_download toy_aead toy_kdf SqlDekStore toy_s3 toy_shard ''c'' ''p'' w') = Inr (Some [1, 2, 3])"
    using reencrypt_blob_safe [OF toy_aead_correct toy_kdf_ok toy_s3_ok toy_kek_ok toy_randoms_ok _
        rtranclp.rtrancl_refl rt len r] body by (simp, blast)
  with r show ?thesis by blast
qed

text \<open>
  C38. The backfill takes any object that begins with the four magic bytes for an envelope. Such an
  object that is not one (too short, or another version byte) is reported \<open>skipped\<close> and stays stored
  in the clear, although the reader treats it as plaintext.
\<close>

theorem backfill_skips_magic_prefix:
  assumes "s3_ok C" and "s3_get_object C (store_bucket st c) (store_key st c p) (bw_objects w) = Inr data"
    and "take 4 data = ENV_MAGIC" and "\<not> is_encrypted data"
  shows "reencrypt_blob A K S C R st c p t w = (Inr ''skipped'', w)
    \<and> store_download A K S C st c p w = (Inr (Some data), w)"
proof -
  have "data \<noteq> []" using assms(3) by (auto simp: ENV_MAGIC_def)
  with head_is_encrypted_spec [OF assms(1,2)] assms(2-4) show ?thesis
    by (simp add: reencrypt_blob_def store_download_def maybe_decrypt_def)
qed

theorem backfill_skips_magic_prefix_witness:
  "fst (reencrypt_blob toy_aead toy_kdf SqlDekStore toy_s3 toy_randoms toy_shard ''c'' ''p'' ''t''
     (toy_world\<lparr>bw_objects := [(''sh'', ''c/p'') \<mapsto> ENV_MAGIC @ [9]]\<rparr>)) = Inr ''skipped''"
proof -
  have "s3_get_object toy_s3 (store_bucket toy_shard ''c'') (store_key toy_shard ''c'' ''p'')
      (bw_objects (toy_world\<lparr>bw_objects := [(''sh'', ''c/p'') \<mapsto> ENV_MAGIC @ [9]]\<rparr>)) = Inr (ENV_MAGIC @ [9])"
    by (simp add: toy_keys toy_s3_def toy_get_def)
  from backfill_skips_magic_prefix [OF toy_s3_ok this] show ?thesis
    by (simp add: ENV_MAGIC_def is_encrypted_def)
qed

lemma split_slash:
  assumes "c @ ''/'' @ p = c' @ ''/'' @ p'" and "CHR ''/'' \<notin> set c" and "CHR ''/'' \<notin> set c'"
  shows "c = c' \<and> p = p'"
  using assms
proof (induction c arbitrary: c')
  case Nil
  then show ?case by (cases c') auto
next
  case (Cons x c)
  then show ?case by (cases c') auto
qed

text \<open>
  C25. Blobs of a shard do not overwrite each other. On the store that \<open>shard_for\<close> returns, two blobs
  are kept under the same bucket and key only if they are the same container and path, for
  container names without a slash and a shard bucket outside the catalogue namespace.
\<close>

theorem shard_keys_injective:
  assumes "shard_for md5 st t r = Inr sh" and "\<forall>b\<in>set (ss_buckets st). b \<noteq> [] \<and> \<not> is_catalogue b"
    and "c \<noteq> []" and "c' \<noteq> []" and "CHR ''/'' \<notin> set c" and "CHR ''/'' \<notin> set c'"
    and "store_bucket sh c = store_bucket sh c'" and "store_key sh c p = store_key sh c' p'"
  shows "c = c' \<and> p = p'"
proof -
  let ?b = "ss_buckets st ! (md5 (t @ '':'' @ r) mod length (ss_buckets st))"
  have ne: "ss_buckets st \<noteq> []" and sh: "ss_forced_bucket sh = Some ?b"
    using assms(1) by (auto simp: shard_for_def Let_def SeaweedStore_def split: if_splits)
  have "?b \<in> set (ss_buckets st)" using ne by simp
  with assms(2) have b: "?b \<noteq> []" "\<not> is_catalogue ?b" by auto
  have bucket: "store_bucket sh x = (if is_catalogue x then x else ?b)"
    and key: "x \<noteq> [] \<Longrightarrow> store_key sh x q = (if is_catalogue x then q else x @ ''/'' @ q)" for x q
    using sh b by (auto simp: store_bucket_def store_key_def or_else_def)
  show ?thesis
  proof (cases "is_catalogue c")
    case True
    then have "c' = c" using assms(7) b(2) bucket [of c] bucket [of c'] by (cases "is_catalogue c'") simp_all
    with True show ?thesis using assms(8) key [OF assms(3), of p] key [OF assms(3), of p'] by simp
  next
    case False
    then have "\<not> is_catalogue c'"
      using assms(7) b(2) bucket [of c] bucket [of c'] by (cases "is_catalogue c'") simp_all
    with False have "c @ ''/'' @ p = c' @ ''/'' @ p'"
      using assms(8) key [OF assms(3), of p] key [OF assms(4), of p'] by simp
    with split_slash assms(5,6) show ?thesis by blast
  qed
qed

theorem shard_keys_injective_witness:
  "\<exists>sh. shard_for length (SeaweedStore ''b'' ''e'' [''x'', ''y'']) ''t'' ''r'' = Inr sh
    \<and> \<not> (store_bucket sh ''mail'' = store_bucket sh ''files'' \<and> store_key sh ''mail'' ''p'' = store_key sh ''files'' ''p'')"
proof -
  obtain sh where sh: "shard_for length (SeaweedStore ''b'' ''e'' [''x'', ''y'']) ''t'' ''r'' = Inr sh"
    by (simp add: shard_for_def SeaweedStore_def Let_def)
  from shard_keys_injective [OF sh, of "''mail''" "''files''" "''p''" "''p''"]
  have "\<not> (store_bucket sh ''mail'' = store_bucket sh ''files'' \<and> store_key sh ''mail'' ''p'' = store_key sh ''files'' ''p'')"
    by (auto simp: SeaweedStore_def is_catalogue_def)
  with sh show ?thesis by blast
qed

end
