(* ===== verification/Rows.thy ===== *)
theory Rows
  imports Prelude Complex_Main "HOL-Library.Product_Lexorder" "HOL-Library.List_Lexorder" "HOL-Library.Char_ord"
begin

text \<open>
  The database rows the scheduler, the retention sweep and the lease engine share
  (\<open>shared/models.py\<close>), with the columns those components read or write, timestamps, and the workload
  flags of a policy (\<open>shared/sla_workloads.py\<close>).

  Timestamps are microseconds since the epoch. A \<open>datetime\<close> is naive (taken as UTC, the convention of
  the database columns) or carries an offset. Hours are exact rationals.
\<close>

section \<open>Time\<close>

datatype datetime = Naive int | Aware int int   \<comment> \<open>local microseconds and UTC offset\<close>

type_synonym utc = int

definition SECOND :: int where
  "SECOND = 1000000"

definition hours_of :: "int \<Rightarrow> rat" where
  "hours_of us = of_int us / 3600000000"

section \<open>Enumerations\<close>

datatype job_type = BACKUP | RESTORE | EXPORT | DISCOVERY | DELETE

datatype job_status =
    J_QUEUED | J_PENDING | J_RUNNING | J_COMPLETED | J_PARTIAL | J_FAILED | J_CANCELLED | J_CANCELLING | J_RETRYING

datatype snapshot_status = S_IN_PROGRESS | S_COMPLETED | S_FAILED | S_PARTIAL | S_PENDING_DELETION | S_SKIPPED

datatype resource_status =
    R_DISCOVERED | R_ACTIVE | R_ARCHIVED | R_SUSPENDED | R_PENDING_DELETION | R_INACCESSIBLE

text \<open>The values of \<open>ResourceType\<close>, in declaration order.\<close>

definition RESOURCE_TYPES :: "string list" where
  "RESOURCE_TYPES =
     [''MAILBOX'', ''SHARED_MAILBOX'', ''ROOM_MAILBOX'', ''ONEDRIVE'', ''SHAREPOINT_SITE'', ''TEAMS_CHANNEL'',
      ''TEAMS_CHAT'', ''TEAMS_CHAT_EXPORT'', ''ENTRA_DIRECTORY'', ''ENTRA_USER'', ''ENTRA_GROUP'', ''M365_GROUP'',
      ''ENTRA_CONDITIONAL_ACCESS'', ''ENTRA_BITLOCKER_KEY'', ''ENTRA_APP'', ''ENTRA_SERVICE_PRINCIPAL'',
      ''ENTRA_DEVICE'', ''ENTRA_ROLE'', ''ENTRA_ADMIN_UNIT'', ''ENTRA_AUDIT_LOG'', ''INTUNE_MANAGED_DEVICE'',
      ''AZURE_VM'', ''AZURE_SQL_DB'', ''AZURE_POSTGRESQL'', ''AZURE_POSTGRESQL_SINGLE'', ''RESOURCE_GROUP'',
      ''DYNAMIC_GROUP'', ''POWER_BI'', ''POWER_APPS'', ''POWER_AUTOMATE'', ''POWER_DLP'', ''COPILOT'', ''PLANNER'',
      ''TODO'', ''ONENOTE'', ''USER_MAIL'', ''USER_ONEDRIVE'', ''USER_CONTACTS'', ''USER_CALENDAR'', ''USER_CHATS'',
      ''USER_ARCHIVE'']"

section \<open>Rows\<close>

text \<open>Scalars of a JSON column: their text by \<open>->>\<close> and their truth value in Python.\<close>

datatype json = JNull | JBool bool | JInt int | JString string

definition json_text :: "json \<Rightarrow> string option" where
  "json_text j =
     (case j of
        JNull \<Rightarrow> None
      | JBool b \<Rightarrow> Some (if b then ''true'' else ''false'')
      | JInt n \<Rightarrow> Some (if n < 0 then CHR ''-'' # str_nat (nat (- n)) else str_nat (nat n))
      | JString s \<Rightarrow> Some s)"

definition json_truthy :: "json \<Rightarrow> bool" where
  "json_truthy j =
     (case j of JNull \<Rightarrow> False | JBool b \<Rightarrow> b | JInt n \<Rightarrow> n \<noteq> 0 | JString s \<Rightarrow> s \<noteq> [])"

record resource =
  r_id :: string
  r_tenant_id :: string
  r_type :: string
  r_external_id :: string
  r_display_name :: string
  r_license_missing :: "json option"        \<comment> \<open>\<open>metadata.license_missing\<close>\<close>
  r_workspace_id :: "string option"         \<comment> \<open>\<open>metadata.workspace_id\<close>\<close>
  r_sla_policy_id :: "string option"
  r_status :: resource_status
  r_last_backup_at :: "datetime option"

record sla_policy =
  p_id :: string
  p_tenant_id :: string
  p_name :: string
  p_enabled :: bool
  p_frequency :: "string option"
  p_backup_days :: "string list option"
  p_backup_window_start :: "string option"
  p_backup_window_end :: "string option"
  p_max_concurrent_backups :: "int option"
  p_sla_violation_alert :: bool
  p_created_at :: "datetime option"
  p_flags :: "string \<Rightarrow> bool option"          \<comment> \<open>the workload checkboxes, by attribute name\<close>

record job_spec =
  sp_sla_policy_id :: "string option"
  sp_triggered_by :: "string option"
  sp_batch_id :: "string option"
  sp_wave :: "int option"
  sp_resource_type :: "string option"
  sp_full_backup :: bool
  sp_deferred_resource_ids :: "string list"
  sp_overlap_held_resource_ids :: "string list"
  sp_sla_skipped_resource_ids :: "string list"
  sp_queue :: "string option"

record job =
  j_id :: string
  j_type :: job_type
  j_tenant_id :: string
  j_resource_id :: "string option"
  j_batch_resource_ids :: "string list option"
  j_status :: job_status
  j_priority :: int
  j_spec :: job_spec
  j_created_at :: utc

record snapshot =
  s_id :: string
  s_resource_id :: string
  s_job_id :: "string option"
  s_status :: snapshot_status
  s_skipped_concurrent :: "string option"   \<comment> \<open>text of \<open>extra_data.skipped_concurrent\<close>\<close>

section \<open>Workload flags\<close>

definition RESOURCE_TYPE_TO_SLA_FLAG :: "string \<rightharpoonup> string" where
  "RESOURCE_TYPE_TO_SLA_FLAG = map_of
     [(''MAILBOX'', ''backup_exchange''), (''SHARED_MAILBOX'', ''backup_exchange''),
      (''ROOM_MAILBOX'', ''backup_exchange''), (''ONEDRIVE'', ''backup_onedrive''),
      (''SHAREPOINT_SITE'', ''backup_sharepoint''), (''TEAMS_CHANNEL'', ''backup_teams''),
      (''TEAMS_CHAT'', ''backup_teams_chats''), (''TEAMS_CHAT_EXPORT'', ''backup_teams_chats''),
      (''USER_MAIL'', ''backup_exchange''), (''USER_ARCHIVE'', ''backup_exchange_archive''),
      (''USER_ONEDRIVE'', ''backup_onedrive''), (''USER_CONTACTS'', ''contacts''),
      (''USER_CALENDAR'', ''calendars''), (''USER_CHATS'', ''backup_teams_chats''),
      (''ENTRA_DIRECTORY'', ''backup_entra_id''), (''ENTRA_USER'', ''backup_entra_id''),
      (''ENTRA_GROUP'', ''backup_entra_id''), (''ENTRA_APP'', ''backup_entra_id''),
      (''ENTRA_SERVICE_PRINCIPAL'', ''backup_entra_id''), (''ENTRA_DEVICE'', ''backup_entra_id''),
      (''ENTRA_ROLE'', ''backup_entra_id''), (''ENTRA_ADMIN_UNIT'', ''backup_entra_id''),
      (''ENTRA_AUDIT_LOG'', ''backup_entra_id''), (''ENTRA_CONDITIONAL_ACCESS'', ''backup_entra_id''),
      (''ENTRA_BITLOCKER_KEY'', ''backup_entra_id''), (''INTUNE_MANAGED_DEVICE'', ''backup_entra_id''),
      (''POWER_BI'', ''backup_power_platform''), (''POWER_APPS'', ''backup_power_platform''),
      (''POWER_AUTOMATE'', ''backup_power_platform''), (''POWER_DLP'', ''backup_power_platform''),
      (''COPILOT'', ''backup_copilot''), (''PLANNER'', ''planner''), (''TODO'', ''tasks''),
      (''ONENOTE'', ''backup_onedrive''), (''AZURE_VM'', ''backup_azure_vm''),
      (''AZURE_SQL_DB'', ''backup_azure_sql''), (''AZURE_POSTGRESQL'', ''backup_azure_postgresql''),
      (''AZURE_POSTGRESQL_SINGLE'', ''backup_azure_postgresql'')]"

definition SCHEDULER_IGNORED_TYPES :: "string set" where
  "SCHEDULER_IGNORED_TYPES = {''TEAMS_CHAT''}"

text \<open>\<open>bool(getattr(policy, name, default))\<close>\<close>

definition policy_flag :: "sla_policy \<Rightarrow> string \<Rightarrow> bool \<Rightarrow> bool" where
  "policy_flag policy name dflt = (case p_flags policy name of None \<Rightarrow> dflt | Some b \<Rightarrow> b)"

definition resource_type_enabled :: "string \<Rightarrow> sla_policy \<Rightarrow> bool" where
  "resource_type_enabled resource_type policy =
     (if resource_type \<in> SCHEDULER_IGNORED_TYPES then False
      else if resource_type = ''ENTRA_USER'' then
        policy_flag policy ''backup_entra_id'' False \<or> policy_flag policy ''contacts'' False
        \<or> policy_flag policy ''calendars'' False
      else if resource_type \<in> {''ENTRA_GROUP'', ''DYNAMIC_GROUP'', ''M365_GROUP''} then
        policy_flag policy ''backup_entra_id'' False \<or> policy_flag policy ''group_mailbox'' False
      else (case RESOURCE_TYPE_TO_SLA_FLAG resource_type of
          None \<Rightarrow> False
        | Some flag_name \<Rightarrow> policy_flag policy flag_name True))"

record sla_workload_skip =
  sk_resource_id :: string
  sk_resource_type :: string
  sk_policy_id :: "string option"
  sk_flag_name :: "string option"
  sk_reason :: string

text \<open>The maps are association lists in insertion order; keys are distinct.\<close>

fun filter_resource_map_by_policy_flags ::
    "(string \<times> resource) list \<Rightarrow> (string \<rightharpoonup> sla_policy) \<Rightarrow> (string \<times> resource) list \<times> sla_workload_skip list" where
  "filter_resource_map_by_policy_flags [] policies = ([], [])"
| "filter_resource_map_by_policy_flags ((rid, r) # rest) policies =
     (case filter_resource_map_by_policy_flags rest policies of
        (filtered, skipped) \<Rightarrow>
          let skip = \<lparr>sk_resource_id = rid, sk_resource_type = r_type r, sk_policy_id = r_sla_policy_id r,
                      sk_flag_name = RESOURCE_TYPE_TO_SLA_FLAG (r_type r), sk_reason = ''workload_disabled''\<rparr>
          in (case policies (case r_sla_policy_id r of None \<Rightarrow> [] | Some pid \<Rightarrow> pid) of
                None \<Rightarrow> (filtered, skip\<lparr>sk_reason := ''policy_not_found''\<rparr> # skipped)
              | Some policy \<Rightarrow>
                  if resource_type_enabled (r_type r) policy then ((rid, r) # filtered, skipped)
                  else (filtered, skip # skipped)))"

end
