(* ===== verification/Dispatch_Policy.thy ===== *)
theory Dispatch_Policy
  imports Rows
begin

text \<open>
  The pure dispatch decisions of \<open>services/backup-scheduler/dispatch_policy.py\<close>: cadence and the
  staleness horizon, the cycle window, the overlap decision, the concurrency budget, waves, SLA
  classification, and the SQL queries of in-flight and per-cycle work, written as functions on the
  lists of job, snapshot and resource rows.

  Environment variables are a map. \<open>float()\<close> of a string is the parameter \<open>py_float\<close>, of which
  nothing is assumed. A registered cron trigger is the parameter \<open>get_next_fire_time\<close>. The text of
  audit messages is left out; their counts and id lists are kept.
\<close>

section \<open>Cadence\<close>

definition FREQUENCY_INTERVAL_HOURS :: "string \<Rightarrow> rat option" where
  "FREQUENCY_INTERVAL_HOURS =
     map_of [(''THREE_DAILY'', 8), (''DAILY'', 24), (''WEEKLY'', 168), (''MONTHLY'', 720)]"

definition DEFAULT_INTERVAL_HOURS :: rat where
  "DEFAULT_INTERVAL_HOURS = 24"

definition MIN_STALE_AFTER_HOURS :: rat where
  "MIN_STALE_AFTER_HOURS = 24"

definition DEFAULT_STALE_MULTIPLIER :: rat where
  "DEFAULT_STALE_MULTIPLIER = 3"

text \<open>\<open>not frequency\<close> holds for \<open>None\<close> and the empty string.\<close>

definition frequency_interval_hours :: "string option \<Rightarrow> rat" where
  "frequency_interval_hours frequency =
     (case frequency of
        None \<Rightarrow> DEFAULT_INTERVAL_HOURS
      | Some key \<Rightarrow>
          if key = [] then DEFAULT_INTERVAL_HOURS
          else (case FREQUENCY_INTERVAL_HOURS (py_upper key) of
                  None \<Rightarrow> DEFAULT_INTERVAL_HOURS | Some h \<Rightarrow> h))"

definition stale_multiplier_from_env :: "(string \<Rightarrow> rat option) \<Rightarrow> environ \<Rightarrow> rat" where
  "stale_multiplier_from_env py_float env =
     (case py_float (case env ''BACKUP_OVERLAP_STALE_MULT'' of None \<Rightarrow> [] | Some raw \<Rightarrow> raw) of
        None \<Rightarrow> DEFAULT_STALE_MULTIPLIER
      | Some v \<Rightarrow> if v > 0 then v else DEFAULT_STALE_MULTIPLIER)"

definition overlap_stale_after_hours ::
    "(string \<Rightarrow> rat option) \<Rightarrow> environ \<Rightarrow> string option \<Rightarrow> rat option \<Rightarrow> rat" where
  "overlap_stale_after_hours py_float env frequency multiplier =
     max (frequency_interval_hours frequency
            * (case multiplier of None \<Rightarrow> stale_multiplier_from_env py_float env | Some m \<Rightarrow> m))
         MIN_STALE_AFTER_HOURS"

text \<open>The shape of both escape hatches: any value but \<open>off\<close>, \<open>0\<close>, \<open>false\<close>, \<open>no\<close> leaves it on.\<close>

definition env_switch :: "environ \<Rightarrow> string \<Rightarrow> bool" where
  "env_switch env name =
     (py_lower (py_strip (case env name of None \<Rightarrow> ''on'' | Some v \<Rightarrow> v))
        \<notin> {''off'', ''0'', ''false'', ''no''})"

definition overlap_guard_enabled :: "environ \<Rightarrow> bool" where
  "overlap_guard_enabled env = env_switch env ''BACKUP_OVERLAP_GUARD''"

section \<open>Drain settings and the cycle window\<close>

definition DRAIN_TICK_DEFAULT_S :: int where
  "DRAIN_TICK_DEFAULT_S = 120"

definition DRAIN_TICK_MIN_S :: int where
  "DRAIN_TICK_MIN_S = 30"

definition DRAIN_CYCLE_GRACE_S :: int where
  "DRAIN_CYCLE_GRACE_S = 300"

definition DRAIN_MIN_WAVE_FRACTION :: rat where
  "DRAIN_MIN_WAVE_FRACTION = 1 / 5"

definition drain_enabled :: "environ \<Rightarrow> bool" where
  "drain_enabled env = env_switch env ''BACKUP_CYCLE_DRAIN''"

definition drain_tick_seconds :: "environ \<Rightarrow> int" where
  "drain_tick_seconds env =
     (case py_int (case env ''BACKUP_DRAIN_TICK_S'' of None \<Rightarrow> [] | Some raw \<Rightarrow> raw) of
        None \<Rightarrow> DRAIN_TICK_DEFAULT_S
      | Some v \<Rightarrow> max DRAIN_TICK_MIN_S v)"

record cycle_window =
  cw_start :: utc
  cw_end :: utc

definition naive_utc :: "datetime option \<Rightarrow> utc option" where
  "naive_utc v = (case v of None \<Rightarrow> None | Some (Naive t) \<Rightarrow> Some t | Some (Aware t off) \<Rightarrow> Some (t - off))"

definition aware_utc :: "datetime \<Rightarrow> utc" where
  "aware_utc v = (case v of Naive t \<Rightarrow> t | Aware t off \<Rightarrow> t - off)"

text \<open>The bounded scan for the latest fire: one second past each fire found, at most \<open>n\<close> times.\<close>

fun scan_fires :: "nat \<Rightarrow> (utc \<Rightarrow> utc option) \<Rightarrow> utc \<Rightarrow> utc \<Rightarrow> utc option \<Rightarrow> utc option" where
  "scan_fires 0 get_next_fire_time now probe start = start"
| "scan_fires (Suc n) get_next_fire_time now probe start =
     (case get_next_fire_time probe of
        None \<Rightarrow> start
      | Some nxt \<Rightarrow>
          if nxt > now then start
          else scan_fires n get_next_fire_time now (nxt + SECOND) (Some nxt))"

definition LOOKBACK :: int where
  "LOOKBACK = 192 * 3600 * SECOND"

definition cycle_window_from_trigger :: "(utc \<Rightarrow> utc option) \<Rightarrow> datetime \<Rightarrow> cycle_window option" where
  "cycle_window_from_trigger get_next_fire_time now =
     (let now_aware = aware_utc now
      in (case scan_fires 512 get_next_fire_time now_aware (now_aware - LOOKBACK) None of
            None \<Rightarrow> None
          | Some start \<Rightarrow>
              (case get_next_fire_time (start + SECOND) of
                 None \<Rightarrow> None
               | Some fin \<Rightarrow> if fin \<le> start then None else Some \<lparr>cw_start = start, cw_end = fin\<rparr>)))"

definition cycle_is_drainable :: "cycle_window \<Rightarrow> datetime \<Rightarrow> int \<Rightarrow> bool" where
  "cycle_is_drainable window now grace_seconds \<longleftrightarrow>
     cw_start window + grace_seconds * SECOND \<le> aware_utc now \<and> aware_utc now < cw_end window"

text \<open>\<open>_minutes\<close>: fewer than two parts or a part that is no integer raises \<open>ValueError\<close>.\<close>

definition window_minutes :: "string \<Rightarrow> int option" where
  "window_minutes raw =
     (case py_split CHR '':'' (py_strip raw) of
        hh # mm # _ \<Rightarrow>
          (case (py_int hh, py_int mm) of (Some h, Some m) \<Rightarrow> Some (h * 60 + m) | _ \<Rightarrow> None)
      | _ \<Rightarrow> None)"

definition minute_of_day :: "utc \<Rightarrow> int" where
  "minute_of_day t = (t div (60 * SECOND)) mod 1440"

definition within_backup_window :: "datetime \<Rightarrow> string option \<Rightarrow> string option \<Rightarrow> bool" where
  "within_backup_window now window_start window_end =
     (case window_end of
        None \<Rightarrow> True
      | Some we \<Rightarrow>
          if we = [] then True
          else (case (window_minutes we,
                      (case window_start of
                         None \<Rightarrow> Some 0 | Some ws \<Rightarrow> if ws = [] then Some 0 else window_minutes ws)) of
                  (Some end_m, Some start_m) \<Rightarrow>
                    let cur = minute_of_day (aware_utc now)
                    in if start_m \<le> end_m then start_m \<le> cur \<and> cur < end_m else cur \<ge> start_m \<or> cur < end_m
                | _ \<Rightarrow> True))"

section \<open>Waves\<close>

text \<open>\<open>int(x)\<close> of a float truncates toward zero.\<close>

definition trunc :: "rat \<Rightarrow> int" where
  "trunc x = (if 0 \<le> x then \<lfloor>x\<rfloor> else \<lceil>x\<rceil>)"

definition wave_floor :: "nat \<Rightarrow> int \<Rightarrow> rat \<Rightarrow> int" where
  "wave_floor n max_concurrent min_fraction = max 1 (trunc (of_int (min (int n) max_concurrent) * min_fraction))"

definition plan_wave :: "'r list \<Rightarrow> int \<Rightarrow> int \<Rightarrow> rat \<Rightarrow> 'r list" where
  "plan_wave remaining budget max_concurrent min_fraction =
     (if budget \<le> 0 \<or> remaining = [] then []
      else if int (length remaining) \<le> budget then remaining
      else if budget < wave_floor (length remaining) max_concurrent min_fraction then []
      else take (nat budget) remaining)"

section \<open>Overlap and budget\<close>

datatype overlap_action = DISPATCH | SKIP | OVERRIDE | PARTIAL

definition decide_overlap_action :: "int \<Rightarrow> datetime option \<Rightarrow> datetime \<Rightarrow> rat \<Rightarrow> bool \<Rightarrow> overlap_action" where
  "decide_overlap_action inflight_jobs oldest_created_at now stale_after_hours guard_enabled =
     (if \<not> guard_enabled then DISPATCH
      else if inflight_jobs \<le> 0 then DISPATCH
      else (case naive_utc oldest_created_at of
              None \<Rightarrow> SKIP
            | Some oldest \<Rightarrow>
                if hours_of (aware_utc now - oldest) > stale_after_hours then OVERRIDE else SKIP))"

text \<open>Naive timestamps are UTC, so \<open>ts.timestamp()\<close> orders like the microseconds.\<close>

definition backup_priority_key :: "resource \<Rightarrow> nat \<times> int \<times> string" where
  "backup_priority_key r =
     (case naive_utc (r_last_backup_at r) of
        None \<Rightarrow> (0, 0, r_id r)
      | Some ts \<Rightarrow> (1, ts, r_id r))"

definition partition_overlap_holds :: "resource list \<Rightarrow> string set \<Rightarrow> resource list \<times> resource list" where
  "partition_overlap_holds resources inflight_ids =
     (filter (\<lambda>r. r_id r \<notin> inflight_ids) resources, filter (\<lambda>r. r_id r \<in> inflight_ids) resources)"

definition plan_concurrency_budget :: "resource list \<Rightarrow> int \<Rightarrow> int \<Rightarrow> resource list \<times> resource list" where
  "plan_concurrency_budget resources max_concurrent inflight_resources =
     (if max_concurrent \<le> 0 then (resources, [])
      else let budget = max 0 (max_concurrent - max 0 inflight_resources)
           in if budget \<ge> int (length resources) then (resources, [])
              else let ordered = sort_key backup_priority_key resources
                   in (take (nat budget) ordered, drop (nat budget) ordered))"

section \<open>Queries over the job and snapshot tables\<close>

definition job_live :: "job \<Rightarrow> bool" where
  "job_live j \<longleftrightarrow> j_type j = BACKUP \<and> j_status j \<in> {J_QUEUED, J_RUNNING}"

text \<open>\<open>count(id)\<close> and \<open>min(created_at)\<close>; the minimum of no rows is \<open>NULL\<close>.\<close>

definition scheduled_inflight_query :: "string \<Rightarrow> job list \<Rightarrow> int \<times> datetime option" where
  "scheduled_inflight_query policy_id jobs =
     (let rows = filter (\<lambda>j. job_live j \<and> sp_sla_policy_id (j_spec j) = Some policy_id
                             \<and> sp_triggered_by (j_spec j) = Some ''SCHEDULED'') jobs
      in (int (length rows),
          if rows = [] then None else Some (Naive (Min (set (map j_created_at rows))))))"

definition SNAPSHOT_TERMINAL_STATUSES :: "snapshot_status list" where
  "SNAPSHOT_TERMINAL_STATUSES = [S_COMPLETED, S_PARTIAL, S_FAILED, S_SKIPPED]"

definition snapshot_is_placeholder :: "snapshot \<Rightarrow> bool" where
  "snapshot_is_placeholder s \<longleftrightarrow>
     (case s_skipped_concurrent s of None \<Rightarrow> ''false'' | Some v \<Rightarrow> v) \<in> {''true'', ''t'', ''1''}"

text \<open>One row per member: the unnested batch ids of every job, then the single resource ids.\<close>

type_synonym member = "string \<times> job_status \<times> string"

definition inflight_jobs_of :: "string option \<Rightarrow> job list \<Rightarrow> job list" where
  "inflight_jobs_of policy_id jobs =
     filter (\<lambda>j. job_live j \<and> (policy_id = None \<or> sp_sla_policy_id (j_spec j) = policy_id)) jobs"

definition inflight_members :: "string option \<Rightarrow> job list \<Rightarrow> member list" where
  "inflight_members policy_id jobs =
     concat (map (\<lambda>j. case j_batch_resource_ids j of
                        None \<Rightarrow> [] | Some ids \<Rightarrow> map (\<lambda>r. (j_id j, j_status j, r)) ids)
               (inflight_jobs_of policy_id jobs))
     @ concat (map (\<lambda>j. case j_resource_id j of None \<Rightarrow> [] | Some r \<Rightarrow> [(j_id j, j_status j, r)])
               (inflight_jobs_of policy_id jobs))"

definition live_snapshot :: "snapshot list \<Rightarrow> string \<Rightarrow> string \<Rightarrow> bool" where
  "live_snapshot snaps jid rid \<longleftrightarrow>
     (\<exists>s\<in>set snaps. s_job_id s = Some jid \<and> s_resource_id s = rid \<and> s_status s = S_IN_PROGRESS
        \<and> \<not> snapshot_is_placeholder s)"

definition settled_snapshot :: "snapshot list \<Rightarrow> string \<Rightarrow> string \<Rightarrow> bool" where
  "settled_snapshot snaps jid rid \<longleftrightarrow>
     (\<exists>s\<in>set snaps. s_job_id s = Some jid \<and> s_resource_id s = rid
        \<and> (s_status s \<in> set SNAPSHOT_TERMINAL_STATUSES \<or> snapshot_is_placeholder s))"

definition member_in_flight :: "snapshot list \<Rightarrow> member \<Rightarrow> bool" where
  "member_in_flight snaps m =
     (case m of (jid, st, rid) \<Rightarrow>
        st = J_QUEUED \<or> live_snapshot snaps jid rid \<or> \<not> settled_snapshot snaps jid rid)"

definition inflight_resource_count_query :: "string \<Rightarrow> job list \<Rightarrow> snapshot list \<Rightarrow> nat" where
  "inflight_resource_count_query policy_id jobs snaps =
     length (remdups (map (\<lambda>(_, _, r). r) (filter (member_in_flight snaps) (inflight_members (Some policy_id) jobs))))"

definition inflight_resource_ids_query :: "job list \<Rightarrow> snapshot list \<Rightarrow> string list" where
  "inflight_resource_ids_query jobs snaps =
     remdups (map (\<lambda>(_, _, r). r) (filter (member_in_flight snaps) (inflight_members None jobs)))"

definition cycle_scheduled_jobs_filter :: "string \<Rightarrow> utc \<Rightarrow> job \<Rightarrow> bool" where
  "cycle_scheduled_jobs_filter policy_id since j \<longleftrightarrow>
     j_type j = BACKUP \<and> sp_sla_policy_id (j_spec j) = Some policy_id
     \<and> sp_triggered_by (j_spec j) = Some ''SCHEDULED'' \<and> j_created_at j \<ge> since"

definition cycle_dispatched_ids_query :: "string \<Rightarrow> utc \<Rightarrow> job list \<Rightarrow> string list" where
  "cycle_dispatched_ids_query policy_id since jobs =
     remdups (concat (map (\<lambda>j. case j_batch_resource_ids j of None \<Rightarrow> [] | Some ids \<Rightarrow> ids)
                (filter (cycle_scheduled_jobs_filter policy_id since) jobs)))"

text \<open>\<open>ORDER BY created_at LIMIT 1\<close>: no row, or the batch id of the earliest, which may be \<open>NULL\<close>.\<close>

definition cycle_batch_id_query :: "string \<Rightarrow> utc \<Rightarrow> job list \<Rightarrow> string option" where
  "cycle_batch_id_query policy_id since jobs =
     (case sort_key j_created_at (filter (cycle_scheduled_jobs_filter policy_id since) jobs) of
        [] \<Rightarrow> None | j # _ \<Rightarrow> sp_batch_id (j_spec j))"

definition cycle_max_wave_query :: "string \<Rightarrow> utc \<Rightarrow> job list \<Rightarrow> int" where
  "cycle_max_wave_query policy_id since jobs =
     (let waves = List.map_filter (\<lambda>j. sp_wave (j_spec j)) (filter (cycle_scheduled_jobs_filter policy_id since) jobs)
      in if waves = [] then 0 else Max (set waves))"

definition drainable_policies_query :: "sla_policy list \<Rightarrow> string list" where
  "drainable_policies_query policies =
     map p_id (filter (\<lambda>p. p_enabled p \<and> (case p_frequency p of None \<Rightarrow> False | Some f \<Rightarrow> f \<noteq> ''MANUAL'')
                 \<and> (case p_max_concurrent_backups p of None \<Rightarrow> False | Some n \<Rightarrow> n > 0)) policies)"

definition dispatchable :: "resource \<Rightarrow> bool" where
  "dispatchable r \<longleftrightarrow> r_status r \<in> {R_DISCOVERED, R_ACTIVE}"

definition sla_skipped_ids_query :: "string \<Rightarrow> string list \<Rightarrow> resource list \<Rightarrow> string list" where
  "sla_skipped_ids_query policy_id enabled_types resources =
     map r_id (filter (\<lambda>r. r_sla_policy_id r = Some policy_id \<and> dispatchable r
                 \<and> r_type r \<notin> set enabled_types) resources)"

text \<open>\<open>ORDER BY last_backup_at NULLS FIRST, id\<close> is the order of \<open>backup_priority_key\<close>.\<close>

definition drain_candidates_query ::
    "string \<Rightarrow> utc \<Rightarrow> string list \<Rightarrow> job list \<Rightarrow> resource list \<Rightarrow> resource list" where
  "drain_candidates_query policy_id since enabled_types jobs resources =
     sort_key backup_priority_key
       (filter (\<lambda>r. r_sla_policy_id r = Some policy_id \<and> dispatchable r \<and> r_type r \<in> set enabled_types
                  \<and> r_type r \<noteq> ''POWER_BI''
                  \<and> (case Option.bind (r_license_missing r) json_text of None \<Rightarrow> ''false'' | Some v \<Rightarrow> v) \<noteq> ''true''
                  \<and> r_id r \<notin> set (cycle_dispatched_ids_query policy_id since jobs)) resources)"

section \<open>SLA classification\<close>

definition SLA_UNSCHEDULED_FREQUENCIES :: "string set" where
  "SLA_UNSCHEDULED_FREQUENCIES = {''MANUAL''}"

definition policy_has_sla_cadence :: "string option \<Rightarrow> bool" where
  "policy_has_sla_cadence frequency =
     (case frequency of
        None \<Rightarrow> False
      | Some key \<Rightarrow> key \<noteq> [] \<and> py_upper key \<notin> SLA_UNSCHEDULED_FREQUENCIES)"

datatype severity = CRITICAL | WARNING

definition classify_sla_violation :: "rat option \<Rightarrow> rat \<Rightarrow> bool \<Rightarrow> bool \<Rightarrow> severity option" where
  "classify_sla_violation hours_since_backup frequency_hours never_backed_up backup_in_progress =
     (if never_backed_up then Some (if backup_in_progress then WARNING else CRITICAL)
      else (case hours_since_backup of
              None \<Rightarrow> None
            | Some h \<Rightarrow>
                if h \<le> frequency_hours then None
                else if backup_in_progress then Some WARNING
                else Some (if h > frequency_hours * 2 then CRITICAL else WARNING)))"

text \<open>A violation row of the check, with \<open>fmt1\<close> the format \<open>:.1f\<close>.\<close>

record sla_violation =
  v_resource_id :: string
  v_tenant_id :: string
  v_resource_type :: string
  v_policy_id :: string
  v_never_backed_up :: bool
  v_backup_in_progress :: bool
  v_hours_overdue :: "rat option"
  v_severity :: severity

definition sla_alert_message :: "(rat \<Rightarrow> string) \<Rightarrow> sla_violation \<Rightarrow> string" where
  "sla_alert_message fmt1 v =
     (let rtype = (if v_resource_type v = [] then ''resource'' else v_resource_type v);
          suffix = (if v_backup_in_progress v then '' (backup currently in progress)'' else [])
      in if v_never_backed_up v then ''SLA violation: '' @ rtype @ '' resource has never been backed up'' @ suffix
         else (case v_hours_overdue v of
                 None \<Rightarrow> ''SLA violation: '' @ rtype @ '' resource is overdue'' @ suffix
               | Some overdue \<Rightarrow>
                   ''SLA violation: '' @ rtype @ '' resource overdue by '' @ fmt1 overdue @ '' hours'' @ suffix))"

section \<open>Audit payloads\<close>

text \<open>The machine-readable fields; the message text and the rounded age are left out.\<close>

record resource_ref =
  rf_id :: string
  rf_type :: string
  rf_name :: string

definition resource_ref_of :: "resource \<Rightarrow> resource_ref" where
  "resource_ref_of r = \<lparr>rf_id = r_id r, rf_type = r_type r, rf_name = r_display_name r\<rparr>"

record audit_details =
  ad_skip_reason :: string
  ad_policy_id :: string
  ad_policy_name :: string
  ad_resource_ids :: "string list"
  ad_resources :: "resource_ref list"

definition audit_base :: "string \<Rightarrow> sla_policy \<Rightarrow> resource list \<Rightarrow> audit_details" where
  "audit_base reason policy rs =
     \<lparr>ad_skip_reason = reason, ad_policy_id = p_id policy, ad_policy_name = p_name policy,
      ad_resource_ids = map r_id rs, ad_resources = map resource_ref_of rs\<rparr>"

record deferred_details = audit_details +
  dd_max_concurrent_backups :: int
  dd_inflight_resources :: int
  dd_dispatched_count :: nat
  dd_deferred_count :: nat

definition deferred_audit_details ::
    "sla_policy \<Rightarrow> resource list \<Rightarrow> int \<Rightarrow> int \<Rightarrow> nat \<Rightarrow> deferred_details" where
  "deferred_audit_details policy deferred max_concurrent inflight_resources dispatched =
     audit_details.extend (audit_base ''concurrency_cap'' policy deferred)
       \<lparr>dd_max_concurrent_backups = max_concurrent, dd_inflight_resources = inflight_resources,
        dd_dispatched_count = dispatched, dd_deferred_count = length deferred\<rparr>"

record overlap_details = audit_details +
  od_action :: overlap_action
  od_inflight_jobs :: int
  od_inflight_oldest_at :: "utc option"
  od_held_count :: nat
  od_dispatched_count :: nat
  od_stale_after_hours :: "rat option"

definition overlap_partial_audit_details ::
    "sla_policy \<Rightarrow> resource list \<Rightarrow> int \<Rightarrow> datetime option \<Rightarrow> nat \<Rightarrow> overlap_details" where
  "overlap_partial_audit_details policy held inflight_jobs oldest_created_at dispatched =
     audit_details.extend (audit_base ''cycle_overlap'' policy held)
       \<lparr>od_action = PARTIAL, od_inflight_jobs = inflight_jobs, od_inflight_oldest_at = naive_utc oldest_created_at,
        od_held_count = length held, od_dispatched_count = dispatched, od_stale_after_hours = None\<rparr>"

definition overlap_audit_details ::
    "sla_policy \<Rightarrow> overlap_action \<Rightarrow> int \<Rightarrow> datetime option \<Rightarrow> rat \<Rightarrow> overlap_details" where
  "overlap_audit_details policy action inflight_jobs oldest_created_at stale_after_hours =
     audit_details.extend (audit_base ''cycle_overlap'' policy [])
       \<lparr>od_action = action, od_inflight_jobs = inflight_jobs, od_inflight_oldest_at = naive_utc oldest_created_at,
        od_held_count = 0, od_dispatched_count = 0, od_stale_after_hours = Some stale_after_hours\<rparr>"

record wave_details =
  wd_policy_id :: string
  wd_policy_name :: string
  wd_batch_id :: string
  wd_wave :: int
  wd_dispatched_count :: nat
  wd_remaining_count :: nat
  wd_held_count :: nat
  wd_inflight_resources :: int
  wd_max_concurrent_backups :: int
  wd_started_cycle :: bool

definition wave_audit_details ::
    "sla_policy \<Rightarrow> string \<Rightarrow> int \<Rightarrow> nat \<Rightarrow> nat \<Rightarrow> nat \<Rightarrow> int \<Rightarrow> int \<Rightarrow> bool \<Rightarrow> wave_details" where
  "wave_audit_details policy batch_id wave dispatched remaining held inflight_resources max_concurrent started_cycle =
     \<lparr>wd_policy_id = p_id policy, wd_policy_name = p_name policy, wd_batch_id = batch_id, wd_wave = wave,
      wd_dispatched_count = dispatched, wd_remaining_count = remaining, wd_held_count = held,
      wd_inflight_resources = inflight_resources, wd_max_concurrent_backups = max_concurrent,
      wd_started_cycle = started_cycle\<rparr>"

record incomplete_details = audit_details +
  in_batch_id :: "string option"
  in_window_end :: utc
  in_remaining_count :: nat
  in_held_count :: nat

text \<open>At most \<open>max_ids = 200\<close> resources are listed; the counts are complete.\<close>

definition cycle_incomplete_audit_details ::
    "sla_policy \<Rightarrow> resource list \<Rightarrow> string option \<Rightarrow> utc \<Rightarrow> nat \<Rightarrow> resource list \<Rightarrow> incomplete_details" where
  "cycle_incomplete_audit_details policy remaining batch_id window_end max_ids held =
     audit_details.extend (audit_base ''cycle_incomplete'' policy (take max_ids remaining))
       \<lparr>in_batch_id = batch_id, in_window_end = window_end, in_remaining_count = length remaining,
        in_held_count = length held\<rparr>"

section \<open>Splitting a tick's resources\<close>

lemma partition_overlap_holds_spec:
  assumes "partition_overlap_holds rs ids = (now, held)"
  shows "mset now + mset held = mset rs" "\<forall>r\<in>set now. r_id r \<notin> ids" "\<forall>r\<in>set held. r_id r \<in> ids"
  using assms multiset_partition [of "mset rs" "\<lambda>r. r_id r \<notin> ids"]
  by (auto simp: partition_overlap_holds_def)

lemma sort_key_take_drop:
  assumes "x \<in> set (take n (sort_key k xs))" and "y \<in> set (drop n (sort_key k xs))"
  shows "k x \<le> k y"
proof -
  have "sorted (map k (take n (sort_key k xs) @ drop n (sort_key k xs)))" by simp
  then show ?thesis using assms by (auto simp only: map_append sorted_append set_map)
qed

lemma plan_budget_length:
  assumes "plan_concurrency_budget rs cap inflight = (now, deferred)" and "0 < cap"
  shows "int (length now) \<le> max 0 (cap - max 0 inflight)"
  using assms by (auto simp: plan_concurrency_budget_def Let_def split: if_splits)

lemma plan_budget_mset:
  "plan_concurrency_budget rs cap inflight = (now, deferred) \<Longrightarrow> mset now + mset deferred = mset rs"
  by (auto simp: plan_concurrency_budget_def Let_def mset_append [symmetric] simp del: mset_append split: if_splits)

text \<open>
  C27. The concurrency budget. \<open>plan_concurrency_budget\<close> loses and duplicates nothing, never lets the
  dispatched resources exceed the free slots of a positive cap, defers only when every free slot is
  used, and dispatches by priority: each dispatched resource comes before each deferred one (never
  backed up first, then the oldest backup, then the id).
\<close>

theorem plan_concurrency_budget_spec:
  assumes "plan_concurrency_budget rs cap inflight = (now, deferred)"
  shows "mset now + mset deferred = mset rs
    \<and> (0 < cap \<longrightarrow> int (length now) \<le> max 0 (cap - max 0 inflight))
    \<and> (deferred \<noteq> [] \<longrightarrow> 0 < cap \<and> int (length now) = max 0 (cap - max 0 inflight))
    \<and> (\<forall>x\<in>set now. \<forall>y\<in>set deferred. backup_priority_key x \<le> backup_priority_key y)"
proof (intro conjI impI)
  show "mset now + mset deferred = mset rs" by (rule plan_budget_mset [OF assms])
  show "int (length now) \<le> max 0 (cap - max 0 inflight)" if "0 < cap" by (rule plan_budget_length [OF assms that])
  show "\<forall>x\<in>set now. \<forall>y\<in>set deferred. backup_priority_key x \<le> backup_priority_key y"
    using assms by (auto simp: plan_concurrency_budget_def Let_def split: if_splits intro: sort_key_take_drop)
  assume d: "deferred \<noteq> []"
  then show "0 < cap" using assms by (auto simp: plan_concurrency_budget_def split: if_splits)
  show "int (length now) = max 0 (cap - max 0 inflight)"
    using assms d by (auto simp: plan_concurrency_budget_def Let_def split: if_splits)
qed

text \<open>A resource row for the concrete runs below: licensed, active, under policy \<open>gold\<close>.\<close>

definition sample_resource :: "string \<Rightarrow> string \<Rightarrow> datetime option \<Rightarrow> resource" where
  "sample_resource rid rtype last_at =
     \<lparr>r_id = rid, r_tenant_id = ''t1'', r_type = rtype, r_external_id = rid, r_display_name = rid,
      r_license_missing = None, r_workspace_id = None, r_sla_policy_id = Some ''gold'',
      r_status = R_ACTIVE, r_last_backup_at = last_at\<rparr>"

theorem plan_concurrency_budget_spec_witness:
  "\<exists>now deferred.
     plan_concurrency_budget
       [sample_resource ''a'' ''MAILBOX'' (Some (Naive 7)), sample_resource ''b'' ''MAILBOX'' None] 3 2 = (now, deferred)
     \<and> map r_id now = [''b''] \<and> map r_id deferred = [''a'']
     \<and> (\<forall>x\<in>set now. \<forall>y\<in>set deferred. backup_priority_key x \<le> backup_priority_key y)"
proof -
  let ?rs = "[sample_resource ''a'' ''MAILBOX'' (Some (Naive 7)), sample_resource ''b'' ''MAILBOX'' None]"
  have e: "plan_concurrency_budget ?rs 3 2 = ([?rs ! 1], [?rs ! 0])"
    by (simp add: plan_concurrency_budget_def backup_priority_key_def naive_utc_def sample_resource_def)
  from plan_concurrency_budget_spec [OF e] e show ?thesis by (simp add: sample_resource_def)
qed

section \<open>Waves\<close>

lemma plan_wave_prefix: "plan_wave remaining budget cap frc @ drop (length (plan_wave remaining budget cap frc)) remaining = remaining"
  by (auto simp: plan_wave_def)

lemma plan_wave_length: "int (length (plan_wave remaining budget cap frc)) \<le> max 0 budget"
  by (auto simp: plan_wave_def)

lemma plan_wave_take:
  "plan_wave remaining budget cap frc = take (length (plan_wave remaining budget cap frc)) remaining"
  by (auto simp: plan_wave_def)

lemma trunc_le: "0 \<le> x \<Longrightarrow> x \<le> of_int n \<Longrightarrow> trunc x \<le> n"
  by (simp add: trunc_def) linarith

text \<open>The floor never exceeds the smaller of what is left and the cap, so a free pool always clears it.\<close>

lemma wave_floor_le:
  assumes "0 < n" and "0 < cap" and "0 \<le> frc" and "frc \<le> 1"
  shows "wave_floor n cap frc \<le> min (int n) cap"
proof -
  let ?m = "min (int n) cap"
  have "0 \<le> of_int ?m * frc" using assms by simp
  moreover have "of_int ?m * frc \<le> of_int ?m" using assms by (simp add: mult_left_le)
  ultimately have "trunc (of_int ?m * frc) \<le> ?m" by (rule trunc_le)
  then show ?thesis using assms by (auto simp: wave_floor_def)
qed

lemma plan_wave_free_pool:
  assumes "0 < cap" and "0 \<le> frc" and "frc \<le> 1"
  shows "plan_wave remaining cap cap frc = take (nat cap) remaining"
proof (cases "remaining = [] \<or> int (length remaining) \<le> cap")
  case True
  then show ?thesis using assms by (auto simp: plan_wave_def)
next
  case False
  then have "wave_floor (length remaining) cap frc \<le> cap"
    using wave_floor_le [of "length remaining" cap frc] assms by auto
  with False assms show ?thesis by (simp add: plan_wave_def)
qed

text \<open>
  C31. A drain wave is a prefix of the remaining list, never larger than the budget; with any free
  slot it is empty only below the floor, and the floor is never more than a fifth of the smaller of
  the cap and the remainder (one slot at least). On the closing tick, where the fraction is zero, any
  free slot is used.
\<close>

theorem plan_wave_spec:
  assumes "0 < cap" and "remaining \<noteq> []"
  shows "plan_wave remaining budget cap DRAIN_MIN_WAVE_FRACTION
           = take (length (plan_wave remaining budget cap DRAIN_MIN_WAVE_FRACTION)) remaining
    \<and> int (length (plan_wave remaining budget cap DRAIN_MIN_WAVE_FRACTION)) \<le> max 0 budget
    \<and> (plan_wave remaining budget cap DRAIN_MIN_WAVE_FRACTION = []
         \<longrightarrow> budget \<le> 0 \<or> 5 * budget < min (int (length remaining)) cap)
    \<and> (plan_wave remaining budget cap 0 = take (nat budget) remaining)"
proof (intro conjI impI)
  let ?w = "plan_wave remaining budget cap DRAIN_MIN_WAVE_FRACTION"
  let ?m = "min (int (length remaining)) cap"
  show "?w = take (length ?w) remaining" by (rule plan_wave_take)
  show "int (length ?w) \<le> max 0 budget" by (rule plan_wave_length)
  show "plan_wave remaining budget cap 0 = take (nat budget) remaining"
    using assms by (auto simp: plan_wave_def wave_floor_def trunc_def)
  assume e: "?w = []"
  show "budget \<le> 0 \<or> 5 * budget < ?m"
  proof (rule ccontr)
    assume n: "\<not> ?thesis"
    with e assms have "budget < wave_floor (length remaining) cap (1 / 5)"
      by (auto simp: plan_wave_def DRAIN_MIN_WAVE_FRACTION_def split: if_splits)
    then have "budget < trunc (of_int ?m * (1 / 5))" using n by (auto simp: wave_floor_def)
    moreover have "(0::rat) \<le> of_int ?m * (1 / 5)" using assms by simp
    ultimately have "of_int (budget + 1) \<le> (of_int ?m :: rat) * (1 / 5)"
      unfolding trunc_def by (simp add: le_floor_iff less_floor_iff)
    then have "(5 * of_int budget + 5 :: rat) \<le> of_int ?m" by simp
    then have "5 * budget + 5 \<le> ?m"
      by (metis (no_types, opaque_lifting) of_int_add of_int_le_iff of_int_mult of_int_numeral)
    with n show False by simp
  qed
qed

theorem plan_wave_spec_witness:
  "plan_wave (replicate 100 ''r'') 15 50 DRAIN_MIN_WAVE_FRACTION = replicate 15 ''r''
   \<and> plan_wave (replicate 100 ''r'') 3 50 DRAIN_MIN_WAVE_FRACTION = []
   \<and> plan_wave (replicate 100 ''r'') 3 50 0 = replicate 3 ''r''"
  using plan_wave_spec [of 50 "replicate 100 ''r''" 3]
  by (simp add: plan_wave_def wave_floor_def trunc_def DRAIN_MIN_WAVE_FRACTION_def)

end
