(* ===== verification/Cron.thy ===== *)
theory Cron
  imports Dispatch_Policy
begin

text \<open>
  The schedule of a policy (\<open>src/services/backup-scheduler/main.py\<close>): from its frequency, days and
  window to cron parameters, the reconstruction of past fire times, and the registration of the
  policy timers. APScheduler's \<open>CronTrigger\<close> is a parameter; \<open>cron_fires\<close> states the meaning of the
  hour, minute and weekday fields, and the locale \<open>cycle_trigger\<close> what the drain relies on.
\<close>

section \<open>Cron parameters\<close>

definition DAY_MAP :: "string \<rightharpoonup> string" where
  "DAY_MAP = map_of
     [(''MON'', ''mon''), (''TUE'', ''tue''), (''WED'', ''wed''), (''THU'', ''thu''),
      (''FRI'', ''fri''), (''SAT'', ''sat''), (''SUN'', ''sun'')]"

definition is_digit :: "char \<Rightarrow> bool" where
  "is_digit c = (c \<in> set ''0123456789'')"

definition parse_window_start :: "string option \<Rightarrow> int \<times> int" where
  "parse_window_start window_start =
     (case window_start of
        None \<Rightarrow> (2, 0)
      | Some w \<Rightarrow>
          if w = [] then (2, 0)
          else let s = py_strip w
               in if CHR '':'' \<in> set s
                  then (case (py_int (takeWhile (\<lambda>c. c \<noteq> CHR '':'') s),
                              py_int (tl (dropWhile (\<lambda>c. c \<noteq> CHR '':'') s))) of
                          (Some h, Some m) \<Rightarrow> (h mod 24, m mod 60)
                        | _ \<Rightarrow> (2, 0))
                  else if length s \<ge> 3 \<and> list_all is_digit s
                  then (case (py_int (take (length s - 2) s), py_int (drop (length s - 2) s)) of
                          (Some h, Some m) \<Rightarrow> (h mod 24, m mod 60)
                        | _ \<Rightarrow> (2, 0))
                  else (2, 0))"

text \<open>\<open>md5\<close> gives the digest as a list of byte values.\<close>

definition policy_minute_jitter :: "(string \<Rightarrow> nat list) \<Rightarrow> string option \<Rightarrow> int" where
  "policy_minute_jitter md5 policy_id =
     (case policy_id of
        None \<Rightarrow> 0
      | Some i \<Rightarrow> if i = [] then 0 else int (hd (md5 i) mod 55))"

text \<open>The \<open>hour\<close> field is the list of hours; no days means no \<open>day_of_week\<close> clause.\<close>

record cron_params =
  cp_hours :: "int list"
  cp_minute :: int
  cp_days :: "string list"

definition day_of_week_clause :: "string list option \<Rightarrow> string list" where
  "day_of_week_clause backup_days =
     (case backup_days of
        None \<Rightarrow> []
      | Some days \<Rightarrow>
          let aps_days = List.map_filter (\<lambda>d. DAY_MAP (py_upper d)) days
          in if aps_days \<noteq> [] \<and> length aps_days < 7 then aps_days else [])"

text \<open>The parameters of a policy that is not \<open>MANUAL\<close>: everything after the first test.\<close>

definition scheduled_cron_params ::
    "(string \<Rightarrow> nat list) \<Rightarrow> string option \<Rightarrow> string list option \<Rightarrow> string option \<Rightarrow> string option \<Rightarrow> cron_params" where
  "scheduled_cron_params md5 frequency backup_days window_start policy_id =
     (case parse_window_start window_start of
        (base_hour, base_minute) \<Rightarrow>
          let jitter = policy_minute_jitter md5 policy_id;
              hour_carry = (base_minute + jitter) div 60
          in \<lparr>cp_hours =
                 (if frequency = Some ''THREE_DAILY''
                  then map (\<lambda>offset. (base_hour + hour_carry + offset) mod 24) [0, 8, 16]
                  else [(base_hour + hour_carry) mod 24]),
              cp_minute = (base_minute + jitter) mod 60,
              cp_days = day_of_week_clause backup_days\<rparr>)"

definition frequency_to_cron_params ::
    "(string \<Rightarrow> nat list) \<Rightarrow> string option \<Rightarrow> string list option \<Rightarrow> string option \<Rightarrow> string option
     \<Rightarrow> cron_params option" where
  "frequency_to_cron_params md5 frequency backup_days window_start policy_id =
     (if frequency = Some ''MANUAL'' then None
      else Some (scheduled_cron_params md5 frequency backup_days window_start policy_id))"

definition policy_cron_params :: "(string \<Rightarrow> nat list) \<Rightarrow> sla_policy \<Rightarrow> cron_params option" where
  "policy_cron_params md5 policy =
     frequency_to_cron_params md5 (p_frequency policy) (p_backup_days policy) (p_backup_window_start policy)
       (Some (p_id policy))"

section \<open>Fire times\<close>

text \<open>Calendar fields of a UTC time in microseconds since 1970-01-01, a Thursday.\<close>

definition HOUR :: int where
  "HOUR = 3600 * SECOND"

definition DAY :: int where
  "DAY = 24 * HOUR"

definition MINUTE :: int where
  "MINUTE = 60 * SECOND"

definition weekday :: "int \<Rightarrow> string" where
  "weekday d = [''thu'', ''fri'', ''sat'', ''sun'', ''mon'', ''tue'', ''wed''] ! nat (d mod 7)"

definition allowed_day :: "cron_params \<Rightarrow> int \<Rightarrow> bool" where
  "allowed_day cp d = (cp_days cp = [] \<or> weekday d \<in> set (cp_days cp))"

text \<open>\<open>current_day\<close> runs over the midnights of the days from \<open>start\<close> to \<open>end\<close>.\<close>

definition cron_fires_between :: "cron_params \<Rightarrow> utc \<Rightarrow> utc \<Rightarrow> utc list" where
  "cron_fires_between cp start fin =
     sort (concat (map (\<lambda>d. if allowed_day cp d
                            then filter (\<lambda>fire. start \<le> fire \<and> fire \<le> fin)
                                   (map (\<lambda>hour. d * DAY + hour * HOUR + cp_minute cp * MINUTE) (cp_hours cp))
                            else [])
                    [start div DAY .. fin div DAY]))"

definition policy_fire_times_between ::
    "(string \<Rightarrow> nat list) \<Rightarrow> sla_policy \<Rightarrow> datetime \<Rightarrow> datetime \<Rightarrow> utc list" where
  "policy_fire_times_between md5 policy start fin =
     (let s = aware_utc start; e = aware_utc fin
      in if e < s then []
         else (case policy_cron_params md5 policy of None \<Rightarrow> [] | Some cp \<Rightarrow> cron_fires_between cp s e))"

text \<open>What the cron fields mean, for one instant.\<close>

definition cron_fires :: "cron_params \<Rightarrow> utc \<Rightarrow> bool" where
  "cron_fires cp t \<longleftrightarrow>
     t mod MINUTE = 0 \<and> (t div MINUTE) mod 60 = cp_minute cp \<and> (t div HOUR) mod 24 \<in> set (cp_hours cp)
     \<and> allowed_day cp (t div DAY)"

section \<open>Timers\<close>

text \<open>
  The scheduler's registered policy jobs and their fingerprints, with the \<open>add_job\<close> calls made. The
  fingerprint is the tuple of the sorted parameters, here the parameters themselves.
\<close>

record timers =
  tm_jobs :: "string \<rightharpoonup> cron_params"
  tm_fingerprints :: "string \<rightharpoonup> cron_params"
  tm_added :: "string list"

definition policy_job_id :: "sla_policy \<Rightarrow> string" where
  "policy_job_id policy = ''policy_backup_'' @ p_id policy"

definition schedule_policy_job :: "(string \<Rightarrow> nat list) \<Rightarrow> sla_policy \<Rightarrow> timers \<Rightarrow> timers" where
  "schedule_policy_job md5 policy tm =
     (let job_id = policy_job_id policy
      in (case policy_cron_params md5 policy of
            None \<Rightarrow> tm\<lparr>tm_jobs := (tm_jobs tm)(job_id := None),
                       tm_fingerprints := (tm_fingerprints tm)(job_id := None)\<rparr>
          | Some cp \<Rightarrow>
              if tm_jobs tm job_id \<noteq> None \<and> tm_fingerprints tm job_id = Some cp then tm
              else tm\<lparr>tm_jobs := (tm_jobs tm)(job_id \<mapsto> cp),
                      tm_fingerprints := (tm_fingerprints tm)(job_id \<mapsto> cp),
                      tm_added := tm_added tm @ [job_id]\<rparr>))"

definition schedule_all_policies :: "(string \<Rightarrow> nat list) \<Rightarrow> sla_policy list \<Rightarrow> timers \<Rightarrow> timers" where
  "schedule_all_policies md5 policies tm = fold (schedule_policy_job md5) (filter p_enabled policies) tm"

text \<open>\<open>CronTrigger\<close> of the registered job, or one built from the same parameters.\<close>

definition policy_cycle_trigger ::
    "(string \<Rightarrow> nat list) \<Rightarrow> (cron_params \<Rightarrow> utc \<Rightarrow> utc option) \<Rightarrow> timers \<Rightarrow> sla_policy
     \<Rightarrow> (utc \<Rightarrow> utc option) option" where
  "policy_cycle_trigger md5 CronTrigger tm policy =
     (case tm_jobs tm (policy_job_id policy) of
        Some cp \<Rightarrow> Some (CronTrigger cp)
      | None \<Rightarrow> map_option CronTrigger (policy_cron_params md5 policy))"

section \<open>Well-formed parameters\<close>

definition cron_ok :: "cron_params \<Rightarrow> bool" where
  "cron_ok cp \<longleftrightarrow>
     cp_hours cp \<noteq> [] \<and> list_all (\<lambda>h. 0 \<le> h \<and> h < 24) (cp_hours cp) \<and> 0 \<le> cp_minute cp \<and> cp_minute cp < 60
     \<and> set (cp_days cp) \<subseteq> ran DAY_MAP"

lemma day_of_week_clause_names: "set (day_of_week_clause days) \<subseteq> ran DAY_MAP"
  by (auto simp: day_of_week_clause_def Let_def map_filter_def ran_def split: option.splits if_splits)

lemma scheduled_cron_ok: "cron_ok (scheduled_cron_params md5 f days w i)"
  using day_of_week_clause_names [of days]
  by (auto simp: cron_ok_def scheduled_cron_params_def Let_def split: prod.splits)

lemma policy_cron_ok: "policy_cron_params md5 policy = Some cp \<Longrightarrow> cron_ok cp"
  by (auto simp: policy_cron_params_def frequency_to_cron_params_def scheduled_cron_ok split: if_splits)

lemma calendar_units [simp]:
  "MINUTE > 0" "MINUTE \<noteq> 0" "0 \<le> MINUTE" "HOUR = 60 * MINUTE" "DAY = 1440 * MINUTE"
  by (simp_all add: DAY_def HOUR_def MINUTE_def SECOND_def)

lemma div_hour: "t div HOUR = (t div MINUTE) div 60"
  and div_day: "t div DAY = (t div MINUTE) div 1440"
  by (simp_all add: zdiv_zmult2_eq [symmetric] mult.commute)

lemma minute_of_day_unique:
  fixes q :: int
  assumes "0 \<le> h" and "h < 24" and "0 \<le> m" and "m < 60"
  shows "q = q div 1440 * 1440 + h * 60 + m \<longleftrightarrow> q mod 60 = m \<and> q div 60 mod 24 = h"
proof
  assume e: "q = q div 1440 * 1440 + h * 60 + m"
  then have "q = 60 * (q div 1440 * 24 + h) + m" by simp
  then obtain a k where k: "q = 60 * a + m" "a = k * 24 + h" by blast
  from k(1) assms have "q mod 60 = m" "q div 60 = a" by simp_all
  then show "q mod 60 = m \<and> q div 60 mod 24 = h" using assms k(2) by simp
next
  assume "q mod 60 = m \<and> q div 60 mod 24 = h"
  moreover have "q = 60 * (q div 60) + q mod 60" by simp
  moreover have "q div 60 = 24 * (q div 60 div 24) + q div 60 mod 24" by simp
  moreover have "q div 1440 = q div 60 div 24" using zdiv_zmult2_eq [of 24 q 60] by simp
  ultimately show "q = q div 1440 * 1440 + h * 60 + m" by linarith
qed

lemma fields_unique:
  assumes "0 \<le> h" and "h < 24" and "0 \<le> m" and "m < 60"
  shows "t mod MINUTE = 0 \<and> (t div MINUTE) mod 60 = m \<and> (t div HOUR) mod 24 = h
    \<longleftrightarrow> t = (t div DAY) * DAY + h * HOUR + m * MINUTE"
proof -
  let ?q = "t div MINUTE"
  have "t = ?q * MINUTE + t mod MINUTE" by simp
  moreover have "0 \<le> t mod MINUTE" "t mod MINUTE < MINUTE" by simp_all
  ultimately have e: "t = n * MINUTE \<longleftrightarrow> t mod MINUTE = 0 \<and> ?q = n" for n
    by (auto simp: mult.commute)
  have "t = (t div DAY) * DAY + h * HOUR + m * MINUTE \<longleftrightarrow> t = (?q div 1440 * 1440 + h * 60 + m) * MINUTE"
    by (simp add: div_day algebra_simps del: calendar_units(5)) (simp add: algebra_simps)
  also have "\<dots> \<longleftrightarrow> t mod MINUTE = 0 \<and> ?q = ?q div 1440 * 1440 + h * 60 + m" by (rule e)
  also have "?q = ?q div 1440 * 1440 + h * 60 + m \<longleftrightarrow> ?q mod 60 = m \<and> ?q div 60 mod 24 = h"
    by (rule minute_of_day_unique [OF assms])
  finally show ?thesis by (simp only: div_hour)
qed

text \<open>A fire is its day, one of the hours and the minute: the two readings of the fields agree.\<close>

lemma cron_fires_iff:
  assumes "cron_ok cp"
  shows "cron_fires cp t \<longleftrightarrow>
    (\<exists>h\<in>set (cp_hours cp). t = (t div DAY) * DAY + h * HOUR + cp_minute cp * MINUTE) \<and> allowed_day cp (t div DAY)"
  using assms fields_unique unfolding cron_fires_def cron_ok_def list_all_iff by metis

lemma set_cron_fires_between:
  assumes "cron_ok cp"
  shows "set (cron_fires_between cp s e) = {t. s \<le> t \<and> t \<le> e \<and> cron_fires cp t}"
proof -
  have d: "(d * DAY + h * HOUR + cp_minute cp * MINUTE) div DAY = d" if "h \<in> set (cp_hours cp)" for d h
  proof -
    have "0 \<le> h * 60 + cp_minute cp" "h * 60 + cp_minute cp < 1440"
      using assms that by (auto simp: cron_ok_def list_all_iff)
    moreover have "d * DAY + h * HOUR + cp_minute cp * MINUTE = (d * 1440 + (h * 60 + cp_minute cp)) * MINUTE"
      by (simp add: algebra_simps)
    ultimately show ?thesis by (simp only: div_day) simp
  qed
  have m: "x div DAY \<le> y div DAY" if "x \<le> y" for x y
    using that by (simp add: zdiv_mono1)
  have f: "\<exists>h\<in>set (cp_hours cp). t = (t div DAY) * DAY + h * HOUR + cp_minute cp * MINUTE" "allowed_day cp (t div DAY)"
    if "cron_fires cp t" for t
    using that cron_fires_iff [OF assms] by blast+
  show ?thesis
  proof (intro set_eqI iffI)
    fix t
    assume "t \<in> set (cron_fires_between cp s e)"
    then obtain d h where "allowed_day cp d" "h \<in> set (cp_hours cp)" "s \<le> t" "t \<le> e"
      and t: "t = d * DAY + h * HOUR + cp_minute cp * MINUTE"
      by (auto simp: cron_fires_between_def simp del: calendar_units split: if_splits)
    moreover have td: "t div DAY = d" unfolding t by (rule d [OF \<open>h \<in> set (cp_hours cp)\<close>])
    ultimately have "cron_fires cp t" unfolding cron_fires_iff [OF assms] td by blast
    then show "t \<in> {t. s \<le> t \<and> t \<le> e \<and> cron_fires cp t}" using \<open>s \<le> t\<close> \<open>t \<le> e\<close> by simp
  next
    fix t
    assume "t \<in> {t. s \<le> t \<and> t \<le> e \<and> cron_fires cp t}"
    then have t: "s \<le> t" "t \<le> e" "cron_fires cp t" by simp_all
    from f [OF t(3)] t m [of s t] m [of t e] show "t \<in> set (cron_fires_between cp s e)"
      unfolding cron_fires_between_def by (auto simp del: calendar_units)
  qed
qed

lemma fires_hour_apart:
  assumes "cron_ok cp" and "cron_fires cp t" and "cron_fires cp u" and "t < u"
  shows "t + HOUR \<le> u"
proof -
  obtain h k where t: "t = (t div DAY) * DAY + h * HOUR + cp_minute cp * MINUTE"
    and u: "u = (u div DAY) * DAY + k * HOUR + cp_minute cp * MINUTE"
    using assms(2,3) unfolding cron_fires_iff [OF assms(1)] by blast
  define n where "n = (u div DAY - t div DAY) * 24 + (k - h)"
  have "u - t = n * HOUR"
    by (subst t, subst u) (simp add: n_def algebra_simps)
  moreover from this assms(4) have "0 < n"
    by (metis calendar_units(1,4) diff_gt_0_iff_gt mult_pos_pos zero_less_mult_pos2 zero_less_numeral)
  then have "1 * HOUR \<le> n * HOUR" by (intro mult_right_mono) simp_all
  ultimately show ?thesis by linarith
qed

lemma weekday_exists:
  assumes "D \<in> ran DAY_MAP"
  shows "\<exists>k\<in>{0..<7}. weekday (d + k) = D"
proof -
  from assms have D: "D \<in> {''mon'', ''tue'', ''wed'', ''thu'', ''fri'', ''sat'', ''sun''}"
    by (auto simp: DAY_MAP_def ran_def split: if_splits)
  have w: "\<exists>j\<in>{0..<7}. weekday j = D"
  proof -
    have "{0..<7::int} = {0, 1, 2, 3, 4, 5, 6}" by auto
    with D show ?thesis by (auto simp: weekday_def)
  qed
  then obtain j :: int where j: "j \<in> {0..<7}" "weekday j = D" by blast
  have "(d + (j - d) mod 7) mod 7 = j mod 7" by (simp add: mod_add_right_eq)
  then have "weekday (d + (j - d) mod 7) = D" using j by (simp add: weekday_def)
  moreover have "(j - d) mod 7 \<in> {0..<7}" by simp
  ultimately show ?thesis by blast
qed

lemma fires_recur:
  assumes "cron_ok cp"
  shows "\<exists>u. t \<le> u \<and> u < t + 192 * HOUR \<and> cron_fires cp u"
proof -
  obtain k where k: "0 \<le> k" "k < 7" "allowed_day cp (t div DAY + 1 + k)"
  proof (cases "cp_days cp")
    case Nil
    then show ?thesis using that [of 0] by (simp add: allowed_day_def)
  next
    case (Cons D Ds)
    then have "D \<in> ran DAY_MAP" using assms by (auto simp: cron_ok_def)
    from weekday_exists [OF this, of "t div DAY + 1"] Cons show ?thesis
      using that by (auto simp: allowed_day_def)
  qed
  obtain h where h: "h \<in> set (cp_hours cp)" "0 \<le> h" "h < 24"
    using assms by (cases "cp_hours cp") (auto simp: cron_ok_def)
  define n where "n = h * 60 + cp_minute cp"
  have n: "0 \<le> n" "n < 1440" using h assms by (auto simp: n_def cron_ok_def)
  define u where "u = (t div DAY + 1 + k) * DAY + h * HOUR + cp_minute cp * MINUTE"
  have u: "u = ((t div DAY + 1 + k) * 1440 + n) * MINUTE"
    by (simp add: u_def n_def algebra_simps)
  then have d: "u div DAY = t div DAY + 1 + k" using n by (simp only: div_day) simp
  then have "cron_fires cp u"
    unfolding cron_fires_iff [OF assms] using h(1) k(3) u_def by auto
  moreover have "t \<le> u" "u < t + 192 * HOUR"
  proof -
    have t: "t = (t div DAY) * DAY + t mod DAY" by (simp only: div_mult_mod_eq)
    have b: "0 \<le> t mod DAY" "t mod DAY < DAY" by simp_all
    have e: "u = (t div DAY) * DAY + DAY + k * DAY + n * MINUTE"
      by (simp add: u algebra_simps)
    have "0 \<le> k * DAY" "k * DAY \<le> 6 * DAY" using k by simp_all
    moreover have "0 \<le> n * MINUTE" "n * MINUTE < 1440 * MINUTE" using n by simp_all
    moreover have "192 * HOUR = 8 * DAY" "DAY = 1440 * MINUTE" by simp_all
    ultimately show "t \<le> u" "u < t + 192 * HOUR" using t b e by linarith+
  qed
  ultimately show ?thesis by blast
qed

section \<open>The cycle window\<close>

text \<open>What the drain relies on of a trigger: it names the next fire, and fires are at least an hour
  apart and at most eight days.\<close>

locale cycle_trigger =
  fixes fires :: "utc \<Rightarrow> bool"
    and get_next_fire_time :: "utc \<Rightarrow> utc option"
  assumes next_fire: "get_next_fire_time t = Some u \<Longrightarrow> t \<le> u \<and> fires u \<and> (\<forall>v. t \<le> v \<and> v < u \<longrightarrow> \<not> fires v)"
    and next_total: "get_next_fire_time t \<noteq> None"
    and hour_apart: "fires t \<Longrightarrow> fires u \<Longrightarrow> t < u \<Longrightarrow> t + HOUR \<le> u"
    and recurs: "\<exists>u. t \<le> u \<and> u < t + 192 * HOUR \<and> fires u"
begin

lemma scan_fires_latest:
  assumes "\<forall>v. probe \<le> v \<and> v < q \<longrightarrow> \<not> fires v" and "now < q + int n * HOUR"
    and "probe \<le> q" and "start = None \<or> (\<exists>s. start = Some s \<and> fires s \<and> s < probe)"
  shows "case scan_fires n get_next_fire_time now probe start of
           None \<Rightarrow> start = None \<and> (\<forall>v. probe \<le> v \<and> v \<le> now \<longrightarrow> \<not> fires v)
         | Some s \<Rightarrow> fires s \<and> (start = Some s \<or> probe \<le> s \<and> s \<le> now)
                     \<and> (\<forall>v. v \<le> now \<and> (s < v \<and> probe \<le> v) \<longrightarrow> \<not> fires v)"
  using assms
proof (induction n arbitrary: probe q start)
  case 0
  then show ?case by (auto split: option.splits)
next
  case (Suc n)
  obtain nxt where nxt: "get_next_fire_time probe = Some nxt" using next_total by blast
  note law = next_fire [OF nxt]
  show ?case
  proof (cases "nxt > now")
    case True
    then show ?thesis using nxt law Suc.prems(4) by (auto split: option.splits)
  next
    case False
    have q: "q \<le> nxt" using law Suc.prems(1) by (meson not_le)
    have "\<forall>v. nxt + SECOND \<le> v \<and> v < nxt + HOUR \<longrightarrow> \<not> fires v"
      using hour_apart [of nxt] law by (fastforce simp: SECOND_def)
    moreover have "now < nxt + HOUR + int n * HOUR"
    proof -
      have "now < q + (1 + int n) * HOUR" using Suc.prems(2) by simp
      also have "\<dots> = q + HOUR + int n * HOUR" by (simp add: algebra_simps)
      finally show ?thesis using q by linarith
    qed
    moreover have "nxt + SECOND \<le> nxt + HOUR" by (simp add: MINUTE_def SECOND_def)
    ultimately have ih: "case scan_fires n get_next_fire_time now (nxt + SECOND) (Some nxt) of
           None \<Rightarrow> Some nxt = None \<and> (\<forall>v. nxt + SECOND \<le> v \<and> v \<le> now \<longrightarrow> \<not> fires v)
         | Some s \<Rightarrow> fires s \<and> (Some nxt = Some s \<or> nxt + SECOND \<le> s \<and> s \<le> now)
                     \<and> (\<forall>v. v \<le> now \<and> (s < v \<and> nxt + SECOND \<le> v) \<longrightarrow> \<not> fires v)"
      using law by (intro Suc.IH) (auto simp: SECOND_def)
    then obtain s where s: "scan_fires n get_next_fire_time now (nxt + SECOND) (Some nxt) = Some s"
      "fires s" "nxt = s \<or> nxt + SECOND \<le> s \<and> s \<le> now"
      "\<forall>v. v \<le> now \<and> (s < v \<and> nxt + SECOND \<le> v) \<longrightarrow> \<not> fires v"
      by (auto split: option.splits)
    have "\<not> fires v" if "v \<le> now" "s < v" for v
    proof
      assume v: "fires v"
      have "nxt \<le> s" using s(3) by (auto simp: SECOND_def)
      with that v have "nxt + SECOND \<le> v" using hour_apart [of nxt v] law by (simp add: MINUTE_def SECOND_def)
      with that v s(4) show False by blast
    qed
    moreover have "probe \<le> s \<and> s \<le> now" using s(3) law False by (auto simp: SECOND_def)
    ultimately show ?thesis using nxt False s(1,2) by simp
  qed
qed

lemma cycle_window_total:
  "\<exists>w. cycle_window_from_trigger get_next_fire_time now = Some w
     \<and> cw_start w \<le> aware_utc now \<and> aware_utc now < cw_end w \<and> fires (cw_start w) \<and> fires (cw_end w)
     \<and> (\<forall>v. cw_start w < v \<and> v < cw_end w \<longrightarrow> \<not> fires v)"
proof -
  let ?now = "aware_utc now"
  have b: "case scan_fires 512 get_next_fire_time ?now (?now - LOOKBACK) None of
           None \<Rightarrow> (None :: utc option) = None \<and> (\<forall>v. ?now - LOOKBACK \<le> v \<and> v \<le> ?now \<longrightarrow> \<not> fires v)
         | Some s \<Rightarrow> fires s \<and> (None = Some s \<or> ?now - LOOKBACK \<le> s \<and> s \<le> ?now)
                     \<and> (\<forall>v. v \<le> ?now \<and> (s < v \<and> ?now - LOOKBACK \<le> v) \<longrightarrow> \<not> fires v)"
    by (rule scan_fires_latest [of _ "?now - LOOKBACK"]) (auto simp: LOOKBACK_def MINUTE_def SECOND_def)
  moreover have "\<exists>u. ?now - LOOKBACK \<le> u \<and> u \<le> ?now \<and> fires u"
    using recurs [of "?now - LOOKBACK"] by (auto simp: LOOKBACK_def MINUTE_def SECOND_def)
  ultimately obtain s where s: "scan_fires 512 get_next_fire_time ?now (?now - LOOKBACK) None = Some s"
    "fires s" "?now - LOOKBACK \<le> s" "s \<le> ?now"
    "\<forall>v. v \<le> ?now \<and> (s < v \<and> ?now - LOOKBACK \<le> v) \<longrightarrow> \<not> fires v"
    by (auto split: option.splits)
  obtain e where e: "get_next_fire_time (s + SECOND) = Some e" using next_total by blast
  note le = next_fire [OF e]
  have gap: "\<not> fires v" if "s < v" "v < e" for v
    using that le hour_apart [of s v] s(2) by (force simp: MINUTE_def SECOND_def)
  have "s < e" using le by (simp add: SECOND_def)
  moreover have "?now < e"
    using le s(3,5) \<open>s < e\<close> by (meson less_le_trans not_le order_less_imp_le order_trans)
  ultimately show ?thesis
    using s e le gap by (simp add: cycle_window_from_trigger_def Let_def)
qed

end

text \<open>The next fire by the fire-time reconstruction over the following eight days.\<close>

definition cron_next :: "cron_params \<Rightarrow> utc \<Rightarrow> utc option" where
  "cron_next cp t = (case cron_fires_between cp t (t + 192 * HOUR) of [] \<Rightarrow> None | u # _ \<Rightarrow> Some u)"

lemma sorted_cron_fires: "sorted (cron_fires_between cp s e)"
  by (simp add: cron_fires_between_def)

lemma cron_next_law:
  assumes "cron_ok cp" and "cron_next cp t = Some u"
  shows "t \<le> u \<and> cron_fires cp u \<and> (\<forall>v. t \<le> v \<and> v < u \<longrightarrow> \<not> cron_fires cp v)"
proof -
  from assms(2) obtain us where us: "cron_fires_between cp t (t + 192 * HOUR) = u # us"
    by (auto simp: cron_next_def split: list.splits)
  have s: "set (u # us) = {v. t \<le> v \<and> v \<le> t + 192 * HOUR \<and> cron_fires cp v}"
    using set_cron_fires_between [OF assms(1), of t "t + 192 * HOUR"] us by simp
  have "\<forall>v\<in>set (u # us). u \<le> v" using sorted_cron_fires [of cp t "t + 192 * HOUR"] us by simp
  moreover have "u \<in> set (u # us)" by simp
  ultimately show ?thesis unfolding s by fastforce
qed

interpretation cron: cycle_trigger "cron_fires (scheduled_cron_params md5 f days w i)"
    "cron_next (scheduled_cron_params md5 f days w i)" for md5 f days w i
proof (unfold_locales, goal_cases)
  case (1 t u)
  then show ?case by (rule cron_next_law [OF scheduled_cron_ok])
next
  case (2 t)
  obtain u where "t \<le> u" "u < t + 192 * HOUR" "cron_fires (scheduled_cron_params md5 f days w i) u"
    using fires_recur [OF scheduled_cron_ok] by blast
  then have "u \<in> set (cron_fires_between (scheduled_cron_params md5 f days w i) t (t + 192 * HOUR))"
    by (simp add: set_cron_fires_between [OF scheduled_cron_ok] del: calendar_units)
  then show ?case by (auto simp: cron_next_def simp del: calendar_units split: list.splits)
next
  case (3 t u)
  then show ?case by (rule fires_hour_apart [OF scheduled_cron_ok])
next
  case (4 t)
  show ?case by (rule fires_recur [OF scheduled_cron_ok])
qed

section \<open>Properties\<close>

lemma three_daily_hours:
  assumes "cp = scheduled_cron_params md5 (Some ''THREE_DAILY'') days w i"
  shows "\<exists>h. 0 \<le> h \<and> h < 24 \<and> cp_hours cp = [h, (h + 8) mod 24, (h + 16) mod 24]"
  using assms
  by (auto simp: scheduled_cron_params_def Let_def mod_simps add.assoc split: prod.splits intro!: exI [of _ "_ mod 24"])

text \<open>
  C29. \<open>_policy_fire_times_between\<close> reconstructs exactly the instants of the interval, ends included,
  at which the policy's cron fields match, in order; a \<open>MANUAL\<close> policy has none. Any two fires are
  whole hours apart, and every run of eight days has one.
\<close>

theorem fire_times_exact:
  assumes "aware_utc start \<le> aware_utc fin"
  shows "case policy_cron_params md5 policy of
      None \<Rightarrow> policy_fire_times_between md5 policy start fin = []
    | Some cp \<Rightarrow>
        sorted (policy_fire_times_between md5 policy start fin)
        \<and> set (policy_fire_times_between md5 policy start fin)
            = {t. aware_utc start \<le> t \<and> t \<le> aware_utc fin \<and> cron_fires cp t}
        \<and> (\<forall>t u. cron_fires cp t \<and> cron_fires cp u \<and> t < u \<longrightarrow> t + HOUR \<le> u)
        \<and> (aware_utc start + 192 * HOUR \<le> aware_utc fin \<longrightarrow> policy_fire_times_between md5 policy start fin \<noteq> [])"
proof (cases "policy_cron_params md5 policy")
  case (Some cp)
  note ok = policy_cron_ok [OF Some]
  have e: "policy_fire_times_between md5 policy start fin = cron_fires_between cp (aware_utc start) (aware_utc fin)"
    using assms Some by (simp add: policy_fire_times_between_def)
  have "cron_fires_between cp (aware_utc start) (aware_utc fin) \<noteq> []"
    if "aware_utc start + 192 * HOUR \<le> aware_utc fin"
  proof -
    obtain u where u: "aware_utc start \<le> u" "u < aware_utc start + 192 * HOUR" "cron_fires cp u"
      using fires_recur [OF ok] by blast
    then have "u \<in> set (cron_fires_between cp (aware_utc start) (aware_utc fin))"
      using that by (simp add: set_cron_fires_between [OF ok])
    then show ?thesis by auto
  qed
  then show ?thesis
    using Some fires_hour_apart [OF ok] sorted_cron_fires set_cron_fires_between [OF ok] by (simp add: e)
qed (use assms in \<open>simp add: policy_fire_times_between_def Let_def\<close>)

definition sample_policy :: "string option \<Rightarrow> int option \<Rightarrow> sla_policy" where
  "sample_policy f cap =
     \<lparr>p_id = ''gold'', p_tenant_id = ''t1'', p_name = ''Gold'', p_enabled = True, p_frequency = f,
      p_backup_days = None, p_backup_window_start = Some ''22:30'', p_backup_window_end = None,
      p_max_concurrent_backups = cap, p_sla_violation_alert = True, p_created_at = None,
      p_flags = (\<lambda>_. Some True)\<rparr>"

lemma sample_cron_params:
  "policy_cron_params (\<lambda>_. [100]) (sample_policy (Some ''THREE_DAILY'') cap)
     = Some \<lparr>cp_hours = [23, 7, 15], cp_minute = 15, cp_days = []\<rparr>"
  by (simp add: policy_cron_params_def sample_policy_def frequency_to_cron_params_def scheduled_cron_params_def
      parse_window_start_def policy_minute_jitter_def day_of_week_clause_def py_strip_def strip_char_def
      py_int_def parse_nat_def digit_value_def)

theorem fire_times_exact_witness:
  "policy_fire_times_between (\<lambda>_. [100]) (sample_policy (Some ''THREE_DAILY'') None) (Naive 0) (Naive DAY)
     = [7 * HOUR + 15 * MINUTE, 15 * HOUR + 15 * MINUTE, 23 * HOUR + 15 * MINUTE]
   \<and> sorted (policy_fire_times_between (\<lambda>_. [100]) (sample_policy (Some ''THREE_DAILY'') None) (Naive 0) (Naive DAY))"
  using fire_times_exact [of "Naive 0" "Naive DAY" "\<lambda>_. [100]" "sample_policy (Some ''THREE_DAILY'') None"]
  by (simp add: sample_cron_params policy_fire_times_between_def cron_fires_between_def allowed_day_def aware_utc_def
      MINUTE_def SECOND_def upto.simps)

text \<open>
  C28. The cycle window. For a trigger that names the next match of the policy's cron fields, the
  bounded scan (eight days back, at most 512 steps) always finds a window: it starts at the latest
  fire not after \<open>now\<close>, ends at the next one, contains \<open>now\<close> and has no fire inside. So a scheduled
  policy is in exactly one cycle at any time, also with a single backup day a week.
\<close>

theorem cycle_window_spec:
  assumes "policy_cron_params md5 policy = Some cp"
    and "\<forall>t. \<exists>u. CronTrigger cp t = Some u \<and> t \<le> u \<and> cron_fires cp u
              \<and> (\<forall>v. t \<le> v \<and> v < u \<longrightarrow> \<not> cron_fires cp v)"
  shows "\<exists>w. cycle_window_from_trigger (CronTrigger cp) now = Some w
    \<and> cw_start w \<le> aware_utc now \<and> aware_utc now < cw_end w
    \<and> cron_fires cp (cw_start w) \<and> cron_fires cp (cw_end w)
    \<and> (\<forall>v. cw_start w < v \<and> v < cw_end w \<longrightarrow> \<not> cron_fires cp v)"
proof -
  note ok = policy_cron_ok [OF assms(1)]
  have "cycle_trigger (cron_fires cp) (CronTrigger cp)"
  proof
    show "t \<le> u \<and> cron_fires cp u \<and> (\<forall>v. t \<le> v \<and> v < u \<longrightarrow> \<not> cron_fires cp v)"
      if "CronTrigger cp t = Some u" for t u
      using assms(2) that by (metis option.inject)
    show "CronTrigger cp t \<noteq> None" for t using assms(2) by (metis option.distinct(1))
  qed (use fires_hour_apart [OF ok] fires_recur [OF ok] in blast)+
  then show ?thesis by (rule cycle_trigger.cycle_window_total)
qed

lemma cron_next_next:
  assumes "cron_ok cp"
  shows "\<exists>u. cron_next cp t = Some u \<and> t \<le> u \<and> cron_fires cp u \<and> (\<forall>v. t \<le> v \<and> v < u \<longrightarrow> \<not> cron_fires cp v)"
proof -
  obtain u where "t \<le> u" "u < t + 192 * HOUR" "cron_fires cp u" using fires_recur [OF assms] by blast
  then have "u \<in> set (cron_fires_between cp t (t + 192 * HOUR))"
    by (simp add: set_cron_fires_between [OF assms] del: calendar_units)
  then have "cron_next cp t \<noteq> None" by (auto simp: cron_next_def simp del: calendar_units split: list.splits)
  then show ?thesis using cron_next_law [OF assms] by blast
qed

theorem cycle_window_spec_witness:
  "\<exists>w. cycle_window_from_trigger (cron_next \<lparr>cp_hours = [23, 7, 15], cp_minute = 15, cp_days = []\<rparr>) (Naive 0) = Some w
     \<and> cw_start w \<le> 0 \<and> 0 < cw_end w"
  using cycle_window_spec [OF sample_cron_params, of cron_next "Naive 0"]
    cron_next_next [OF policy_cron_ok [OF sample_cron_params]]
  by (auto simp: aware_utc_def)

section \<open>Timers follow the policies\<close>

definition timers_inv :: "timers \<Rightarrow> bool" where
  "timers_inv tm \<longleftrightarrow>
     (\<forall>j cp. tm_fingerprints tm j = Some cp \<longrightarrow> tm_jobs tm j = None \<or> tm_jobs tm j = Some cp)"

lemma schedule_policy_job_jobs:
  assumes "timers_inv tm"
  shows "tm_jobs (schedule_policy_job md5 p tm) = (tm_jobs tm)(policy_job_id p := policy_cron_params md5 p)"
    and "tm_fingerprints (schedule_policy_job md5 p tm)
      = (tm_fingerprints tm)(policy_job_id p := policy_cron_params md5 p)"
proof -
  have "tm_jobs tm (policy_job_id p) = Some cp"
    if "tm_jobs tm (policy_job_id p) \<noteq> None" "tm_fingerprints tm (policy_job_id p) = Some cp" for cp
    using assms [unfolded timers_inv_def, rule_format, of "policy_job_id p" cp] that by auto
  then show "tm_jobs (schedule_policy_job md5 p tm) = (tm_jobs tm)(policy_job_id p := policy_cron_params md5 p)"
    "tm_fingerprints (schedule_policy_job md5 p tm)
      = (tm_fingerprints tm)(policy_job_id p := policy_cron_params md5 p)"
    by (auto simp: schedule_policy_job_def Let_def fun_upd_idem split: option.splits)
qed

lemma schedule_policy_job_inv: "timers_inv tm \<Longrightarrow> timers_inv (schedule_policy_job md5 p tm)"
  using schedule_policy_job_jobs [of tm md5 p] by (auto simp: timers_inv_def)

definition timer_current :: "(string \<Rightarrow> nat list) \<Rightarrow> timers \<Rightarrow> sla_policy \<Rightarrow> bool" where
  "timer_current md5 tm p \<longleftrightarrow>
     tm_jobs tm (policy_job_id p) = policy_cron_params md5 p
     \<and> tm_fingerprints tm (policy_job_id p) = policy_cron_params md5 p"

lemma schedule_current_id:
  assumes "timer_current md5 tm p"
  shows "schedule_policy_job md5 p tm = tm"
  using assms by (auto simp: schedule_policy_job_def timer_current_def Let_def fun_upd_idem split: option.splits)

lemma schedule_makes_current:
  assumes "timers_inv tm"
  shows "timer_current md5 (schedule_policy_job md5 p tm) p"
  using schedule_policy_job_jobs [OF assms] by (simp add: timer_current_def)

lemma schedule_keeps_current:
  assumes "timers_inv tm" and "timer_current md5 tm q" and "p_id q \<noteq> p_id p"
  shows "timer_current md5 (schedule_policy_job md5 p tm) q"
  using assms schedule_policy_job_jobs [OF assms(1), of md5 p]
  by (auto simp: timer_current_def policy_job_id_def)

lemma fold_schedule_current:
  assumes "timers_inv tm" and "distinct (map p_id ps)" and "\<forall>q\<in>set qs. timer_current md5 tm q"
    and "p_id ` set qs \<inter> p_id ` set ps = {}"
  shows "timers_inv (fold (schedule_policy_job md5) ps tm)
    \<and> (\<forall>p\<in>set qs \<union> set ps. timer_current md5 (fold (schedule_policy_job md5) ps tm) p)"
  using assms
proof (induction ps arbitrary: tm qs)
  case (Cons p ps)
  let ?tm = "schedule_policy_job md5 p tm"
  have 1: "timers_inv ?tm" by (rule schedule_policy_job_inv [OF Cons.prems(1)])
  have "\<forall>q\<in>set qs. p_id q \<noteq> p_id p" using Cons.prems(4) by (metis IntI empty_iff image_eqI list.set_intros(1))
  then have 2: "\<forall>q\<in>set (p # qs). timer_current md5 ?tm q"
    using schedule_makes_current [OF Cons.prems(1)] schedule_keeps_current [OF Cons.prems(1)] Cons.prems(3) by auto
  have 3: "distinct (map p_id ps)" and 4: "p_id ` set (p # qs) \<inter> p_id ` set ps = {}"
    using Cons.prems(2,4) by auto
  show ?case using Cons.IH [OF 1 3 2 4] by auto
qed simp

lemma fold_current_id:
  "\<forall>p\<in>set ps. timer_current md5 tm p \<Longrightarrow> fold (schedule_policy_job md5) ps tm = tm"
  by (induction ps) (simp_all add: schedule_current_id)

text \<open>
  C30. The reschedule sweep. After \<open>schedule_all_policies\<close> every enabled policy's timer runs on the
  cron parameters of its row, and \<open>MANUAL\<close> policies have none; a further sweep over unchanged rows
  changes nothing and re-registers no timer, so the periodic sweep cannot drop a fire.
\<close>

theorem schedule_sweep_idempotent:
  assumes "timers_inv tm" and "distinct (map p_id policies)"
  shows "let tm' = schedule_all_policies md5 policies tm
    in (\<forall>p\<in>set policies. p_enabled p \<longrightarrow> tm_jobs tm' (policy_job_id p) = policy_cron_params md5 p)
       \<and> timers_inv tm' \<and> schedule_all_policies md5 policies tm' = tm'"
proof -
  have d: "distinct (map p_id (filter p_enabled policies))"
    using assms(2) by (simp add: distinct_map_filter)
  note f = fold_schedule_current [OF assms(1) d, of "[]" md5]
  then have c: "\<forall>p\<in>set (filter p_enabled policies). timer_current md5 (schedule_all_policies md5 policies tm) p"
    and "timers_inv (schedule_all_policies md5 policies tm)"
    by (simp_all add: schedule_all_policies_def)
  moreover have "schedule_all_policies md5 policies (schedule_all_policies md5 policies tm)
      = schedule_all_policies md5 policies tm"
    using fold_current_id [OF c] by (simp add: schedule_all_policies_def)
  ultimately show ?thesis by (auto simp: Let_def timer_current_def)
qed

theorem schedule_sweep_idempotent_witness:
  "let tm = schedule_all_policies (\<lambda>_. [100]) [sample_policy (Some ''THREE_DAILY'') None]
              \<lparr>tm_jobs = Map.empty, tm_fingerprints = Map.empty, tm_added = []\<rparr>
   in tm_added tm = [''policy_backup_gold'']
      \<and> schedule_all_policies (\<lambda>_. [100]) [sample_policy (Some ''THREE_DAILY'') None] tm = tm"
proof -
  let ?tm = "\<lparr>tm_jobs = Map.empty, tm_fingerprints = Map.empty, tm_added = []\<rparr> :: timers"
  let ?p = "sample_policy (Some ''THREE_DAILY'') None"
  have "timers_inv ?tm" by (simp add: timers_inv_def)
  from schedule_sweep_idempotent [OF this, of "[?p]" "\<lambda>_. [100]"]
  have "schedule_all_policies (\<lambda>_. [100]) [?p] (schedule_all_policies (\<lambda>_. [100]) [?p] ?tm)
      = schedule_all_policies (\<lambda>_. [100]) [?p] ?tm"
    by (simp add: Let_def)
  moreover have "p_enabled ?p" "policy_job_id ?p = ''policy_backup_gold''"
    by (simp_all add: sample_policy_def policy_job_id_def)
  then have "tm_added (schedule_all_policies (\<lambda>_. [100]) [?p] ?tm) = [''policy_backup_gold'']"
    by (simp add: schedule_all_policies_def schedule_policy_job_def sample_cron_params Let_def)
  ultimately show ?thesis by (simp add: Let_def)
qed

text \<open>
  A frequency other than the two the cron knows runs daily, while the interval table spaces its
  violations a week apart.
\<close>

lemma weekly_runs_daily:
  "frequency_to_cron_params md5 (Some ''WEEKLY'') days w i = frequency_to_cron_params md5 (Some ''DAILY'') days w i
   \<and> frequency_interval_hours (Some ''WEEKLY'') = 168"
  by (simp add: frequency_to_cron_params_def scheduled_cron_params_def frequency_interval_hours_def
      FREQUENCY_INTERVAL_HOURS_def py_upper_def upper_char_def)

end
