(* ===== verification/Scheduler.thy ===== *)
theory Scheduler
  imports Cron
begin

text \<open>
  The dispatcher of \<open>src/services/backup-scheduler/main.py\<close>: the cron tick of a policy, the drain of
  its open cycle, the catch-up after downtime, the single and pre-emptive triggers and the SLA check,
  over a state of database rows, in-process memos and the messages handed to the bus. A policy's tick
  and drain hold the policy's lock, so each is one step. Clock, random ids, bus outcomes, the cron
  trigger and the Power BI service come from a record \<open>world\<close>. Policy ids are in canonical form.
\<close>

section \<open>Queue routing\<close>

record routing_settings =
  BACKUP_HEAVY_ENABLED :: bool
  BACKUP_HEAVY_QUEUE :: string
  BACKUP_WORKER_QUEUE :: string
  HEAVY_EXPORT_ENABLED :: bool
  HEAVY_EXPORT_THRESHOLD_BYTES :: int
  HEAVY_EXPORT_QUEUE :: string
  HEAVY_RESTORE_THRESHOLD :: int

definition pick_export_queue :: "routing_settings \<Rightarrow> int \<Rightarrow> string" where
  "pick_export_queue cfg total_bytes =
     (if \<not> HEAVY_EXPORT_ENABLED cfg then ''restore.normal''
      else if total_bytes \<ge> HEAVY_EXPORT_THRESHOLD_BYTES cfg then HEAVY_EXPORT_QUEUE cfg
      else ''restore.normal'')"

definition HEAVY_BACKUP_TYPES :: "string set" where
  "HEAVY_BACKUP_TYPES = {''USER_ONEDRIVE'', ''ONEDRIVE'', ''SHAREPOINT_SITE'', ''POWER_BI'', ''USER_ARCHIVE''}"

definition pick_backup_queue :: "routing_settings \<Rightarrow> string \<Rightarrow> string option \<Rightarrow> string" where
  "pick_backup_queue cfg resource_type default_queue =
     (let fallback = (case default_queue of
                        None \<Rightarrow> BACKUP_WORKER_QUEUE cfg
                      | Some q \<Rightarrow> if q = [] then BACKUP_WORKER_QUEUE cfg else q)
      in if \<not> BACKUP_HEAVY_ENABLED cfg then fallback
         else if resource_type \<in> HEAVY_BACKUP_TYPES then BACKUP_HEAVY_QUEUE cfg
         else fallback)"

definition pick_restore_queue :: "routing_settings \<Rightarrow> int \<Rightarrow> string" where
  "pick_restore_queue cfg total_bytes =
     (if total_bytes \<noteq> 0 \<and> total_bytes > HEAVY_RESTORE_THRESHOLD cfg then HEAVY_EXPORT_QUEUE cfg
      else ''restore.normal'')"

definition AZURE_WORKLOAD_QUEUES :: "string \<rightharpoonup> string" where
  "AZURE_WORKLOAD_QUEUES = map_of
     [(''AZURE_VM'', ''azure.vm''), (''AZURE_SQL_DB'', ''azure.sql''),
      (''AZURE_POSTGRESQL'', ''azure.postgres''), (''AZURE_POSTGRESQL_SINGLE'', ''azure.postgres'')]"

definition group_queue :: "routing_settings \<Rightarrow> sla_policy \<Rightarrow> string \<Rightarrow> string" where
  "group_queue cfg policy resource_type =
     (let base_queue = (if p_frequency policy = Some ''THREE_DAILY'' then ''backup.high'' else ''backup.normal'')
      in (case AZURE_WORKLOAD_QUEUES resource_type of
            Some azure_queue \<Rightarrow> azure_queue
          | None \<Rightarrow> pick_backup_queue cfg resource_type (Some base_queue)))"

section \<open>Messages and state\<close>

record mass_backup =
  mb_job_id :: string
  mb_tenant_id :: string
  mb_resource_type :: string
  mb_resource_ids :: "string list"
  mb_type :: string
  mb_priority :: int
  mb_sla_policy_id :: "string option"
  mb_triggered_by :: string
  mb_force_full :: bool
  mb_batch_size :: nat
  mb_batch_id :: "string option"
  mb_queue :: "string option"

definition create_mass_backup_message ::
    "string \<Rightarrow> string \<Rightarrow> string \<Rightarrow> string list \<Rightarrow> string option \<Rightarrow> bool \<Rightarrow> mass_backup" where
  "create_mass_backup_message job_id tenant_id resource_type resource_ids sla_policy_id full_backup =
     \<lparr>mb_job_id = job_id, mb_tenant_id = tenant_id, mb_resource_type = resource_type,
      mb_resource_ids = resource_ids, mb_type = (if full_backup then ''FULL'' else ''INCREMENTAL''),
      mb_priority = (if sla_policy_id = None then 1 else 5), mb_sla_policy_id = sla_policy_id,
      mb_triggered_by = ''SCHEDULED'', mb_force_full = full_backup, mb_batch_size = length resource_ids,
      mb_batch_id = None, mb_queue = None\<rparr>"

record single_backup =
  sb_job_id :: string
  sb_resource_id :: string
  sb_triggered_by :: string
  sb_force_full :: bool

record skip_details =
  sd_message :: string
  sd_skip_reason :: string
  sd_policy_id :: string
  sd_required_flag :: "string option"
  sd_required_flag_label :: "string option"

datatype audit_payload =
    OverlapDetails overlap_details
  | DeferredDetails deferred_details
  | WaveDetails wave_details
  | IncompleteDetails incomplete_details
  | SkipDetails skip_details
  | LicenseSkip string

record audit_event =
  ae_action :: string
  ae_tenant_id :: string
  ae_resource_id :: "string option"
  ae_outcome :: string
  ae_details :: audit_payload

datatype bus_message = MassBackup mass_backup | SingleBackup single_backup | AuditEvent audit_event

record sched =
  sc_policies :: "sla_policy list"
  sc_resources :: "resource list"
  sc_jobs :: "job list"
  sc_snapshots :: "snapshot list"
  sc_tenants :: "string list"
  sc_timers :: timers
  sc_exhausted :: "string \<rightharpoonup> utc"          \<comment> \<open>\<open>_cycle_exhausted_until\<close>\<close>
  sc_incomplete :: "string \<rightharpoonup> utc"         \<comment> \<open>\<open>_cycle_incomplete_emitted\<close>\<close>
  sc_uuids :: nat                        \<comment> \<open>random ids drawn so far\<close>
  sc_attempts :: nat                     \<comment> \<open>publishes attempted so far\<close>
  sc_sent :: "(string \<times> bus_message) list"
  sc_triggered :: "string list"          \<comment> \<open>jobs with a \<open>BACKUP_TRIGGERED\<close> event\<close>

text \<open>\<open>w_bus n\<close> is the error the \<open>n\<close>-th publish raises, if any.\<close>

record world =
  w_env :: environ
  w_float :: "string \<Rightarrow> rat option"
  w_md5 :: "string \<Rightarrow> nat list"
  w_CronTrigger :: "cron_params \<Rightarrow> utc \<Rightarrow> utc option"
  w_uuid4 :: "nat \<Rightarrow> string"
  w_bus :: "nat \<Rightarrow> py_error option"
  w_settings :: routing_settings
  w_list_modified :: "string \<Rightarrow> utc \<Rightarrow> string list result"

text \<open>\<open>message_bus.publish\<close> on a connected bus.\<close>

definition publish :: "world \<Rightarrow> string \<Rightarrow> bus_message \<Rightarrow> sched \<Rightarrow> unit result \<times> sched" where
  "publish w queue m s =
     (case w_bus w (sc_attempts s) of
        Some e \<Rightarrow> (Inl e, s\<lparr>sc_attempts := sc_attempts s + 1\<rparr>)
      | None \<Rightarrow> (Inr (), s\<lparr>sc_attempts := sc_attempts s + 1, sc_sent := sc_sent s @ [(queue, m)]\<rparr>))"

section \<open>Audit events\<close>

definition publish_cycle_audit_event ::
    "world \<Rightarrow> sla_policy \<Rightarrow> string \<Rightarrow> string \<Rightarrow> audit_payload \<Rightarrow> sched \<Rightarrow> sched" where
  "publish_cycle_audit_event w policy action outcome details s =
     (if p_tenant_id policy = [] then s
      else snd (publish w ''audit.events''
                  (AuditEvent \<lparr>ae_action = action, ae_tenant_id = p_tenant_id policy, ae_resource_id = None,
                               ae_outcome = outcome, ae_details = details\<rparr>) s))"

definition RESOURCE_TYPE_DISPLAY_NAMES :: "string \<rightharpoonup> string" where
  "RESOURCE_TYPE_DISPLAY_NAMES = map_of
     [(''MAILBOX'', ''Exchange mailboxes''), (''SHARED_MAILBOX'', ''shared mailboxes''),
      (''ROOM_MAILBOX'', ''room mailboxes''), (''ONEDRIVE'', ''OneDrive''),
      (''SHAREPOINT_SITE'', ''SharePoint''), (''TEAMS_CHANNEL'', ''Teams channel data''),
      (''TEAMS_CHAT'', ''Teams chats''), (''TEAMS_CHAT_EXPORT'', ''Teams chat exports''),
      (''USER_MAIL'', ''User mailboxes''), (''USER_ONEDRIVE'', ''User OneDrive''),
      (''USER_CONTACTS'', ''User contacts''), (''USER_CALENDAR'', ''User calendars''),
      (''USER_CHATS'', ''User chats''), (''USER_ARCHIVE'', ''Online archives''),
      (''ENTRA_DIRECTORY'', ''Azure Active Directory''), (''ENTRA_USER'', ''Entra user data''),
      (''ENTRA_GROUP'', ''Entra group data''), (''ENTRA_APP'', ''Entra app data''),
      (''ENTRA_SERVICE_PRINCIPAL'', ''Entra service principal data''),
      (''ENTRA_DEVICE'', ''Entra device data''), (''ENTRA_ROLE'', ''Entra role data''),
      (''ENTRA_ADMIN_UNIT'', ''Entra administrative unit data''),
      (''ENTRA_AUDIT_LOG'', ''Entra audit data''), (''INTUNE_MANAGED_DEVICE'', ''Intune managed devices''),
      (''POWER_BI'', ''Power BI''), (''POWER_APPS'', ''Power Apps''),
      (''POWER_AUTOMATE'', ''Power Automate''), (''POWER_DLP'', ''Power DLP''), (''COPILOT'', ''Copilot''),
      (''PLANNER'', ''Planner''), (''TODO'', ''Microsoft To Do''), (''ONENOTE'', ''OneNote''),
      (''AZURE_VM'', ''Azure virtual machines''), (''AZURE_SQL_DB'', ''Azure SQL databases''),
      (''AZURE_POSTGRESQL'', ''Azure PostgreSQL''), (''AZURE_POSTGRESQL_SINGLE'', ''Azure PostgreSQL'')]"

definition SLA_FLAG_DISPLAY_NAMES :: "string \<rightharpoonup> string" where
  "SLA_FLAG_DISPLAY_NAMES = map_of
     [(''backup_exchange'', ''Exchange''), (''backup_exchange_archive'', ''Online archives''),
      (''backup_onedrive'', ''OneDrive and OneNote''), (''backup_sharepoint'', ''SharePoint''),
      (''backup_teams'', ''Teams channels''), (''backup_teams_chats'', ''Teams chats''),
      (''backup_entra_id'', ''Entra ID''), (''backup_power_platform'', ''Power Platform''),
      (''backup_copilot'', ''Copilot''), (''planner'', ''Planner''), (''tasks'', ''Tasks''),
      (''group_mailbox'', ''group mailbox''), (''backup_azure_vm'', ''Virtual machines''),
      (''backup_azure_sql'', ''Azure SQL databases''),
      (''backup_azure_postgresql'', ''Azure PostgreSQL servers'')]"

text \<open>\<open>str.title\<close> on letters, digits and spaces.\<close>

fun title_from :: "bool \<Rightarrow> string \<Rightarrow> string" where
  "title_from prev_cased [] = []"
| "title_from prev_cased (c # cs) =
     (let u = upper_char c; l = lower_char c
      in (if prev_cased then l else u) # title_from (u \<noteq> l) cs)"

definition py_title :: "string \<Rightarrow> string" where
  "py_title s = title_from False s"

definition build_sla_skip_message :: "string \<Rightarrow> sla_policy \<Rightarrow> string \<times> string option \<times> string option" where
  "build_sla_skip_message resource_type policy =
     (let workload_name = (case RESOURCE_TYPE_DISPLAY_NAMES resource_type of
                             Some n \<Rightarrow> n
                           | None \<Rightarrow> py_title (map (\<lambda>c. if c = CHR ''_'' then CHR '' '' else c) resource_type));
          flag_name = RESOURCE_TYPE_TO_SLA_FLAG resource_type;
          flag_label = (case flag_name of
                          None \<Rightarrow> None
                        | Some f \<Rightarrow> Some (case SLA_FLAG_DISPLAY_NAMES f of Some l \<Rightarrow> l | None \<Rightarrow> f));
          message = ''Scheduled backup skipped because SLA '' @ [CHR 0x27] @ p_name policy @ [CHR 0x27]
            @ (case flag_label of
                 Some l \<Rightarrow> '' does not cover '' @ workload_name @ ''. Enable '' @ [CHR 0x27] @ l @ [CHR 0x27]
                           @ '' in the policy to include this resource.''
               | None \<Rightarrow> '' has no workload mapping for '' @ workload_name @ ''.'')
      in (message, flag_name, flag_label))"

definition sla_skip_event :: "sla_policy \<Rightarrow> resource \<Rightarrow> audit_event" where
  "sla_skip_event policy r =
     (case build_sla_skip_message (r_type r) policy of
        (message, flag_name, flag_label) \<Rightarrow>
          \<lparr>ae_action = ''BACKUP_SKIPPED_SLA_SCOPE'', ae_tenant_id = r_tenant_id r, ae_resource_id = Some (r_id r),
           ae_outcome = ''PARTIAL'',
           ae_details = SkipDetails
             \<lparr>sd_message = message, sd_skip_reason = ''sla_scope_mismatch'', sd_policy_id = p_id policy,
              sd_required_flag = flag_name, sd_required_flag_label = flag_label\<rparr>\<rparr>)"

definition license_skip_event :: "sla_policy \<Rightarrow> resource \<Rightarrow> audit_event" where
  "license_skip_event policy r =
     \<lparr>ae_action = ''BACKUP_SKIPPED_NO_LICENSE'', ae_tenant_id = r_tenant_id r, ae_resource_id = Some (r_id r),
      ae_outcome = ''PARTIAL'', ae_details = LicenseSkip (p_id policy)\<rparr>"

text \<open>One publish per event; the first that raises ends the loop and the exception propagates.\<close>

fun publish_all :: "world \<Rightarrow> audit_event list \<Rightarrow> sched \<Rightarrow> unit result \<times> sched" where
  "publish_all w [] s = (Inr (), s)"
| "publish_all w (e # es) s =
     (case publish w ''audit.events'' (AuditEvent e) s of
        (Inl err, s1) \<Rightarrow> (Inl err, s1)
      | (Inr _, s1) \<Rightarrow> publish_all w es s1)"

definition publish_sla_skip_audit_events :: "world \<Rightarrow> sla_policy \<Rightarrow> resource list \<Rightarrow> sched \<Rightarrow> unit result \<times> sched" where
  "publish_sla_skip_audit_events w policy skipped s = publish_all w (map (sla_skip_event policy) skipped) s"

definition publish_license_skip_audit_events ::
    "world \<Rightarrow> sla_policy \<Rightarrow> resource list \<Rightarrow> sched \<Rightarrow> unit result \<times> sched" where
  "publish_license_skip_audit_events w policy skipped s = publish_all w (map (license_skip_event policy) skipped) s"

section \<open>Building the jobs\<close>

definition resource_backup_eligible :: "resource \<Rightarrow> bool" where
  "resource_backup_eligible r = (case r_license_missing r of None \<Rightarrow> True | Some v \<Rightarrow> \<not> json_truthy v)"

definition select_resources_for_dispatch :: "resource list \<Rightarrow> string set \<Rightarrow> resource list" where
  "select_resources_for_dispatch enabled_resources inflight_resource_ids =
     filter (\<lambda>r. r_id r \<notin> inflight_resource_ids \<and> resource_backup_eligible r) enabled_resources"

text \<open>\<open>groups.setdefault(key, []).append(r)\<close>: keys stay in insertion order.\<close>

fun add_to_group :: "'k \<Rightarrow> 'r \<Rightarrow> ('k \<times> 'r list) list \<Rightarrow> ('k \<times> 'r list) list" where
  "add_to_group key r [] = [(key, [r])]"
| "add_to_group key r ((key', rs) # groups) =
     (if key' = key then (key', rs @ [r]) # groups else (key', rs) # add_to_group key r groups)"

definition group_by :: "('r \<Rightarrow> 'k) \<Rightarrow> 'r list \<Rightarrow> ('k \<times> 'r list) list" where
  "group_by key rs = foldl (\<lambda>groups r. add_to_group (key r) r groups) [] rs"

definition BATCH_SIZE :: nat where
  "BATCH_SIZE = 1000"

type_synonym batch = "(string \<times> string) \<times> resource list"

definition batches_of :: "resource list \<Rightarrow> batch list" where
  "batches_of resources =
     concat (map (\<lambda>(key, rs). map (\<lambda>b. (key, b)) (plain_chunks BATCH_SIZE rs))
               (group_by (\<lambda>r. (r_type r, r_tenant_id r)) resources))"

record dispatch_args =
  da_batch_id :: string
  da_deferred :: "string list"
  da_overlap_held :: "string list"
  da_sla_skipped :: "string list"
  da_wave :: int

definition full_backup_of :: "resource list \<Rightarrow> bool" where
  "full_backup_of batch = (\<not> list_ex (\<lambda>r. r_last_backup_at r \<noteq> None) batch)"

definition scheduled_job ::
    "routing_settings \<Rightarrow> sla_policy \<Rightarrow> dispatch_args \<Rightarrow> utc \<Rightarrow> string \<Rightarrow> batch \<Rightarrow> job" where
  "scheduled_job cfg policy args now job_id b =
     (case b of
        ((resource_type, tenant_id), batch) \<Rightarrow>
          \<lparr>j_id = job_id, j_type = BACKUP, j_tenant_id = tenant_id, j_resource_id = None,
           j_batch_resource_ids = Some (map r_id batch), j_status = J_QUEUED, j_priority = 5,
           j_spec = \<lparr>sp_sla_policy_id = Some (p_id policy), sp_triggered_by = Some ''SCHEDULED'',
                     sp_batch_id = Some (da_batch_id args), sp_wave = Some (da_wave args),
                     sp_resource_type = Some resource_type, sp_full_backup = full_backup_of batch,
                     sp_deferred_resource_ids = da_deferred args,
                     sp_overlap_held_resource_ids = da_overlap_held args,
                     sp_sla_skipped_resource_ids = da_sla_skipped args,
                     sp_queue = Some (group_queue cfg policy resource_type)\<rparr>,
           j_created_at = now\<rparr>)"

definition scheduled_message :: "routing_settings \<Rightarrow> sla_policy \<Rightarrow> dispatch_args \<Rightarrow> string \<Rightarrow> batch \<Rightarrow> mass_backup" where
  "scheduled_message cfg policy args job_id b =
     (case b of
        ((resource_type, tenant_id), batch) \<Rightarrow>
          (create_mass_backup_message job_id tenant_id resource_type (map r_id batch) (Some (p_id policy))
             (full_backup_of batch))
          \<lparr>mb_batch_id := Some (da_batch_id args), mb_queue := Some (group_queue cfg policy resource_type)\<rparr>)"

text \<open>After the commit: a publish that raises is logged, the trigger event is emitted either way.\<close>

fun publish_pending :: "world \<Rightarrow> (string \<times> string \<times> mass_backup) list \<Rightarrow> sched \<Rightarrow> sched" where
  "publish_pending w [] s = s"
| "publish_pending w ((job_id, queue, m) # rest) s =
     (let s1 = snd (publish w queue (MassBackup m) s)
      in publish_pending w rest (s1\<lparr>sc_triggered := sc_triggered s1 @ [job_id]\<rparr>))"

definition dispatch_resources ::
    "world \<Rightarrow> sla_policy \<Rightarrow> resource list \<Rightarrow> dispatch_args \<Rightarrow> utc \<Rightarrow> sched \<Rightarrow> nat \<times> sched" where
  "dispatch_resources w policy resources args now s =
     (let cfg = w_settings w;
          numbered = map (\<lambda>(n, b). (w_uuid4 w n, b)) (enumerate (sc_uuids s) (batches_of resources));
          jobs = map (\<lambda>(job_id, b). scheduled_job cfg policy args now job_id b) numbered;
          pending = map (\<lambda>(job_id, b). (job_id, group_queue cfg policy (fst (fst b)),
                                         scheduled_message cfg policy args job_id b)) numbered;
          committed = s\<lparr>sc_jobs := sc_jobs s @ jobs, sc_uuids := sc_uuids s + length numbered\<rparr>
      in (sum_list (map (length \<circ> snd \<circ> snd) numbered), publish_pending w pending committed))"

section \<open>The cron tick\<close>

definition find_policy :: "string \<Rightarrow> sched \<Rightarrow> sla_policy option" where
  "find_policy pid s = find (\<lambda>p. p_id p = pid) (sc_policies s)"

definition max_concurrent_of :: "sla_policy \<Rightarrow> int" where
  "max_concurrent_of policy = (case p_max_concurrent_backups policy of None \<Rightarrow> 0 | Some n \<Rightarrow> n)"

record overlap_state =
  ov_hold :: bool
  ov_inflight_jobs :: int
  ov_oldest :: "datetime option"
  ov_stale_after :: rat

text \<open>The overlap decision; an override is audited and the tick goes on.\<close>

definition overlap_stage :: "world \<Rightarrow> bool \<Rightarrow> utc \<Rightarrow> sla_policy \<Rightarrow> sched \<Rightarrow> overlap_state \<times> sched" where
  "overlap_stage w respect_overlap_guard now policy s =
     (let stale = overlap_stale_after_hours (w_float w) (w_env w) (p_frequency policy) None
      in (case scheduled_inflight_query (p_id policy) (sc_jobs s) of
            (inflight_jobs, oldest) \<Rightarrow>
              let action = decide_overlap_action inflight_jobs oldest (Naive now) stale
                             (respect_overlap_guard \<and> overlap_guard_enabled (w_env w));
                  ov = \<lparr>ov_hold = (action = SKIP), ov_inflight_jobs = inflight_jobs, ov_oldest = oldest,
                        ov_stale_after = stale\<rparr>
              in (ov, if action = OVERRIDE
                      then publish_cycle_audit_event w policy ''BACKUP_CYCLE_OVERLAP_OVERRIDE'' ''PARTIAL''
                             (OverlapDetails (overlap_audit_details policy action inflight_jobs oldest stale)) s
                      else s)))"

definition policy_resources :: "sla_policy \<Rightarrow> sched \<Rightarrow> resource list" where
  "policy_resources policy s =
     filter (\<lambda>r. r_sla_policy_id r = Some (p_id policy) \<and> dispatchable r) (sc_resources s)"

definition in_scope :: "sla_policy \<Rightarrow> resource \<Rightarrow> bool" where
  "in_scope policy r = resource_type_enabled (r_type r) policy"

text \<open>
  Holding back what is in flight: no resources left ends the tick (\<open>None\<close>), otherwise the resources
  that go on and the held ones.
\<close>

definition hold_stage ::
    "world \<Rightarrow> sla_policy \<Rightarrow> overlap_state \<Rightarrow> resource list \<Rightarrow> sched \<Rightarrow> (resource list \<times> resource list) option \<times> sched" where
  "hold_stage w policy ov enabled s =
     (if \<not> ov_hold ov then (Some (enabled, []), s)
      else (case partition_overlap_holds enabled (set (inflight_resource_ids_query (sc_jobs s) (sc_snapshots s))) of
              (idle, held) \<Rightarrow>
                if idle = [] then
                  (None, publish_cycle_audit_event w policy ''BACKUP_CYCLE_SKIPPED_OVERLAP'' ''PARTIAL''
                           (OverlapDetails (overlap_audit_details policy SKIP (ov_inflight_jobs ov) (ov_oldest ov)
                                              (ov_stale_after ov))) s)
                else if held \<noteq> [] then
                  (Some (idle, held),
                   publish_cycle_audit_event w policy ''BACKUP_CYCLE_PARTIAL_OVERLAP'' ''PARTIAL''
                     (OverlapDetails (overlap_partial_audit_details policy held (ov_inflight_jobs ov) (ov_oldest ov)
                                        (length idle))) s)
                else (Some (idle, held), s)))"

definition power_bi_workspace :: "resource \<Rightarrow> string option" where
  "power_bi_workspace r =
     (case r_workspace_id r of
        Some (c # cs) \<Rightarrow> Some (c # cs)
      | other \<Rightarrow> if r_external_id r \<noteq> [] \<and> take 7 (r_external_id r) = ''pbi_ws_''
                 then Some (drop 7 (r_external_id r)) else other)"

definition DAYS_30 :: int where
  "DAYS_30 = 30 * 24 * 3600 * SECOND"

definition MINUTES_31 :: int where
  "MINUTES_31 = 31 * 60 * SECOND"

text \<open>All timestamps compared here are naive: \<open>utcnow\<close> and the \<open>DateTime\<close> column \<open>last_backup_at\<close>.\<close>

definition power_bi_modified_since :: "utc \<Rightarrow> resource list \<Rightarrow> utc" where
  "power_bi_modified_since now with_backup =
     (let since = max (Min (set (List.map_filter (\<lambda>r. naive_utc (r_last_backup_at r)) with_backup))) (now - DAYS_30)
      in if since > now - MINUTES_31 then now - MINUTES_31 else since)"

definition power_bi_kept :: "world \<Rightarrow> utc \<Rightarrow> string list \<Rightarrow> string \<times> resource list \<Rightarrow> string list" where
  "power_bi_kept w now tenants g =
     (case g of
        (tenant_id, rs) \<Rightarrow>
          let without = filter (\<lambda>r. r_last_backup_at r = None) rs;
              with_backup = filter (\<lambda>r. r_last_backup_at r \<noteq> None) rs
          in if tenant_id \<notin> set tenants then map r_id rs
             else if with_backup = [] then map r_id without
             else (case w_list_modified w tenant_id (power_bi_modified_since now with_backup) of
                     Inl _ \<Rightarrow> map r_id rs
                   | Inr modified \<Rightarrow>
                       map r_id without
                       @ map r_id (filter (\<lambda>r. case power_bi_workspace r of
                                                 None \<Rightarrow> False | Some ws \<Rightarrow> ws \<in> set modified) with_backup)))"

definition power_bi_prefilter :: "world \<Rightarrow> utc \<Rightarrow> string list \<Rightarrow> resource list \<Rightarrow> resource list" where
  "power_bi_prefilter w now tenants enabled =
     (let kept = concat (map (power_bi_kept w now tenants)
                           (group_by r_tenant_id (filter (\<lambda>r. r_type r = ''POWER_BI'') enabled)))
      in filter (\<lambda>r. r_type r \<noteq> ''POWER_BI'' \<or> r_id r \<in> set kept) enabled)"

text \<open>The concurrency cap: \<open>None\<close> ends the tick with everything deferred.\<close>

definition cap_stage ::
    "world \<Rightarrow> sla_policy \<Rightarrow> resource list \<Rightarrow> sched \<Rightarrow> (resource list \<times> resource list) option \<times> sched" where
  "cap_stage w policy enabled s =
     (let max_concurrent = max_concurrent_of policy
      in if max_concurrent > 0 then
           let inflight = int (inflight_resource_count_query (p_id policy) (sc_jobs s) (sc_snapshots s))
           in (case plan_concurrency_budget enabled max_concurrent inflight of
                 (run, deferred) \<Rightarrow>
                   let s1 = (if deferred \<noteq> []
                             then publish_cycle_audit_event w policy ''BACKUP_DEFERRED_CONCURRENCY_CAP'' ''PARTIAL''
                                    (DeferredDetails (deferred_audit_details policy deferred max_concurrent inflight
                                                        (length run))) s
                             else s)
                   in (if run = [] then None else Some (run, deferred), s1))
         else (Some (enabled, []), s))"

definition dispatch_first_wave ::
    "world \<Rightarrow> sla_policy \<Rightarrow> resource list \<Rightarrow> resource list \<Rightarrow> resource list \<Rightarrow> resource list \<Rightarrow> utc \<Rightarrow> sched \<Rightarrow> sched" where
  "dispatch_first_wave w policy run deferred held skipped now s =
     (let batch_id = w_uuid4 w (sc_uuids s)
      in snd (dispatch_resources w policy run
                \<lparr>da_batch_id = batch_id, da_deferred = map r_id deferred, da_overlap_held = map r_id held,
                 da_sla_skipped = map r_id skipped, da_wave = 1\<rparr> now (s\<lparr>sc_uuids := sc_uuids s + 1\<rparr>)))"

text \<open>From the licensed resources on: hold, Power BI prefilter, cap, jobs.\<close>

definition dispatch_eligible ::
    "world \<Rightarrow> sla_policy \<Rightarrow> overlap_state \<Rightarrow> resource list \<Rightarrow> resource list \<Rightarrow> utc \<Rightarrow> sched \<Rightarrow> sched" where
  "dispatch_eligible w policy ov eligible skipped now s =
     (case hold_stage w policy ov eligible s of
        (None, s1) \<Rightarrow> s1
      | (Some (idle, held), s1) \<Rightarrow>
          (case cap_stage w policy (power_bi_prefilter w now (sc_tenants s1) idle) s1 of
             (None, s2) \<Rightarrow> s2
           | (Some (run, deferred), s2) \<Rightarrow> dispatch_first_wave w policy run deferred held skipped now s2))"

definition dispatch_policy_backups_impl :: "world \<Rightarrow> bool \<Rightarrow> utc \<Rightarrow> string \<Rightarrow> sched \<Rightarrow> unit result \<times> sched" where
  "dispatch_policy_backups_impl w respect_overlap_guard now pid s =
     (case find_policy pid s of
        None \<Rightarrow> (Inr (), s)
      | Some policy \<Rightarrow>
          if \<not> p_enabled policy then (Inr (), s)
          else (case overlap_stage w respect_overlap_guard now policy s of
                  (ov, s1) \<Rightarrow>
                    let all_resources = policy_resources policy s1;
                        enabled = filter (in_scope policy) all_resources;
                        skipped = filter (\<lambda>r. \<not> in_scope policy r) all_resources;
                        eligible = filter resource_backup_eligible enabled
                    in if all_resources = [] then (Inr (), s1)
                       else (case publish_sla_skip_audit_events w policy skipped s1 of
                               (Inl e, s2) \<Rightarrow> (Inl e, s2)
                             | (Inr _, s2) \<Rightarrow>
                                 if enabled = [] then (Inr (), s2)
                                 else (case publish_license_skip_audit_events w policy
                                              (filter (\<lambda>r. \<not> resource_backup_eligible r) enabled) s2 of
                                         (Inl e, s3) \<Rightarrow> (Inl e, s3)
                                       | (Inr _, s3) \<Rightarrow>
                                           if eligible = [] then (Inr (), s3)
                                           else (Inr (), dispatch_eligible w policy ov eligible skipped now s3)))))"

definition dispatch_policy_backups :: "world \<Rightarrow> bool \<Rightarrow> utc \<Rightarrow> string \<Rightarrow> sched \<Rightarrow> unit result \<times> sched" where
  "dispatch_policy_backups w respect_overlap_guard now pid s =
     dispatch_policy_backups_impl w respect_overlap_guard now pid (s\<lparr>sc_exhausted := (sc_exhausted s)(pid := None)\<rparr>)"

text \<open>The operator's trigger goes round the overlap guard.\<close>

definition trigger_policy_backup :: "world \<Rightarrow> utc \<Rightarrow> string \<Rightarrow> sched \<Rightarrow> unit result \<times> sched" where
  "trigger_policy_backup w now pid s = dispatch_policy_backups w False now pid s"

section \<open>The drain\<close>

definition enabled_type_values :: "sla_policy \<Rightarrow> string list" where
  "enabled_type_values policy = filter (\<lambda>rt. resource_type_enabled rt policy) RESOURCE_TYPES"

definition report_incomplete ::
    "world \<Rightarrow> sla_policy \<Rightarrow> bool \<Rightarrow> resource list \<Rightarrow> resource list \<Rightarrow> cycle_window \<Rightarrow> string option \<Rightarrow> sched \<Rightarrow> sched" where
  "report_incomplete w policy closing remaining held window final_batch_id s =
     (if closing \<and> (remaining \<noteq> [] \<or> held \<noteq> []) \<and> sc_incomplete s (p_id policy) \<noteq> Some (cw_end window)
      then publish_cycle_audit_event w policy ''BACKUP_CYCLE_INCOMPLETE'' ''PARTIAL''
             (IncompleteDetails (cycle_incomplete_audit_details policy remaining final_batch_id (cw_end window) 200 held))
             (s\<lparr>sc_incomplete := (sc_incomplete s)(p_id policy \<mapsto> cw_end window)\<rparr>)
      else s)"

text \<open>Wave number and batch id: those of the open cycle, or a cycle the drain opens itself.\<close>

definition drain_wave ::
    "world \<Rightarrow> sla_policy \<Rightarrow> cycle_window \<Rightarrow> bool \<Rightarrow> int \<Rightarrow> int \<Rightarrow> resource list \<Rightarrow> resource list \<Rightarrow> resource list
     \<Rightarrow> utc \<Rightarrow> sched \<Rightarrow> nat \<times> sched" where
  "drain_wave w policy window closing max_concurrent inflight wave_items remaining held now s =
     (let since = cw_start window;
          looked_up = cycle_batch_id_query (p_id policy) since (sc_jobs s);
          started_cycle = (looked_up = None);
          batch_id = (case looked_up of None \<Rightarrow> w_uuid4 w (sc_uuids s) | Some b \<Rightarrow> b);
          s1 = (if started_cycle then s\<lparr>sc_uuids := sc_uuids s + 1\<rparr> else s);
          wave = (if started_cycle then 1 else max (cycle_max_wave_query (p_id policy) since (sc_jobs s)) 1 + 1);
          args = \<lparr>da_batch_id = batch_id, da_deferred = map r_id remaining, da_overlap_held = map r_id held,
                  da_sla_skipped = sla_skipped_ids_query (p_id policy) (enabled_type_values policy) (sc_resources s),
                  da_wave = wave\<rparr>
      in (case dispatch_resources w policy wave_items args now s1 of
            (n_sent, s2) \<Rightarrow>
              let s3 = publish_cycle_audit_event w policy ''BACKUP_CYCLE_WAVE_DISPATCHED'' ''SUCCESS''
                         (WaveDetails (wave_audit_details policy batch_id wave n_sent (length remaining) (length held)
                                         inflight max_concurrent started_cycle)) s2
              in (n_sent, report_incomplete w policy closing remaining held window (Some batch_id) s3)))"

definition drain_open_cycle :: "world \<Rightarrow> sla_policy \<Rightarrow> int \<Rightarrow> cycle_window \<Rightarrow> utc \<Rightarrow> sched \<Rightarrow> nat \<times> sched" where
  "drain_open_cycle w policy max_concurrent window now s =
     (let pid = p_id policy;
          closing = (now \<ge> cw_end window - drain_tick_seconds (w_env w) * SECOND);
          inflight = int (inflight_resource_count_query pid (sc_jobs s) (sc_snapshots s));
          budget = max_concurrent - inflight;
          since = cw_start window;
          enabled_types = enabled_type_values policy;
          rows = drain_candidates_query pid since enabled_types (sc_jobs s) (sc_resources s)
      in if budget \<le> 0 \<and> \<not> closing then (0, s)
         else if enabled_types = [] then (0, s)
         else if rows = [] then (0, s\<lparr>sc_exhausted := (sc_exhausted s)(pid \<mapsto> cw_end window)\<rparr>)
         else (case partition_overlap_holds rows
                      (set (inflight_resource_ids_query (sc_jobs s) (sc_snapshots s))) of
                 (candidates, held) \<Rightarrow>
                   let ordered = sort_key backup_priority_key candidates;
                       wave_items = plan_wave ordered (max 0 budget) max_concurrent
                                      (if closing then 0 else DRAIN_MIN_WAVE_FRACTION);
                       remaining = drop (length wave_items) ordered
                   in if wave_items = []
                      then (0, report_incomplete w policy closing remaining held window
                                 (cycle_batch_id_query pid since (sc_jobs s)) s)
                      else drain_wave w policy window closing max_concurrent inflight wave_items remaining held now s))"

definition drain_policy_cycle :: "world \<Rightarrow> utc \<Rightarrow> string \<Rightarrow> sched \<Rightarrow> nat \<times> sched" where
  "drain_policy_cycle w now pid s =
     (if \<not> drain_enabled (w_env w) then (0, s)
      else (case find_policy pid s of
              None \<Rightarrow> (0, s)
            | Some policy \<Rightarrow>
                if \<not> p_enabled policy then (0, s)
                else if max_concurrent_of policy \<le> 0 then (0, s)
                else (case policy_cycle_trigger (w_md5 w) (w_CronTrigger w) (sc_timers s) policy of
                        None \<Rightarrow> (0, s)
                      | Some trigger \<Rightarrow>
                          (case cycle_window_from_trigger trigger (Naive now) of
                             None \<Rightarrow> (0, s)
                           | Some window \<Rightarrow>
                               if \<not> cycle_is_drainable window (Naive now) DRAIN_CYCLE_GRACE_S then (0, s)
                               else if \<not> within_backup_window (Naive now) (p_backup_window_start policy)
                                           (p_backup_window_end policy) then (0, s)
                               else if sc_exhausted s pid = Some (cw_end window) then (0, s)
                               else drain_open_cycle w policy (max_concurrent_of policy) window now s))))"

definition drain_policy_cycles :: "world \<Rightarrow> utc \<Rightarrow> sched \<Rightarrow> sched" where
  "drain_policy_cycles w now s =
     (if \<not> drain_enabled (w_env w) then s
      else fold (\<lambda>pid s1. snd (drain_policy_cycle w now pid s1)) (drainable_policies_query (sc_policies s)) s)"

section \<open>Catch-up after downtime\<close>

definition scheduled_since :: "string \<Rightarrow> utc \<Rightarrow> job list \<Rightarrow> int" where
  "scheduled_since pid since jobs = int (length (filter (cycle_scheduled_jobs_filter pid since) jobs))"

definition MINUTES_5 :: int where
  "MINUTES_5 = 5 * 60 * SECOND"

text \<open>The latest missed fire of one policy, if it is to be dispatched.\<close>

definition missed_fire :: "world \<Rightarrow> int \<Rightarrow> utc \<Rightarrow> sched \<Rightarrow> sla_policy \<Rightarrow> utc option" where
  "missed_fire w lookback_minutes now s policy =
     (if max_concurrent_of policy > 0 then None
      else let window_start = now - max 60 lookback_minutes * MINUTE;
               active_since = (case p_created_at policy of None \<Rightarrow> window_start | Some t \<Rightarrow> aware_utc t);
               fires = policy_fire_times_between (w_md5 w) policy (Naive (max window_start active_since)) (Naive now);
               enabled_count = length (filter (\<lambda>r. in_scope policy r \<and> resource_backup_eligible r)
                                         (policy_resources policy s))
           in if fires = [] then None
              else if enabled_count \<le> 0 then None
              else if fst (scheduled_inflight_query (p_id policy) (sc_jobs s)) \<noteq> 0 then None
              else if scheduled_since (p_id policy) (List.last fires - MINUTES_5) (sc_jobs s) \<noteq> 0 then None
              else Some (List.last fires))"

text \<open>The re-check under the policy's lock; an exception of the dispatch is logged.\<close>

definition catch_up_dispatch :: "world \<Rightarrow> utc \<Rightarrow> string \<times> utc \<Rightarrow> sched \<Rightarrow> sched" where
  "catch_up_dispatch w now m s =
     (case m of
        (pid, last_fire) \<Rightarrow>
          if scheduled_since pid (last_fire - MINUTES_5) (sc_jobs s) \<noteq> 0 then s
          else snd (dispatch_policy_backups_impl w True now pid
                      (s\<lparr>sc_exhausted := (sc_exhausted s)(pid := None)\<rparr>)))"

definition catch_up_missed_policy_runs :: "world \<Rightarrow> int \<Rightarrow> utc \<Rightarrow> sched \<Rightarrow> sched" where
  "catch_up_missed_policy_runs w lookback_minutes now s =
     (let to_dispatch =
            List.map_filter (\<lambda>p. map_option (Pair (p_id p)) (missed_fire w lookback_minutes now s p))
              (filter (\<lambda>p. p_enabled p \<and> (case p_frequency p of None \<Rightarrow> False | Some f \<Rightarrow> f \<noteq> ''MANUAL''))
                 (sc_policies s))
      in fold (catch_up_dispatch w now) to_dispatch s)"

section \<open>Single and pre-emptive backups\<close>

definition plain_spec :: "string \<Rightarrow> bool \<Rightarrow> string option \<Rightarrow> job_spec" where
  "plain_spec trigger_label full_backup resource_type =
     \<lparr>sp_sla_policy_id = None, sp_triggered_by = Some trigger_label, sp_batch_id = None, sp_wave = None,
      sp_resource_type = resource_type, sp_full_backup = full_backup, sp_deferred_resource_ids = [],
      sp_overlap_held_resource_ids = [], sp_sla_skipped_resource_ids = [], sp_queue = None\<rparr>"

datatype trigger_reply = NotFound | Unavailable resource_status | Queued string

definition trigger_single_backup ::
    "world \<Rightarrow> utc \<Rightarrow> string \<Rightarrow> bool \<Rightarrow> sched \<Rightarrow> trigger_reply result \<times> sched" where
  "trigger_single_backup w now resource_id full_backup s =
     (case find (\<lambda>r. r_id r = resource_id) (sc_resources s) of
        None \<Rightarrow> (Inr NotFound, s)
      | Some r \<Rightarrow>
          if r_status r \<in> {R_INACCESSIBLE, R_SUSPENDED, R_PENDING_DELETION} then (Inr (Unavailable (r_status r)), s)
          else let job_id = w_uuid4 w (sc_uuids s);
                   job = \<lparr>j_id = job_id, j_type = BACKUP, j_tenant_id = r_tenant_id r, j_resource_id = Some (r_id r),
                          j_batch_resource_ids = Some [], j_status = J_QUEUED, j_priority = 1,
                          j_spec = plain_spec ''MANUAL'' full_backup None, j_created_at = now\<rparr>;
                   s1 = s\<lparr>sc_jobs := sc_jobs s @ [job], sc_uuids := sc_uuids s + 1\<rparr>
               in (case publish w ''backup.urgent''
                          (SingleBackup \<lparr>sb_job_id = job_id, sb_resource_id = resource_id,
                                         sb_triggered_by = ''MANUAL'', sb_force_full = full_backup\<rparr>) s1 of
                     (Inl e, s2) \<Rightarrow> (Inl e, s2)
                   | (Inr _, s2) \<Rightarrow> (Inr (Queued job_id), s2\<lparr>sc_triggered := sc_triggered s2 @ [job_id]\<rparr>)))"

text \<open>The job row is added to the session and the message published; the caller commits later.\<close>

definition trigger_preemptive_backup_for_resource ::
    "world \<Rightarrow> utc \<Rightarrow> resource \<Rightarrow> sched \<Rightarrow> (string \<times> job) result \<times> sched" where
  "trigger_preemptive_backup_for_resource w now r s =
     (let job_id = w_uuid4 w (sc_uuids s);
          job = \<lparr>j_id = job_id, j_type = BACKUP, j_tenant_id = r_tenant_id r, j_resource_id = None,
                 j_batch_resource_ids = Some [r_id r], j_status = J_QUEUED, j_priority = 1,
                 j_spec = plain_spec ''PREEMPTIVE'' False (Some (r_type r)), j_created_at = now\<rparr>
      in (case publish w ''backup.urgent''
                 (SingleBackup \<lparr>sb_job_id = job_id, sb_resource_id = r_id r, sb_triggered_by = ''PREEMPTIVE'',
                                sb_force_full = False\<rparr>) (s\<lparr>sc_uuids := sc_uuids s + 1\<rparr>) of
            (Inl e, s1) \<Rightarrow> (Inl e, s1)
          | (Inr _, s1) \<Rightarrow> (Inr (job_id, job), s1\<lparr>sc_triggered := sc_triggered s1 @ [job_id]\<rparr>)))"

section \<open>The SLA check\<close>

text \<open>
  \<open>last_backup_at\<close> is a \<open>DateTime\<close> column without a zone, so it is read back naive, as \<open>now\<close> is, and
  the subtraction never mixes the two kinds of timestamp.
\<close>

definition violation_of :: "utc \<Rightarrow> string set \<Rightarrow> sla_policy \<Rightarrow> resource \<Rightarrow> sla_violation option" where
  "violation_of now inflight_ids policy r =
     (if \<not> policy_has_sla_cadence (p_frequency policy) then None
      else let frequency_hours = frequency_interval_hours (p_frequency policy);
               in_progress = (r_id r \<in> inflight_ids);
               hours_since = map_option (\<lambda>t. hours_of (now - t)) (naive_utc (r_last_backup_at r))
           in map_option
                (\<lambda>sev. \<lparr>v_resource_id = r_id r, v_tenant_id = r_tenant_id r, v_resource_type = r_type r,
                       v_policy_id = p_id policy, v_never_backed_up = (r_last_backup_at r = None),
                       v_backup_in_progress = in_progress,
                       v_hours_overdue = map_option (\<lambda>h. h - frequency_hours) hours_since, v_severity = sev\<rparr>)
                (classify_sla_violation hours_since frequency_hours (r_last_backup_at r = None) in_progress))"

definition check_sla_violations :: "utc \<Rightarrow> sched \<Rightarrow> sla_violation list" where
  "check_sla_violations now s =
     (let inflight_ids = set (inflight_resource_ids_query (sc_jobs s) (sc_snapshots s))
      in List.map_filter
           (\<lambda>r. case Option.bind (r_sla_policy_id r) (\<lambda>pid. find_policy pid s) of
                  None \<Rightarrow> None
                | Some policy \<Rightarrow>
                    if p_enabled policy \<and> p_sla_violation_alert policy then violation_of now inflight_ids policy r
                    else None)
           (filter dispatchable (sc_resources s)))"

section \<open>Batches\<close>

lemma plain_chunks_nonempty:
  assumes "0 < n" and "c \<in> set (plain_chunks n xs)"
  shows "c \<noteq> []"
  using assms(2)
proof (induction "length xs" arbitrary: xs rule: less_induct)
  case less
  show ?case
  proof (cases "xs = []")
    case False
    then have "length (drop n xs) < length xs" using assms(1) by simp
    from less.hyps [OF this] less.prems False assms(1) show ?thesis by (auto simp: plain_chunks_step)
  qed (use less.prems assms(1) in simp)
qed

lemma add_to_group_mset:
  "mset (concat (map snd (add_to_group k r gs))) = add_mset r (mset (concat (map snd gs)))"
  by (induction k r gs rule: add_to_group.induct) auto

definition keyed :: "('r \<Rightarrow> 'k) \<Rightarrow> ('k \<times> 'r list) list \<Rightarrow> bool" where
  "keyed key gs = list_all (\<lambda>(k, rs). list_all (\<lambda>r. key r = k) rs) gs"

lemma add_to_group_keyed:
  "keyed key gs \<Longrightarrow> k = key r \<Longrightarrow> keyed key (add_to_group k r gs)"
  by (induction k r gs rule: add_to_group.induct) (auto simp: keyed_def)

lemma group_by_from:
  assumes "keyed key gs"
  shows "mset (concat (map snd (foldl (\<lambda>groups r. add_to_group (key r) r groups) gs rs)))
           = mset (concat (map snd gs)) + mset rs
    \<and> keyed key (foldl (\<lambda>groups r. add_to_group (key r) r groups) gs rs)"
  using assms
proof (induction rs arbitrary: gs)
  case (Cons r rs)
  from Cons.IH [OF add_to_group_keyed [OF Cons.prems refl, of r]] show ?case
    by (simp add: add_to_group_mset)
qed simp

lemma group_by_mset: "mset (concat (map snd (group_by key rs))) = mset rs"
  using group_by_from [of key "[]" rs] by (simp add: group_by_def keyed_def)

lemma group_by_keyed: "(k, g) \<in> set (group_by key rs) \<Longrightarrow> x \<in> set g \<Longrightarrow> key x = k"
  using group_by_from [of key "[]" rs] by (auto simp: group_by_def keyed_def list_all_iff)

lemma concat_batches: "concat (map snd (concat (map (\<lambda>(key, rs). map (Pair key) (plain_chunks BATCH_SIZE rs)) gs)))
    = concat (map snd gs)"
  by (induction gs) (auto simp: BATCH_SIZE_def comp_def)

lemma batches_of_mset: "mset (concat (map snd (batches_of rs))) = mset rs"
  unfolding batches_of_def concat_batches by (rule group_by_mset)

lemma batches_of_spec:
  assumes "(key, b) \<in> set (batches_of rs)"
  shows "b \<noteq> [] \<and> length b \<le> 1000 \<and> (\<forall>r\<in>set b. (r_type r, r_tenant_id r) = key)"
proof -
  let ?k = "\<lambda>r. (r_type r, r_tenant_id r)"
  obtain g where g: "(key, g) \<in> set (group_by ?k rs)" "b \<in> set (plain_chunks BATCH_SIZE g)"
    using assms by (auto simp: batches_of_def)
  have p: "0 < BATCH_SIZE" by (simp add: BATCH_SIZE_def)
  have "set b \<subseteq> set g" using g(2) concat_plain_chunks [OF p, of g] by (metis UN_upper set_concat)
  moreover have "\<forall>r\<in>set g. ?k r = key" using group_by_keyed [OF g(1)] by simp
  ultimately show ?thesis
    using plain_chunks_nonempty [OF p g(2)] plain_chunks_bound [OF p g(2)] by (auto simp: BATCH_SIZE_def)
qed

section \<open>Frames\<close>

definition rows :: "sched \<Rightarrow> sla_policy list \<times> resource list \<times> job list \<times> snapshot list \<times> string list \<times> timers" where
  "rows s = (sc_policies s, sc_resources s, sc_jobs s, sc_snapshots s, sc_tenants s, sc_timers s)"

lemma rows_eqD:
  assumes "rows s = rows t"
  shows "sc_policies s = sc_policies t" "sc_resources s = sc_resources t" "sc_jobs s = sc_jobs t"
    "sc_snapshots s = sc_snapshots t" "sc_tenants s = sc_tenants t" "sc_timers s = sc_timers t"
  using assms by (simp_all add: rows_def)

lemma rows_publish [simp]: "rows (snd (publish w q m s)) = rows s"
  by (simp add: publish_def rows_def split: option.splits)

lemma rows_publish_cycle [simp]: "rows (publish_cycle_audit_event w p a out d s) = rows s"
  by (simp add: publish_cycle_audit_event_def)

lemma rows_publish_all: "rows (snd (publish_all w es s)) = rows s"
proof (induction es arbitrary: s)
  case (Cons e es)
  obtain r s1 where p: "publish w ''audit.events'' (AuditEvent e) s = (r, s1)" by fastforce
  then have "rows s1 = rows s" using rows_publish [of w "''audit.events''" "AuditEvent e" s] by simp
  with Cons [of s1] show ?case by (simp add: p split: sum.splits)
qed simp

lemma rows_publish_all_eq: "publish_all w es s = (r, s') \<Longrightarrow> rows s' = rows s"
  using rows_publish_all [of w es s] by simp

lemma rows_publish_pending [simp]: "rows (publish_pending w ps s) = rows s"
proof (induction ps arbitrary: s)
  case (Cons p ps)
  obtain j q m where p: "p = (j, q, m)" by (cases p)
  let ?s1 = "snd (publish w q (MassBackup m) s)"
  have "rows (?s1\<lparr>sc_triggered := sc_triggered ?s1 @ [j]\<rparr>) = rows ?s1" by (simp add: rows_def)
  with Cons show ?case by (simp add: p Let_def)
qed simp

lemma rows_overlap_stage: "overlap_stage w g now p s = (ov, s1) \<Longrightarrow> rows s1 = rows s"
  by (auto simp: overlap_stage_def Let_def split: prod.splits if_splits)

lemma rows_hold_stage: "hold_stage w p ov rs s = (r, s1) \<Longrightarrow> rows s1 = rows s"
  by (auto simp: hold_stage_def split: prod.splits if_splits)

lemma rows_cap_stage: "cap_stage w p rs s = (r, s1) \<Longrightarrow> rows s1 = rows s"
  by (auto simp: cap_stage_def Let_def split: prod.splits if_splits)

lemma rows_report_incomplete [simp]: "rows (report_incomplete w p c rem held win b s) = rows s"
  by (simp add: report_incomplete_def) (simp add: rows_def)

lemma rows_memo [simp]:
  "rows (s\<lparr>sc_exhausted := m\<rparr>) = rows s" "rows (s\<lparr>sc_incomplete := m\<rparr>) = rows s" "rows (s\<lparr>sc_uuids := n\<rparr>) = rows s"
  by (simp_all add: rows_def)

section \<open>What a dispatch adds\<close>

definition new_jobs :: "world \<Rightarrow> sla_policy \<Rightarrow> resource list \<Rightarrow> dispatch_args \<Rightarrow> utc \<Rightarrow> nat \<Rightarrow> job list" where
  "new_jobs w policy rs args now n =
     map (\<lambda>(k, b). scheduled_job (w_settings w) policy args now (w_uuid4 w k) b) (enumerate n (batches_of rs))"

definition batch_ids :: "job list \<Rightarrow> string list" where
  "batch_ids js = concat (map (\<lambda>j. case j_batch_resource_ids j of None \<Rightarrow> [] | Some ids \<Rightarrow> ids) js)"

lemma map_enumerate_snd: "map (\<lambda>(k, b). f b) (enumerate n xs) = map f xs"
  by (induction xs arbitrary: n) simp_all

lemma dispatch_resources_rows:
  "rows (snd (dispatch_resources w policy rs args now s))
     = rows (s\<lparr>sc_jobs := sc_jobs s @ new_jobs w policy rs args now (sc_uuids s)\<rparr>)"
  by (simp add: dispatch_resources_def Let_def) (simp add: rows_def new_jobs_def comp_def case_prod_unfold)

lemma batch_ids_new_jobs: "mset (batch_ids (new_jobs w policy rs args now n)) = mset (map r_id rs)"
proof -
  have "batch_ids (new_jobs w policy rs args now n) = map r_id (concat (map snd (batches_of rs)))"
    unfolding batch_ids_def new_jobs_def
    by (simp add: comp_def case_prod_unfold scheduled_job_def map_concat)
      (simp add: map_enumerate_snd [of "\<lambda>b. map r_id (snd b)", unfolded case_prod_unfold])
  then show ?thesis using batches_of_mset [of rs] by (simp only: mset_map)
qed

lemma dispatch_resources_count: "fst (dispatch_resources w policy rs args now s) = length rs"
proof -
  have "fst (dispatch_resources w policy rs args now s) = length (concat (map snd (batches_of rs)))"
    by (simp add: dispatch_resources_def Let_def comp_def case_prod_unfold length_concat)
      (simp add: map_enumerate_snd [of "\<lambda>b. length (snd b)", unfolded case_prod_unfold])
  also have "\<dots> = length rs" using batches_of_mset [of rs] by (metis size_mset)
  finally show ?thesis .
qed

lemma new_jobs_shape:
  assumes "j \<in> set (new_jobs w policy rs args now n)"
  shows "\<exists>k key b. (key, b) \<in> set (batches_of rs) \<and> j = scheduled_job (w_settings w) policy args now (w_uuid4 w k) (key, b)"
proof -
  obtain k b where kb: "(k, b) \<in> set (enumerate n (batches_of rs))"
    and j: "j = scheduled_job (w_settings w) policy args now (w_uuid4 w k) b"
    using assms by (auto simp: new_jobs_def)
  from kb have "b \<in> set (batches_of rs)" by (auto simp: in_set_enumerate_eq dest: sym)
  with j show ?thesis by (cases b) blast
qed

section \<open>In-flight resources\<close>

definition inflight_ids :: "string option \<Rightarrow> job list \<Rightarrow> snapshot list \<Rightarrow> string set" where
  "inflight_ids pol jobs snaps = {r. \<exists>jid st. (jid, st, r) \<in> set (inflight_members pol jobs) \<and> member_in_flight snaps (jid, st, r)}"

lemma finite_inflight_ids: "finite (inflight_ids pol jobs snaps)"
proof (rule finite_subset)
  show "inflight_ids pol jobs snaps \<subseteq> (snd \<circ> snd) ` set (inflight_members pol jobs)"
    by (force simp: inflight_ids_def)
qed simp

lemma inflight_count: "inflight_resource_count_query pid jobs snaps = card (inflight_ids (Some pid) jobs snaps)"
proof -
  have "set (map (\<lambda>(_, _, r). r) (filter (member_in_flight snaps) (inflight_members (Some pid) jobs)))
      = inflight_ids (Some pid) jobs snaps"
    by (auto simp: inflight_ids_def image_iff) blast
  then show ?thesis by (simp only: inflight_resource_count_query_def length_remdups_card_conv)
qed

lemma inflight_all: "set (inflight_resource_ids_query jobs snaps) = inflight_ids None jobs snaps"
  by (auto simp: inflight_resource_ids_query_def inflight_ids_def image_iff) blast

lemma inflight_members_append:
  "set (inflight_members pol (a @ b)) = set (inflight_members pol a) \<union> set (inflight_members pol b)"
  by (auto simp: inflight_members_def inflight_jobs_of_def)

lemma inflight_ids_append: "inflight_ids pol (a @ b) snaps = inflight_ids pol a snaps \<union> inflight_ids pol b snaps"
  by (auto simp: inflight_ids_def inflight_members_append)

lemma inflight_ids_queued:
  assumes "\<And>j. j \<in> set js \<Longrightarrow> j_type j = BACKUP \<and> j_status j = J_QUEUED \<and> j_resource_id j = None
      \<and> (pol = None \<or> sp_sla_policy_id (j_spec j) = pol)"
  shows "inflight_ids pol js snaps = set (batch_ids js)"
proof -
  have live: "inflight_jobs_of pol js = js"
    using assms by (auto simp: inflight_jobs_of_def job_live_def filter_id_conv)
  have "set (inflight_members pol js)
      = {(j_id j, J_QUEUED, r) |j r. j \<in> set js \<and> (\<exists>ids. j_batch_resource_ids j = Some ids \<and> r \<in> set ids)}"
    unfolding inflight_members_def live using assms by (auto split: option.splits) metis+
  moreover have "set (batch_ids js) = {r. \<exists>j\<in>set js. \<exists>ids. j_batch_resource_ids j = Some ids \<and> r \<in> set ids}"
    by (auto simp: batch_ids_def split: option.splits) metis
  ultimately show ?thesis by (auto simp: inflight_ids_def member_in_flight_def)
qed

lemma inflight_ids_other:
  assumes "\<And>j. j \<in> set js \<Longrightarrow> sp_sla_policy_id (j_spec j) \<noteq> Some pid"
  shows "inflight_ids (Some pid) js snaps = {}"
proof -
  have "inflight_jobs_of (Some pid) js = []"
    using assms by (auto simp: inflight_jobs_of_def filter_empty_conv)
  then show ?thesis by (simp add: inflight_ids_def inflight_members_def)
qed

lemma new_jobs_fields:
  assumes "j \<in> set (new_jobs w policy rs args now n)"
  shows "j_type j = BACKUP" "j_status j = J_QUEUED" "j_resource_id j = None" "j_created_at j = now"
    "sp_sla_policy_id (j_spec j) = Some (p_id policy)" "sp_triggered_by (j_spec j) = Some ''SCHEDULED''"
    "sp_batch_id (j_spec j) = Some (da_batch_id args)" "sp_wave (j_spec j) = Some (da_wave args)"
  using new_jobs_shape [OF assms] by (auto simp: scheduled_job_def)

lemma set_batch_ids_new_jobs: "set (batch_ids (new_jobs w policy rs args now n)) = r_id ` set rs"
  using arg_cong [OF batch_ids_new_jobs [of w policy rs args now n], of set_mset] by simp

lemma inflight_after_dispatch:
  "inflight_ids (Some pid) (jobs @ new_jobs w policy rs args now n) snaps
     = inflight_ids (Some pid) jobs snaps \<union> (if pid = p_id policy then r_id ` set rs else {})"
proof (cases "pid = p_id policy")
  case True
  then have "inflight_ids (Some pid) (new_jobs w policy rs args now n) snaps = r_id ` set rs"
    using new_jobs_fields by (subst inflight_ids_queued) (auto simp: set_batch_ids_new_jobs)
  with True show ?thesis by (simp add: inflight_ids_append)
next
  case False
  then have "inflight_ids (Some pid) (new_jobs w policy rs args now n) snaps = {}"
    using new_jobs_fields by (intro inflight_ids_other) auto
  with False show ?thesis by (simp add: inflight_ids_append)
qed

section \<open>What a tick does\<close>

text \<open>The outcome of a tick or a drain: no rows, or one dispatch within the cap.\<close>

definition one_dispatch :: "world \<Rightarrow> string \<Rightarrow> sched \<Rightarrow> sched \<Rightarrow> sla_policy \<Rightarrow> resource list \<Rightarrow> bool" where
  "one_dispatch w pid s s' policy run \<longleftrightarrow>
     find_policy pid s = Some policy \<and> p_enabled policy
     \<and> set run \<subseteq> set (filter (in_scope policy) (policy_resources policy s))
     \<and> (\<exists>args now n. rows s' = rows (s\<lparr>sc_jobs := sc_jobs s @ new_jobs w policy run args now n\<rparr>))
     \<and> (max_concurrent_of policy > 0 \<longrightarrow>
          int (length run) \<le> max 0 (max_concurrent_of policy
                                     - int (inflight_resource_count_query pid (sc_jobs s) (sc_snapshots s))))"

lemma find_policy_id: "find_policy pid s = Some policy \<Longrightarrow> p_id policy = pid \<and> policy \<in> set (sc_policies s)"
  by (auto simp: find_policy_def find_Some_iff)

lemma rows_jobs_upd: "rows s = rows t \<Longrightarrow> rows (s\<lparr>sc_jobs := sc_jobs s @ js\<rparr>) = rows (t\<lparr>sc_jobs := sc_jobs t @ js\<rparr>)"
  by (auto simp: rows_def)

lemma dispatch_first_wave_rows:
  "\<exists>args n. rows (dispatch_first_wave w policy run deferred held skipped now s)
     = rows (s\<lparr>sc_jobs := sc_jobs s @ new_jobs w policy run args now n\<rparr>)"
  unfolding dispatch_first_wave_def Let_def dispatch_resources_rows by (intro exI) (simp add: rows_def)

lemma cap_stage_bound:
  assumes "cap_stage w policy rs s = (Some (run, deferred), s1)"
  shows "mset run + mset deferred = mset rs
    \<and> (max_concurrent_of policy > 0 \<longrightarrow>
         int (length run) \<le> max 0 (max_concurrent_of policy
            - int (inflight_resource_count_query (p_id policy) (sc_jobs s) (sc_snapshots s))))"
  using assms plan_budget_mset plan_budget_length
  by (auto simp: cap_stage_def Let_def split: if_splits prod.splits) fastforce+

lemma dispatch_eligible_cases:
  fixes s :: sched
  assumes "s' = dispatch_eligible w policy ov eligible skipped now s"
  shows "rows s' = rows s \<or>
    (\<exists>idle held run deferred s1 s2. hold_stage w policy ov eligible s = (Some (idle, held), s1)
       \<and> cap_stage w policy (power_bi_prefilter w now (sc_tenants s1) idle) s1 = (Some (run, deferred), s2)
       \<and> s' = dispatch_first_wave w policy run deferred held skipped now s2)"
proof -
  obtain h s1 where h: "hold_stage w policy ov eligible s = (h, s1)" by fastforce
  note r1 = rows_hold_stage [OF h]
  show ?thesis
  proof (cases h)
    case None
    then show ?thesis using assms h r1 by (simp add: dispatch_eligible_def)
  next
    case (Some p)
    obtain idle held where p: "p = (idle, held)" by (cases p)
    obtain c s2 where c: "cap_stage w policy (power_bi_prefilter w now (sc_tenants s1) idle) s1 = (c, s2)" by fastforce
    note r2 = rows_cap_stage [OF c]
    show ?thesis
    proof (cases c)
      case None
      then show ?thesis using assms h c Some p r1 r2 by (simp add: dispatch_eligible_def)
    next
      case (Some q)
      obtain run deferred where "q = (run, deferred)" by (cases q)
      then show ?thesis using assms h c \<open>h = Some p\<close> p Some by (simp add: dispatch_eligible_def)
    qed
  qed
qed

lemma hold_stage_subset:
  "hold_stage w policy ov rs s = (Some (idle, held), s1) \<Longrightarrow> set idle \<subseteq> set rs"
  by (auto simp: hold_stage_def partition_overlap_holds_def split: if_splits)

lemma set_power_bi_prefilter: "set (power_bi_prefilter w now tenants rs) \<subseteq> set rs"
  by (auto simp: power_bi_prefilter_def Let_def)

lemma first_wave_one_dispatch:
  assumes pol: "find_policy pid s = Some policy" "p_enabled policy"
    and r1: "rows s1 = rows s" and r3: "rows s3 = rows s"
    and t: "t = dispatch_first_wave w policy run deferred held skipped now s5"
    and h: "hold_stage w policy ov (filter resource_backup_eligible (filter (in_scope policy) (policy_resources policy s1))) s3
      = (Some (idle, held), s4)"
    and c: "cap_stage w policy (power_bi_prefilter w now (sc_tenants s4) idle) s4 = (Some (run, deferred), s5)"
  shows "one_dispatch w pid s t policy run"
proof -
  have r4: "rows s4 = rows s" using rows_hold_stage [OF h] r3 by simp
  have r5: "rows s5 = rows s" using rows_cap_stage [OF c] r4 by simp
  note cb = cap_stage_bound [OF c]
  have "set run \<subseteq> set (filter resource_backup_eligible (filter (in_scope policy) (policy_resources policy s1)))"
    using cb hold_stage_subset [OF h] set_power_bi_prefilter [of w now "sc_tenants s4" idle]
    by (metis mset_subset_eq_add_left set_mset_mono set_mset_mset subset_trans)
  then have "set run \<subseteq> set (filter (in_scope policy) (policy_resources policy s))"
    using rows_eqD(2) [OF r1] by (auto simp: policy_resources_def)
  moreover obtain args n where "rows t = rows (s5\<lparr>sc_jobs := sc_jobs s5 @ new_jobs w policy run args now n\<rparr>)"
    using dispatch_first_wave_rows t by blast
  then have "rows t = rows (s\<lparr>sc_jobs := sc_jobs s @ new_jobs w policy run args now n\<rparr>)"
    using rows_jobs_upd [OF r5] by simp
  ultimately show ?thesis
    using pol cb find_policy_id [OF pol(1)] rows_eqD(3,4) [OF r4] by (auto simp: one_dispatch_def)
qed

lemma tick_cases:
  assumes "dispatch_policy_backups_impl w g now pid s = (res, s')"
  shows "rows s' = rows s \<or> (\<exists>policy run. one_dispatch w pid s s' policy run)"
proof (cases "\<exists>policy. find_policy pid s = Some policy \<and> p_enabled policy")
  case True
  then obtain policy where pol: "find_policy pid s = Some policy" "p_enabled policy" by blast
  obtain ov s1 where ov: "overlap_stage w g now policy s = (ov, s1)" by fastforce
  let ?all = "policy_resources policy s1"
  let ?en = "filter (in_scope policy) ?all"
  let ?sk = "filter (\<lambda>r. \<not> in_scope policy r) ?all"
  let ?el = "filter resource_backup_eligible ?en"
  obtain r2 s2 where p2: "publish_sla_skip_audit_events w policy ?sk s1 = (r2, s2)" by fastforce
  obtain r3 s3 where p3: "publish_license_skip_audit_events w policy
      (filter (\<lambda>r. \<not> resource_backup_eligible r) ?en) s2 = (r3, s3)" by fastforce
  have r1: "rows s1 = rows s" by (rule rows_overlap_stage [OF ov])
  have r2: "rows s2 = rows s" using rows_publish_all_eq p2 r1 by (metis publish_sla_skip_audit_events_def)
  have r3: "rows s3 = rows s" using rows_publish_all_eq p3 r2 by (metis publish_license_skip_audit_events_def)
  have s': "s' \<in> {s1, s2, s3, dispatch_eligible w policy ov ?el ?sk now s3}"
    using assms pol ov p2 p3
    by (simp add: dispatch_policy_backups_impl_def Let_def split: if_splits sum.splits)
  show ?thesis
  proof (cases "s' \<in> {s1, s2, s3}")
    case True
    then show ?thesis using r1 r2 r3 by auto
  next
    case False
    then have "s' = dispatch_eligible w policy ov ?el ?sk now s3" using s' by blast
    from dispatch_eligible_cases [OF this] show ?thesis
    proof (elim disjE exE conjE)
      assume "rows s' = rows s3"
      then show ?thesis using r3 by simp
    next
      fix idle held run deferred s4 s5
      assume "hold_stage w policy ov ?el s3 = (Some (idle, held), s4)"
        "cap_stage w policy (power_bi_prefilter w now (sc_tenants s4) idle) s4 = (Some (run, deferred), s5)"
        "s' = dispatch_first_wave w policy run deferred held ?sk now s5"
      from first_wave_one_dispatch [OF pol r1 r3 this(3,1,2)] show ?thesis by blast
    qed
  qed
next
  case False
  then show ?thesis using assms by (auto simp: dispatch_policy_backups_impl_def split: option.splits)
qed

section \<open>What a drain does\<close>

definition drain_order :: "sched \<Rightarrow> sla_policy \<Rightarrow> cycle_window \<Rightarrow> resource list" where
  "drain_order s policy window =
     sort_key backup_priority_key
       (filter (\<lambda>r. r_id r \<notin> inflight_ids None (sc_jobs s) (sc_snapshots s))
          (drain_candidates_query (p_id policy) (cw_start window) (enabled_type_values policy) (sc_jobs s)
             (sc_resources s)))"

text \<open>When the drain gets as far as looking for candidates.\<close>

definition drain_gate :: "world \<Rightarrow> utc \<Rightarrow> string \<Rightarrow> sched \<Rightarrow> (sla_policy \<times> cycle_window) option" where
  "drain_gate w now pid s =
     (if \<not> drain_enabled (w_env w) then None
      else (case find_policy pid s of
              None \<Rightarrow> None
            | Some policy \<Rightarrow>
                if \<not> p_enabled policy \<or> max_concurrent_of policy \<le> 0 then None
                else (case Option.bind (policy_cycle_trigger (w_md5 w) (w_CronTrigger w) (sc_timers s) policy)
                             (\<lambda>trigger. cycle_window_from_trigger trigger (Naive now)) of
                        None \<Rightarrow> None
                      | Some window \<Rightarrow>
                          if cycle_is_drainable window (Naive now) DRAIN_CYCLE_GRACE_S
                             \<and> within_backup_window (Naive now) (p_backup_window_start policy) (p_backup_window_end policy)
                             \<and> sc_exhausted s pid \<noteq> Some (cw_end window)
                          then Some (policy, window) else None)))"

lemma drain_policy_cycle_gate:
  "drain_policy_cycle w now pid s =
     (case drain_gate w now pid s of
        None \<Rightarrow> (0, s)
      | Some (policy, window) \<Rightarrow> drain_open_cycle w policy (max_concurrent_of policy) window now s)"
  by (auto simp: drain_policy_cycle_def drain_gate_def split: option.splits)

lemma drain_gateD:
  assumes "drain_gate w now pid s = Some (policy, window)"
  shows "find_policy pid s = Some policy" "p_id policy = pid" "p_enabled policy" "0 < max_concurrent_of policy"
    "cw_start window \<le> now" "now < cw_end window"
  using assms find_policy_id [of pid s]
  by (auto simp: drain_gate_def cycle_is_drainable_def aware_utc_def DRAIN_CYCLE_GRACE_S_def SECOND_def
      split: if_splits option.splits)

definition drain_take :: "world \<Rightarrow> sla_policy \<Rightarrow> cycle_window \<Rightarrow> utc \<Rightarrow> sched \<Rightarrow> resource list" where
  "drain_take w policy window now s =
     plan_wave (drain_order s policy window)
       (max 0 (max_concurrent_of policy - int (inflight_resource_count_query (p_id policy) (sc_jobs s) (sc_snapshots s))))
       (max_concurrent_of policy)
       (if now \<ge> cw_end window - drain_tick_seconds (w_env w) * SECOND then 0 else DRAIN_MIN_WAVE_FRACTION)"

lemma drain_wave_rows:
  assumes "drain_wave w policy window closing cap inflight items remaining held now s = (n, s')"
  shows "n = length items \<and>
    (\<exists>args k. rows s' = rows (s\<lparr>sc_jobs := sc_jobs s @ new_jobs w policy items args now k\<rparr>))"
proof -
  obtain args k s2 where d: "dispatch_resources w policy items args now (s\<lparr>sc_uuids := k\<rparr>) = (n, s2)"
    and r: "rows s' = rows s2"
  proof (cases "cycle_batch_id_query (p_id policy) (cw_start window) (sc_jobs s)")
    case None
    with assms that [of _ "sc_uuids s + 1"] show ?thesis
      by (auto simp: drain_wave_def Let_def split: prod.splits)
  next
    case (Some b)
    with assms that [of _ "sc_uuids s"] show ?thesis
      by (auto simp: drain_wave_def Let_def split: prod.splits)
  qed
  from d have "n = length items" using dispatch_resources_count by (metis fst_conv)
  moreover have "rows s2 = rows (s\<lparr>sc_jobs := sc_jobs s @ new_jobs w policy items args now k\<rparr>)"
    using dispatch_resources_rows [of w policy items args now "s\<lparr>sc_uuids := k\<rparr>"] d by (simp add: rows_def)
  ultimately show ?thesis using r by auto
qed

lemma drain_open_cycle_rows:
  assumes "drain_open_cycle w policy (max_concurrent_of policy) window now s = (n, s')"
  shows "n = 0 \<and> rows s' = rows s
    \<or> n = length (drain_take w policy window now s)
      \<and> (\<exists>args k. rows s' = rows (s\<lparr>sc_jobs := sc_jobs s @ new_jobs w policy (drain_take w policy window now s) args now k\<rparr>))"
  using assms drain_wave_rows
  by (auto simp: drain_open_cycle_def drain_take_def drain_order_def Let_def partition_overlap_holds_def inflight_all
      split: if_splits)

lemma drain_order_props:
  assumes "r \<in> set (drain_order s policy window)"
  shows "r \<in> set (policy_resources policy s)" "in_scope policy r"
    "r_id r \<notin> inflight_ids None (sc_jobs s) (sc_snapshots s)"
    "r_id r \<notin> set (cycle_dispatched_ids_query (p_id policy) (cw_start window) (sc_jobs s))"
  using assms
  by (auto simp: drain_order_def drain_candidates_query_def policy_resources_def in_scope_def enabled_type_values_def)

lemma drain_take_subset: "set (drain_take w policy window now s) \<subseteq> set (drain_order s policy window)"
  unfolding drain_take_def by (subst plan_wave_take) (rule set_take_subset)

lemma drain_take_length:
  "int (length (drain_take w policy window now s))
     \<le> max 0 (max_concurrent_of policy - int (inflight_resource_count_query (p_id policy) (sc_jobs s) (sc_snapshots s)))"
  unfolding drain_take_def by (rule order_trans [OF plan_wave_length]) simp

lemma drain_cases:
  assumes "drain_policy_cycle w now pid s = (n, s')"
  shows "n = 0 \<and> rows s' = rows s
    \<or> (\<exists>policy window args k. drain_gate w now pid s = Some (policy, window)
         \<and> n = length (drain_take w policy window now s)
         \<and> one_dispatch w pid s s' policy (drain_take w policy window now s)
         \<and> rows s' = rows (s\<lparr>sc_jobs := sc_jobs s @ new_jobs w policy (drain_take w policy window now s) args now k\<rparr>))"
proof (cases "drain_gate w now pid s")
  case None
  then show ?thesis using assms by (simp add: drain_policy_cycle_gate)
next
  case (Some pw)
  obtain policy window where pw: "pw = (policy, window)" by (cases pw)
  note g = drain_gateD [OF Some [unfolded pw]]
  have "drain_open_cycle w policy (max_concurrent_of policy) window now s = (n, s')"
    using assms Some pw by (simp add: drain_policy_cycle_gate)
  from drain_open_cycle_rows [OF this] show ?thesis
  proof (elim disjE)
    assume r: "n = length (drain_take w policy window now s)
      \<and> (\<exists>args k. rows s' = rows (s\<lparr>sc_jobs := sc_jobs s @ new_jobs w policy (drain_take w policy window now s) args now k\<rparr>))"
    have "set (drain_take w policy window now s) \<subseteq> set (filter (in_scope policy) (policy_resources policy s))"
      using drain_take_subset drain_order_props(1,2) by fastforce
    then have "one_dispatch w pid s s' policy (drain_take w policy window now s)"
      using g drain_take_length [of w policy window now s] r unfolding one_dispatch_def by auto
    with r Some pw show ?thesis by blast
  qed simp
qed

section \<open>The scheduler as a transition system\<close>

text \<open>
  The steps the scheduler itself takes: ticks and triggers, drains, the drain of all policies,
  catch-up, the reschedule sweep and single backups.
\<close>

inductive sched_step :: "world \<Rightarrow> sched \<Rightarrow> sched \<Rightarrow> bool" for w where
  tick: "sched_step w s (snd (dispatch_policy_backups w guard now pid s))"
| drain: "sched_step w s (snd (drain_policy_cycle w now pid s))"
| drain_all: "sched_step w s (drain_policy_cycles w now s)"
| catch_up: "sched_step w s (catch_up_missed_policy_runs w lookback now s)"
| sweep: "sched_step w s (s\<lparr>sc_timers := schedule_all_policies (w_md5 w) (sc_policies s) (sc_timers s)\<rparr>)"
| single: "sched_step w s (snd (trigger_single_backup w now rid full s))"

text \<open>
  A run of the system. Between two steps of the scheduler anything else may write the tables: workers
  finish jobs, retry them or bring a finished job back into flight, operators edit policies and caps
  and discover resources. Such a step may leave any state whose policy ids are still a primary key.
  The run keeps the states the rest of the system left, the latest first.
\<close>

inductive sched_run :: "world \<Rightarrow> sched list \<Rightarrow> sched \<Rightarrow> bool" for w where
  start: "distinct (map p_id (sc_policies s)) \<Longrightarrow> sched_run w [s] s"
| own: "sched_run w us s \<Longrightarrow> sched_step w s s' \<Longrightarrow> sched_run w us s'"
| others: "sched_run w us s \<Longrightarrow> distinct (map p_id (sc_policies s')) \<Longrightarrow> sched_run w (s' # us) s'"

definition inflight_count_of :: "sched \<Rightarrow> string \<Rightarrow> int" where
  "inflight_count_of s pid = int (inflight_resource_count_query pid (sc_jobs s) (sc_snapshots s))"

text \<open>
  No capped policy has more resources in flight than its cap allows, or than the bound \<open>b\<close> it came with.
\<close>

definition within_cap :: "(string \<Rightarrow> int) \<Rightarrow> sched \<Rightarrow> bool" where
  "within_cap b s \<longleftrightarrow>
     distinct (map p_id (sc_policies s)) \<and>
     (\<forall>p\<in>set (sc_policies s). 0 < max_concurrent_of p
        \<longrightarrow> inflight_count_of s (p_id p) \<le> max (max_concurrent_of p) (b (p_id p)))"

lemma within_cap_rows:
  assumes "rows s' = rows s"
  shows "within_cap b s' = within_cap b s"
  using rows_eqD [OF assms] by (simp add: within_cap_def inflight_count_of_def)

lemma within_cap_shrink:
  assumes "within_cap b s" and "sc_policies s' = sc_policies s"
    and "\<And>pid. inflight_ids (Some pid) (sc_jobs s') (sc_snapshots s')
              \<subseteq> inflight_ids (Some pid) (sc_jobs s) (sc_snapshots s)"
  shows "within_cap b s'"
proof -
  have "inflight_count_of s' pid \<le> inflight_count_of s pid" for pid
    using card_mono [OF finite_inflight_ids assms(3)] by (simp add: inflight_count_of_def inflight_count)
  then show ?thesis using assms(1,2) by (auto simp: within_cap_def intro: order_trans)
qed

lemma one_dispatch_counts:
  assumes "one_dispatch w pid s s' policy run"
  shows "sc_policies s' = sc_policies s" and "p \<noteq> pid \<Longrightarrow> inflight_count_of s' p = inflight_count_of s p"
    and "0 < max_concurrent_of policy \<Longrightarrow> inflight_count_of s' pid \<le> max (inflight_count_of s pid) (max_concurrent_of policy)"
proof -
  obtain args now n where r: "rows s' = rows (s\<lparr>sc_jobs := sc_jobs s @ new_jobs w policy run args now n\<rparr>)"
    using assms by (auto simp: one_dispatch_def)
  have f: "p_id policy = pid" using assms find_policy_id by (auto simp: one_dispatch_def)
  note e = rows_eqD [OF r, simplified]
  show "sc_policies s' = sc_policies s" by (rule e)
  show "inflight_count_of s' p = inflight_count_of s p" if "p \<noteq> pid"
    using that f by (simp add: inflight_count_of_def inflight_count e inflight_after_dispatch)
  show "inflight_count_of s' pid \<le> max (inflight_count_of s pid) (max_concurrent_of policy)"
    if c: "0 < max_concurrent_of policy"
  proof -
    have "card (inflight_ids (Some pid) (sc_jobs s') (sc_snapshots s'))
        \<le> card (inflight_ids (Some pid) (sc_jobs s) (sc_snapshots s)) + length run"
      using card_Un_le [of "inflight_ids (Some pid) (sc_jobs s) (sc_snapshots s)" "r_id ` set run"]
        card_image_le [of "set run" r_id] card_length [of run]
      by (simp add: e f inflight_after_dispatch)
    then show ?thesis
      using assms c by (simp add: one_dispatch_def inflight_count_of_def inflight_count f) linarith
  qed
qed

lemma one_dispatch_within_cap:
  assumes "one_dispatch w pid s s' policy run" and "within_cap b s"
  shows "within_cap b s'"
proof -
  note c = one_dispatch_counts [OF assms(1)]
  have pol: "policy \<in> set (sc_policies s)" "p_id policy = pid"
    using assms(1) find_policy_id by (auto simp: one_dispatch_def)
  have "inflight_count_of s' (p_id p) \<le> max (max_concurrent_of p) (b (p_id p))"
    if p: "p \<in> set (sc_policies s)" "0 < max_concurrent_of p" for p
  proof (cases "p_id p = pid")
    case True
    then have "p = policy" using pol p assms(2) by (metis within_cap_def distinct_map inj_on_eq_iff)
    with c(3) p True assms(2) pol show ?thesis by (fastforce simp: within_cap_def)
  next
    case False
    with c(2) p assms(2) show ?thesis by (simp add: within_cap_def)
  qed
  then show ?thesis using assms(2) c(1) by (simp add: within_cap_def)
qed

lemma tick_within_cap: "within_cap b s \<Longrightarrow> within_cap b (snd (dispatch_policy_backups_impl w g now pid s))"
  using tick_cases [of w g now pid s] within_cap_rows one_dispatch_within_cap
  by (metis prod.collapse)

lemma drain_within_cap: "within_cap b s \<Longrightarrow> within_cap b (snd (drain_policy_cycle w now pid s))"
  using drain_cases [of w now pid s] within_cap_rows one_dispatch_within_cap
  by (metis prod.collapse)

lemma fold_within_cap:
  assumes "\<And>x s. x \<in> set xs \<Longrightarrow> within_cap b s \<Longrightarrow> within_cap b (f x s)"
  shows "within_cap b s \<Longrightarrow> within_cap b (fold f xs s)"
  using assms by (induction xs arbitrary: s) auto

lemma memo_within_cap [simp]: "within_cap b (s\<lparr>sc_exhausted := m\<rparr>) = within_cap b s"
  by (rule within_cap_rows) simp

lemma single_within_cap:
  assumes "within_cap b s"
  shows "within_cap b (snd (trigger_single_backup w now rid full s))"
proof -
  let ?s' = "snd (trigger_single_backup w now rid full s)"
  have "\<exists>js. rows ?s' = rows (s\<lparr>sc_jobs := sc_jobs s @ js\<rparr>) \<and> (\<forall>j\<in>set js. sp_sla_policy_id (j_spec j) = None)"
  proof (cases "find (\<lambda>r. r_id r = rid) (sc_resources s)")
    case None
    then show ?thesis by (intro exI [of _ "[]"]) (simp add: trigger_single_backup_def rows_def)
  next
    case (Some r)
    show ?thesis
    proof (cases "r_status r \<in> {R_INACCESSIBLE, R_SUSPENDED, R_PENDING_DELETION}")
      case True
      with Some show ?thesis by (intro exI [of _ "[]"]) (simp add: trigger_single_backup_def rows_def)
    next
      case False
      with Some show ?thesis
        by (simp add: trigger_single_backup_def Let_def publish_def plain_spec_def split: option.splits)
          (intro conjI impI allI exI [of _ "[_]"], simp add: rows_def, simp, simp add: rows_def, simp)
    qed
  qed
  then obtain js where js: "rows ?s' = rows (s\<lparr>sc_jobs := sc_jobs s @ js\<rparr>)" "\<forall>j\<in>set js. sp_sla_policy_id (j_spec j) = None"
    by blast
  note e = rows_eqD [OF js(1), simplified]
  show ?thesis
  proof (rule within_cap_shrink [OF assms e(1)])
    fix pid
    have "inflight_ids (Some pid) js (sc_snapshots s) = {}" using js(2) by (intro inflight_ids_other) simp
    then show "inflight_ids (Some pid) (sc_jobs ?s') (sc_snapshots ?s')
        \<subseteq> inflight_ids (Some pid) (sc_jobs s) (sc_snapshots s)"
      by (simp add: e inflight_ids_append)
  qed
qed

lemma step_within_cap:
  assumes "sched_step w s s'" and "within_cap b s"
  shows "within_cap b s'"
  using assms
proof cases
  case (catch_up lookback now)
  have "within_cap b (catch_up_dispatch w now m t)" if "within_cap b t" for m t
    using that by (cases m) (simp add: catch_up_dispatch_def tick_within_cap)
  with catch_up assms(2) show ?thesis
    by (simp add: catch_up_missed_policy_runs_def Let_def fold_within_cap)
next
  case (drain_all now)
  then show ?thesis using assms(2) by (simp add: drain_policy_cycles_def fold_within_cap drain_within_cap)
next
  case sweep
  then show ?thesis using assms(2) by (simp add: within_cap_def inflight_count_of_def)
qed (simp_all add: dispatch_policy_backups_def tick_within_cap drain_within_cap single_within_cap)

lemma run_within_cap:
  assumes "sched_run w us s"
  shows "within_cap (inflight_count_of (hd us)) s"
  using assms
proof induction
  case (own us s s')
  then show ?case by (blast intro: step_within_cap)
qed (simp_all add: within_cap_def)

text \<open>
  C7. The scheduler never takes a policy above its concurrency cap. A run interleaves cron ticks,
  operator triggers, drains, catch-ups, sweeps and single backups with writes of the workers and of
  operators, which may leave any jobs, snapshots, resources and policies, so also a member retried
  inside its job and back in flight, or a lowered cap. At every moment of every run a capped policy
  has at most as many resources in flight as its cap, or as those writes themselves last left in
  flight. In particular, whenever they left it within its cap, it stays within its cap. The dispatches
  of one policy hold its lock in a single-replica scheduler, so each step is taken whole.
\<close>

theorem cap_never_exceeded:
  assumes "sched_run w us s" and "p \<in> set (sc_policies s)" and "0 < max_concurrent_of p"
  shows "int (inflight_resource_count_query (p_id p) (sc_jobs s) (sc_snapshots s))
    \<le> max (max_concurrent_of p)
        (int (inflight_resource_count_query (p_id p) (sc_jobs (hd us)) (sc_snapshots (hd us))))"
  using run_within_cap [OF assms(1)] assms(2,3) by (simp add: within_cap_def inflight_count_of_def)

text \<open>A small deployment for the concrete runs: one capped policy and three mailboxes.\<close>

definition sample_settings :: routing_settings where
  "sample_settings =
     \<lparr>BACKUP_HEAVY_ENABLED = True, BACKUP_HEAVY_QUEUE = ''backup.heavy'', BACKUP_WORKER_QUEUE = ''backup.normal'',
      HEAVY_EXPORT_ENABLED = True, HEAVY_EXPORT_THRESHOLD_BYTES = 100, HEAVY_EXPORT_QUEUE = ''restore.heavy'',
      HEAVY_RESTORE_THRESHOLD = 20\<rparr>"

definition sample_trigger :: "cron_params \<Rightarrow> utc \<Rightarrow> utc option" where
  "sample_trigger cp t = Some (- ((- t) div LOOKBACK) * LOOKBACK)"

definition sample_world :: world where
  "sample_world =
     \<lparr>w_env = Map.empty, w_float = (\<lambda>_. None), w_md5 = (\<lambda>_. [100]), w_CronTrigger = sample_trigger, w_uuid4 = str_nat,
      w_bus = (\<lambda>_. None), w_settings = sample_settings, w_list_modified = (\<lambda>_ _. Inr [])\<rparr>"

definition sample_sched :: sched where
  "sample_sched =
     \<lparr>sc_policies = [sample_policy (Some ''THREE_DAILY'') (Some 2)],
      sc_resources = [sample_resource ''a'' ''MAILBOX'' (Some (Naive 5)), sample_resource ''b'' ''MAILBOX'' None,
                      sample_resource ''c'' ''MAILBOX'' (Some (Naive 3))],
      sc_jobs = [], sc_snapshots = [], sc_tenants = [''t1''],
      sc_timers = \<lparr>tm_jobs = Map.empty, tm_fingerprints = Map.empty, tm_added = []\<rparr>,
      sc_exhausted = Map.empty, sc_incomplete = Map.empty, sc_uuids = 0, sc_attempts = 0, sc_sent = [],
      sc_triggered = []\<rparr>"

lemma step_policies:
  assumes "dispatch_policy_backups w g now pid s = (res, s')"
  shows "sc_policies s' = sc_policies s"
proof -
  have "sc_policies s' = sc_policies (s\<lparr>sc_exhausted := (sc_exhausted s)(pid := None)\<rparr>)"
    using tick_cases [OF assms [unfolded dispatch_policy_backups_def]] rows_eqD(1) one_dispatch_counts(1) by blast
  then show ?thesis by simp
qed

theorem cap_never_exceeded_witness:
  "int (inflight_resource_count_query ''gold''
      (sc_jobs (snd (dispatch_policy_backups sample_world True (8 * HOUR) ''gold'' sample_sched)))
      (sc_snapshots (snd (dispatch_policy_backups sample_world True (8 * HOUR) ''gold'' sample_sched)))) \<le> 2"
proof -
  let ?s = "snd (dispatch_policy_backups sample_world True (8 * HOUR) ''gold'' sample_sched)"
  have "sched_run sample_world [sample_sched] sample_sched" by (rule sched_run.start) (simp add: sample_sched_def)
  then have "sched_run sample_world [sample_sched] ?s" by (rule sched_run.own) (rule sched_step.tick)
  note r = cap_never_exceeded [OF this, of "sample_policy (Some ''THREE_DAILY'') (Some 2)"]
  have "sc_policies ?s = sc_policies sample_sched" by (rule step_policies) (rule prod.collapse [symmetric])
  moreover have "inflight_resource_count_query ''gold'' (sc_jobs sample_sched) (sc_snapshots sample_sched) = 0"
    by (simp add: sample_sched_def inflight_resource_count_query_def inflight_members_def inflight_jobs_of_def)
  ultimately show ?thesis using r by (simp add: sample_sched_def sample_policy_def max_concurrent_of_def)
qed

section \<open>Draining a cycle\<close>

definition cycle_candidates :: "sched \<Rightarrow> sla_policy \<Rightarrow> cycle_window \<Rightarrow> resource list" where
  "cycle_candidates s policy window =
     drain_candidates_query (p_id policy) (cw_start window) (enabled_type_values policy) (sc_jobs s) (sc_resources s)"

lemma dispatched_after:
  assumes "since \<le> now"
  shows "set (cycle_dispatched_ids_query (p_id policy) since (jobs @ new_jobs w policy rs args now n))
    = set (cycle_dispatched_ids_query (p_id policy) since jobs) \<union> r_id ` set rs"
proof -
  have "filter (cycle_scheduled_jobs_filter (p_id policy) since) (new_jobs w policy rs args now n)
      = new_jobs w policy rs args now n"
    using new_jobs_fields assms by (simp add: filter_id_conv cycle_scheduled_jobs_filter_def)
  then show ?thesis
    using set_batch_ids_new_jobs [of w policy rs args now n]
    by (simp add: cycle_dispatched_ids_query_def batch_ids_def)
qed

lemma candidates_after:
  assumes "rows s' = rows (s\<lparr>sc_jobs := sc_jobs s @ new_jobs w policy rs args now n\<rparr>)" and "cw_start window \<le> now"
  shows "cycle_candidates s' policy window = filter (\<lambda>r. r_id r \<notin> r_id ` set rs) (cycle_candidates s policy window)"
  using dispatched_after [OF assms(2), of policy "sc_jobs s" w rs args n] rows_eqD [OF assms(1)]
  by (simp add: cycle_candidates_def drain_candidates_query_def filter_sort [symmetric] conj_ac)

text \<open>The part of the gate that does not depend on the memo of exhausted cycles.\<close>

definition open_at :: "world \<Rightarrow> timers \<Rightarrow> sla_policy \<Rightarrow> cycle_window \<Rightarrow> utc \<Rightarrow> bool" where
  "open_at w tm policy window t \<longleftrightarrow>
     Option.bind (policy_cycle_trigger (w_md5 w) (w_CronTrigger w) tm policy)
       (\<lambda>trigger. cycle_window_from_trigger trigger (Naive t)) = Some window
     \<and> cycle_is_drainable window (Naive t) DRAIN_CYCLE_GRACE_S
     \<and> within_backup_window (Naive t) (p_backup_window_start policy) (p_backup_window_end policy)"

lemma candidates_sorted: "sort_key backup_priority_key (cycle_candidates s policy window) = cycle_candidates s policy window"
  by (rule sort_key_id_if_sorted) (simp add: cycle_candidates_def drain_candidates_query_def)

lemma drain_gate_open_at: "drain_gate w now pid s = Some (policy, window) \<Longrightarrow> open_at w (sc_timers s) policy window now"
  by (auto simp: drain_gate_def open_at_def split: if_splits option.splits)

text \<open>The candidates of the cycle that no job has in flight, in priority order.\<close>

definition idle_candidates :: "sched \<Rightarrow> sla_policy \<Rightarrow> cycle_window \<Rightarrow> resource list" where
  "idle_candidates s policy window =
     filter (\<lambda>r. r_id r \<notin> set (inflight_resource_ids_query (sc_jobs s) (sc_snapshots s))) (cycle_candidates s policy window)"

lemma drain_order_idle: "drain_order s policy window = idle_candidates s policy window"
proof -
  have "sorted (map backup_priority_key (cycle_candidates s policy window))"
    by (simp add: cycle_candidates_def drain_candidates_query_def)
  then show ?thesis
    by (simp add: drain_order_def idle_candidates_def inflight_all cycle_candidates_def sorted_filter
        sort_key_id_if_sorted)
qed

lemma plan_wave_full:
  "plan_wave xs budget cap frc \<noteq> [] \<Longrightarrow> int (length (plan_wave xs budget cap frc)) = min budget (int (length xs))"
  by (auto simp: plan_wave_def split: if_splits)

text \<open>
  C11. A drain wave is safe, complete and makes progress. When \<open>drain_policy_cycle\<close> dispatches
  \<open>n > 0\<close> resources, the window is the one the policy's own trigger has open at this moment, past
  its opening grace and inside the backup hours. The new jobs carry exactly \<open>n\<close> different resources: of
  the candidates of this cycle that are not in flight, the \<open>n\<close> first by priority, and \<open>n\<close> is
  the smaller of their number and of the free slots of the cap, so no slot is left empty while such a
  candidate waits. Each is a live resource of the policy in its workload scope, has no backup in flight
  under any job, and was not carried since the window started. What is left to carry is what was left
  before, without the wave: nothing is dispatched twice in a cycle and nothing is lost.
\<close>

theorem drain_wave_safe:
  assumes "drain_policy_cycle w now pid s = (n, s')" and "0 < n" and "distinct (map r_id (sc_resources s))"
  shows "\<exists>policy window new. find_policy pid s = Some policy
    \<and> open_at w (sc_timers s) policy window now \<and> cw_start window \<le> now \<and> now < cw_end window
    \<and> sc_jobs s' = sc_jobs s @ new \<and> length (batch_ids new) = n \<and> distinct (batch_ids new)
    \<and> set (batch_ids new) = r_id ` set (take n (idle_candidates s policy window))
    \<and> int n = min (max_concurrent_of policy - int (inflight_resource_count_query pid (sc_jobs s) (sc_snapshots s)))
                  (int (length (idle_candidates s policy window)))
    \<and> (\<forall>rid\<in>set (batch_ids new).
         rid \<notin> set (inflight_resource_ids_query (sc_jobs s) (sc_snapshots s))
         \<and> rid \<notin> set (cycle_dispatched_ids_query pid (cw_start window) (sc_jobs s))
         \<and> (\<exists>r\<in>set (policy_resources policy s). r_id r = rid \<and> in_scope policy r))
    \<and> cycle_candidates s' policy window
        = filter (\<lambda>r. r_id r \<notin> set (batch_ids new)) (cycle_candidates s policy window)"
proof -
  from drain_cases [OF assms(1)] assms(2) obtain policy window args k where
    g: "drain_gate w now pid s = Some (policy, window)"
    and n: "n = length (drain_take w policy window now s)"
    and r: "rows s' = rows (s\<lparr>sc_jobs := sc_jobs s @ new_jobs w policy (drain_take w policy window now s) args now k\<rparr>)"
    by auto
  let ?run = "drain_take w policy window now s"
  let ?new = "new_jobs w policy ?run args now k"
  note gd = drain_gateD [OF g]
  have ids: "mset (batch_ids ?new) = mset (map r_id ?run)" by (rule batch_ids_new_jobs)
  have run: "?run = take n (idle_candidates s policy window)"
    unfolding n drain_take_def drain_order_idle by (rule plan_wave_take)
  have sids: "set (batch_ids ?new) = r_id ` set ?run" by (rule set_batch_ids_new_jobs)
  have "distinct (map r_id (drain_order s policy window))"
    using assms(3)
    by (simp add: drain_order_def drain_candidates_query_def distinct_map distinct_map_filter inj_on_def)
  then have "distinct (map r_id ?run)" by (simp add: run drain_order_idle take_map [symmetric])
  then have d: "distinct (batch_ids ?new)" using ids mset_eq_imp_distinct_iff by blast
  have l: "length (batch_ids ?new) = n" using ids n by (metis length_map size_mset)
  have wave: "set (batch_ids ?new) = r_id ` set (take n (idle_candidates s policy window))"
    by (rule trans [OF sids]) (simp only: run [symmetric])
  have ne: "?run \<noteq> []" using n assms(2) by auto
  have m: "int n = min (max_concurrent_of policy - int (inflight_resource_count_query pid (sc_jobs s) (sc_snapshots s)))
                  (int (length (idle_candidates s policy window)))"
    using plan_wave_full [OF ne [unfolded drain_take_def]] assms(2) gd(2)
    unfolding n drain_take_def drain_order_idle by (simp add: max_def split: if_splits)
  have "\<forall>rid\<in>set (batch_ids ?new).
         rid \<notin> set (inflight_resource_ids_query (sc_jobs s) (sc_snapshots s))
         \<and> rid \<notin> set (cycle_dispatched_ids_query pid (cw_start window) (sc_jobs s))
         \<and> (\<exists>r\<in>set (policy_resources policy s). r_id r = rid \<and> in_scope policy r)"
    using drain_take_subset [of w policy window now s] drain_order_props [of _ s policy window] gd(2)
    unfolding sids inflight_all by blast
  moreover have "cycle_candidates s' policy window
      = filter (\<lambda>r. r_id r \<notin> set (batch_ids ?new)) (cycle_candidates s policy window)"
    unfolding sids by (rule candidates_after [OF r gd(5)])
  ultimately show ?thesis
    using gd(1,5,6) l d m rows_eqD(3) [OF r] drain_gate_open_at [OF g] wave
    by (intro exI [of _ policy] exI [of _ window] exI [of _ ?new]) simp
qed

lemma sample_drain: "fst (drain_policy_cycle sample_world 600000000 ''gold'' sample_sched) = 2"
  by code_simp

lemma sample_ids: "distinct (map r_id (sc_resources sample_sched))"
  by (simp add: sample_sched_def sample_resource_def)

theorem drain_wave_safe_witness:
  "\<exists>new. sc_jobs (snd (drain_policy_cycle sample_world 600000000 ''gold'' sample_sched)) = sc_jobs sample_sched @ new
     \<and> length (batch_ids new) = 2 \<and> distinct (batch_ids new)"
proof -
  have "drain_policy_cycle sample_world 600000000 ''gold'' sample_sched
      = (2, snd (drain_policy_cycle sample_world 600000000 ''gold'' sample_sched))"
    using sample_drain by (metis prod.collapse)
  from drain_wave_safe [OF this _ sample_ids] show ?thesis by auto
qed

text \<open>Draining with the workers keeping up: every job is finished before the next drain tick.\<close>

definition finish_jobs :: "sched \<Rightarrow> sched" where
  "finish_jobs s = s\<lparr>sc_jobs := map (\<lambda>j. j\<lparr>j_status := J_COMPLETED\<rparr>) (sc_jobs s)\<rparr>"

fun drain_rounds :: "world \<Rightarrow> string \<Rightarrow> utc list \<Rightarrow> sched \<Rightarrow> sched" where
  "drain_rounds w pid [] s = s"
| "drain_rounds w pid (t # ts) s = drain_rounds w pid ts (finish_jobs (snd (drain_policy_cycle w t pid s)))"

definition idle_sched :: "sched \<Rightarrow> bool" where
  "idle_sched s \<longleftrightarrow> (\<forall>j\<in>set (sc_jobs s). \<not> job_live j)"

lemma idle_inflight: "idle_sched s \<Longrightarrow> inflight_ids pol (sc_jobs s) snaps = {}"
  by (auto simp: idle_sched_def inflight_ids_def inflight_members_def inflight_jobs_of_def)

lemma idle_finish [simp]: "idle_sched (finish_jobs s)"
  by (auto simp: idle_sched_def finish_jobs_def job_live_def)

lemma dispatched_finish:
  "cycle_dispatched_ids_query pid since (map (\<lambda>j. j\<lparr>j_status := J_COMPLETED\<rparr>) jobs) = cycle_dispatched_ids_query pid since jobs"
proof -
  have "cycle_scheduled_jobs_filter pid since (j\<lparr>j_status := J_COMPLETED\<rparr>) = cycle_scheduled_jobs_filter pid since j" for j
    by (simp add: cycle_scheduled_jobs_filter_def)
  then show ?thesis by (simp add: cycle_dispatched_ids_query_def filter_map comp_def)
qed

lemma candidates_finish [simp]: "cycle_candidates (finish_jobs s) policy window = cycle_candidates s policy window"
  by (simp add: cycle_candidates_def drain_candidates_query_def finish_jobs_def dispatched_finish)

lemma candidates_distinct:
  "distinct (map r_id (sc_resources s)) \<Longrightarrow> distinct (map r_id (cycle_candidates s policy window))"
  by (simp add: cycle_candidates_def drain_candidates_query_def distinct_map distinct_map_filter inj_on_def)

lemma filter_not_take:
  assumes "distinct (map f xs)"
  shows "filter (\<lambda>x. f x \<notin> f ` set (take n xs)) xs = drop n xs"
proof -
  have "distinct (map f (take n xs @ drop n xs))" using assms by simp
  then have "f ` set (take n xs) \<inter> f ` set (drop n xs) = {}" by (simp only: map_append distinct_append set_map)
  then have "filter (\<lambda>x. f x \<notin> f ` set (take n xs)) (drop n xs) = drop n xs"
    by (auto simp: filter_id_conv)
  moreover have "filter (\<lambda>x. f x \<notin> f ` set (take n xs)) (take n xs) = []" by (auto simp: filter_empty_conv)
  ultimately show ?thesis by (metis append_Nil append_take_drop_id filter_append)
qed

text \<open>With nothing in flight the whole cap is free, and a wave is the first \<open>cap\<close> candidates.\<close>

lemma idle_take:
  assumes "idle_sched s" and "0 < max_concurrent_of policy"
  shows "drain_take w policy window t s = take (nat (max_concurrent_of policy)) (cycle_candidates s policy window)"
proof -
  have o: "drain_order s policy window = cycle_candidates s policy window"
    using candidates_sorted [of s policy window]
    by (simp add: drain_order_def idle_inflight [OF assms(1)] cycle_candidates_def)
  have "inflight_resource_count_query (p_id policy) (sc_jobs s) (sc_snapshots s) = 0"
    by (simp add: inflight_count idle_inflight [OF assms(1)])
  then show ?thesis
    using assms(2) by (simp add: drain_take_def o plan_wave_free_pool DRAIN_MIN_WAVE_FRACTION_def)
qed

definition drain_inv :: "world \<Rightarrow> sla_policy \<Rightarrow> cycle_window \<Rightarrow> timers \<Rightarrow> sched \<Rightarrow> bool" where
  "drain_inv w policy window tm s \<longleftrightarrow>
     drain_enabled (w_env w) \<and> find_policy (p_id policy) s = Some policy \<and> p_enabled policy
     \<and> 0 < max_concurrent_of policy \<and> sc_timers s = tm \<and> idle_sched s \<and> distinct (map r_id (sc_resources s))
     \<and> (sc_exhausted s (p_id policy) = Some (cw_end window) \<longrightarrow> cycle_candidates s policy window = [])"

lemma drain_gate_open:
  assumes "drain_inv w policy window tm s" and "open_at w tm policy window t"
  shows "drain_gate w t (p_id policy) s
    = (if sc_exhausted s (p_id policy) = Some (cw_end window) then None else Some (policy, window))"
  using assms by (auto simp: drain_inv_def open_at_def drain_gate_def)

lemma exhausted_untouched:
  assumes "drain_open_cycle w policy cap window t s = (n, s')" and "cycle_candidates s policy window \<noteq> []"
  shows "sc_exhausted s' = sc_exhausted s"
proof -
  have p: "sc_exhausted (snd (publish w q m u)) = sc_exhausted u" for q m u
    by (simp add: publish_def split: option.splits)
  have c: "sc_exhausted (publish_cycle_audit_event w pp a out d u) = sc_exhausted u" for pp a out d u
    by (simp add: publish_cycle_audit_event_def p)
  have "sc_exhausted (publish_pending w ps u) = sc_exhausted u" for ps u
    by (induction ps arbitrary: u) (auto simp: p Let_def)
  then have d: "dispatch_resources w policy items args t u = (n, v) \<Longrightarrow> sc_exhausted v = sc_exhausted u" for items args u n v
    by (auto simp: dispatch_resources_def Let_def)
  have r: "sc_exhausted (report_incomplete w policy cl rem held window b u) = sc_exhausted u" for cl rem held b u
    by (simp add: report_incomplete_def c)
  have "drain_wave w policy window cl cap inf items rem held t u = (n, v) \<Longrightarrow> sc_exhausted v = sc_exhausted u"
    for cl inf items rem held u n v
    by (auto simp: drain_wave_def Let_def c r split: prod.splits dest!: d)
  then show ?thesis
    using assms by (auto simp: drain_open_cycle_def cycle_candidates_def Let_def r split: if_splits prod.splits)
qed

lemma drain_open_cycle_wave:
  assumes "drain_take w policy window t s \<noteq> []"
  shows "\<exists>closing inflight remaining held.
    drain_open_cycle w policy (max_concurrent_of policy) window t s
      = drain_wave w policy window closing (max_concurrent_of policy) inflight (drain_take w policy window t s)
          remaining held t s"
proof -
  have "drain_order s policy window \<noteq> []" using assms by (auto simp: drain_take_def plan_wave_def)
  then have c: "drain_candidates_query (p_id policy) (cw_start window) (enabled_type_values policy) (sc_jobs s)
      (sc_resources s) \<noteq> []"
    by (auto simp: drain_order_def)
  then have e: "enabled_type_values policy \<noteq> []" by (auto simp: drain_candidates_query_def)
  have b: "\<not> max_concurrent_of policy
      - int (inflight_resource_count_query (p_id policy) (sc_jobs s) (sc_snapshots s)) \<le> 0"
    using assms by (auto simp: drain_take_def plan_wave_def split: if_splits)
  show ?thesis
    using assms b c e
    by (simp add: drain_open_cycle_def Let_def partition_overlap_holds_def drain_take_def drain_order_def inflight_all)
      (intro conjI impI exI; rule refl)
qed

lemma drain_inv_finish:
  assumes "drain_inv w policy window tm s" and "sc_policies s' = sc_policies s" and "sc_timers s' = sc_timers s"
    and "sc_resources s' = sc_resources s"
    and "sc_exhausted s' (p_id policy) = Some (cw_end window) \<Longrightarrow> cycle_candidates s' policy window = []"
  shows "drain_inv w policy window tm (finish_jobs s')"
proof -
  have "sc_policies (finish_jobs s') = sc_policies s'" "sc_timers (finish_jobs s') = sc_timers s'"
    "sc_resources (finish_jobs s') = sc_resources s'" "sc_exhausted (finish_jobs s') = sc_exhausted s'"
    by (simp_all add: finish_jobs_def)
  with assms show ?thesis by (simp add: drain_inv_def find_policy_def)
qed

lemma drain_round:
  assumes inv: "drain_inv w policy window tm s" and op: "open_at w tm policy window t"
  defines "s' \<equiv> finish_jobs (snd (drain_policy_cycle w t (p_id policy) s))"
  shows "drain_inv w policy window tm s'
    \<and> cycle_candidates s' policy window = drop (nat (max_concurrent_of policy)) (cycle_candidates s policy window)"
proof (cases "sc_exhausted s (p_id policy) = Some (cw_end window)")
  case True
  then have "drain_policy_cycle w t (p_id policy) s = (0, s)" "cycle_candidates s policy window = []"
    using drain_gate_open [OF inv op] inv by (simp_all add: drain_policy_cycle_gate drain_inv_def)
  then show ?thesis using drain_inv_finish [OF inv, of s] by (simp add: s'_def)
next
  case False
  then have d: "drain_policy_cycle w t (p_id policy) s = drain_open_cycle w policy (max_concurrent_of policy) window t s"
    using drain_gate_open [OF inv op] by (simp add: drain_policy_cycle_gate)
  obtain n s1 where s1: "drain_open_cycle w policy (max_concurrent_of policy) window t s = (n, s1)" by fastforce
  have cap: "0 < max_concurrent_of policy" and idle: "idle_sched s" and dist: "distinct (map r_id (sc_resources s))"
    using inv by (simp_all add: drain_inv_def)
  let ?c = "cycle_candidates s policy window"
  have take: "drain_take w policy window t s = take (nat (max_concurrent_of policy)) ?c"
    by (rule idle_take [OF idle cap])
  have start: "cw_start window \<le> t"
    using op by (auto simp: open_at_def cycle_is_drainable_def aware_utc_def DRAIN_CYCLE_GRACE_S_def SECOND_def)
  show ?thesis
  proof (cases "?c = []")
    case True
    then have "drain_take w policy window t s = []" using take by simp
    then have "rows s1 = rows (s\<lparr>sc_jobs := sc_jobs s @ []\<rparr>)"
      using drain_open_cycle_rows [OF s1]
      by (auto simp: new_jobs_def batches_of_def group_by_def rows_def)
    note e = rows_eqD [OF this, simplified]
    have "cycle_candidates s1 policy window = []" using True by (simp add: cycle_candidates_def e)
    then show ?thesis using drain_inv_finish [OF inv, of s1] e True s1 d by (simp add: s'_def)
  next
    case ne: False
    then have "drain_take w policy window t s \<noteq> []" using take cap by simp
    from drain_open_cycle_wave [OF this] obtain args k where
      r: "rows s1 = rows (s\<lparr>sc_jobs := sc_jobs s @ new_jobs w policy (drain_take w policy window t s) args t k\<rparr>)"
      using s1 drain_wave_rows by metis
    note e = rows_eqD [OF r, simplified]
    have "cycle_candidates s1 policy window = drop (nat (max_concurrent_of policy)) ?c"
      using candidates_after [OF r start] filter_not_take [OF candidates_distinct [OF dist]] by (simp add: take)
    moreover have "sc_exhausted s1 = sc_exhausted s" by (rule exhausted_untouched [OF s1 ne])
    ultimately show ?thesis using drain_inv_finish [OF inv, of s1] e False s1 d by (simp add: s'_def)
  qed
qed

lemma drain_rounds_drop:
  assumes "drain_inv w policy window tm s" and "\<forall>t\<in>set ts. open_at w tm policy window t"
  shows "cycle_candidates (drain_rounds w (p_id policy) ts s) policy window
    = drop (length ts * nat (max_concurrent_of policy)) (cycle_candidates s policy window)"
  using assms
proof (induction ts arbitrary: s)
  case (Cons t ts)
  have "open_at w tm policy window t" using Cons.prems(2) by simp
  note r = drain_round [OF Cons.prems(1) this]
  have "\<forall>t\<in>set ts. open_at w tm policy window t" using Cons.prems(2) by simp
  from Cons.IH [OF conjunct1 [OF r] this] conjunct2 [OF r] show ?case by (simp add: add.commute)
qed simp

text \<open>
  C12. The drain finishes a cycle. Take an enabled capped policy whose cycle is open, with no backup in
  flight. If the workers finish what each drain tick dispatches before the next tick, then after \<open>k\<close>
  ticks inside the window exactly the first \<open>k * cap\<close> candidates, in priority order, have been
  carried; so \<open>\<lceil>n / cap\<rceil>\<close> ticks carry all \<open>n\<close> of them.
\<close>

theorem drain_carries_all:
  assumes "drain_enabled (w_env w)" and "find_policy pid s = Some policy" and "p_enabled policy"
    and "0 < max_concurrent_of policy" and "\<forall>j\<in>set (sc_jobs s). \<not> job_live j"
    and "distinct (map r_id (sc_resources s))" and "sc_exhausted s pid = None"
    and "\<forall>t\<in>set ts. open_at w (sc_timers s) policy window t"
  shows "cycle_candidates (drain_rounds w pid ts s) policy window
      = drop (length ts * nat (max_concurrent_of policy)) (cycle_candidates s policy window)
    \<and> (length (cycle_candidates s policy window) \<le> length ts * nat (max_concurrent_of policy)
         \<longrightarrow> cycle_candidates (drain_rounds w pid ts s) policy window = [])"
proof -
  have "p_id policy = pid" using find_policy_id [OF assms(2)] by simp
  then have "drain_inv w policy window (sc_timers s) s"
    using assms by (simp add: drain_inv_def idle_sched_def)
  from drain_rounds_drop [OF this assms(8)] show ?thesis using \<open>p_id policy = pid\<close> by simp
qed

lemma sample_open:
  "open_at sample_world (sc_timers sample_sched) (sample_policy (Some ''THREE_DAILY'') (Some 2))
     \<lparr>cw_start = 0, cw_end = LOOKBACK\<rparr> 600000000"
  "open_at sample_world (sc_timers sample_sched) (sample_policy (Some ''THREE_DAILY'') (Some 2))
     \<lparr>cw_start = 0, cw_end = LOOKBACK\<rparr> 720000000"
  by code_simp+

theorem drain_carries_all_witness:
  "cycle_candidates (drain_rounds sample_world ''gold'' [600000000, 720000000] sample_sched)
     (sample_policy (Some ''THREE_DAILY'') (Some 2)) \<lparr>cw_start = 0, cw_end = LOOKBACK\<rparr> = []
   \<and> map r_id (cycle_candidates sample_sched (sample_policy (Some ''THREE_DAILY'') (Some 2)) \<lparr>cw_start = 0, cw_end = LOOKBACK\<rparr>)
       = [''b'', ''c'', ''a'']"
proof -
  let ?p = "sample_policy (Some ''THREE_DAILY'') (Some 2)"
  have c: "map r_id (cycle_candidates sample_sched ?p \<lparr>cw_start = 0, cw_end = LOOKBACK\<rparr>) = [''b'', ''c'', ''a'']"
    by code_simp
  then have l: "length (cycle_candidates sample_sched ?p \<lparr>cw_start = 0, cw_end = LOOKBACK\<rparr>) = 3"
    by (metis length_map list.size(3,4) numeral_3_eq_3 One_nat_def add.right_neutral add_Suc_right)
  have "find_policy ''gold'' sample_sched = Some ?p" "p_enabled ?p" "max_concurrent_of ?p = 2"
    "sc_jobs sample_sched = []" "sc_exhausted sample_sched ''gold'' = None" "drain_enabled (w_env sample_world)"
    by (simp_all add: find_policy_def sample_sched_def sample_policy_def max_concurrent_of_def sample_world_def
        drain_enabled_def env_switch_def py_lower_def lower_char_def py_strip_def strip_char_def)
  with drain_carries_all [of sample_world "''gold''" sample_sched ?p "[600000000, 720000000]" "\<lparr>cw_start = 0, cw_end = LOOKBACK\<rparr>"]
    sample_open sample_ids l c
  show ?thesis by simp
qed

section \<open>Rows and messages of a dispatch\<close>

lemma publish_pending_out:
  "\<exists>sent. sc_sent (publish_pending w ps s) = sc_sent s @ sent
     \<and> set sent \<subseteq> set (map (\<lambda>(j, q, m). (q, MassBackup m)) ps)
     \<and> ((\<forall>k. w_bus w k = None) \<longrightarrow> sent = map (\<lambda>(j, q, m). (q, MassBackup m)) ps)
     \<and> sc_triggered (publish_pending w ps s) = sc_triggered s @ map fst ps"
proof (induction ps arbitrary: s)
  case (Cons p ps)
  obtain j q m where p: "p = (j, q, m)" by (cases p)
  let ?s1 = "snd (publish w q (MassBackup m) s)"
  let ?s2 = "?s1\<lparr>sc_triggered := sc_triggered ?s1 @ [j]\<rparr>"
  obtain sent where sent: "sc_sent (publish_pending w ps ?s2) = sc_sent ?s2 @ sent"
    "set sent \<subseteq> set (map (\<lambda>(j, q, m). (q, MassBackup m)) ps)"
    "(\<forall>k. w_bus w k = None) \<longrightarrow> sent = map (\<lambda>(j, q, m). (q, MassBackup m)) ps"
    "sc_triggered (publish_pending w ps ?s2) = sc_triggered ?s2 @ map fst ps"
    using Cons [of ?s2] by blast
  have one: "sc_sent ?s2 = sc_sent s @ (if w_bus w (sc_attempts s) = None then [(q, MassBackup m)] else [])"
    "sc_triggered ?s2 = sc_triggered s @ [j]"
    by (auto simp: publish_def split: option.splits)
  show ?case
    by (rule exI [of _ "(if w_bus w (sc_attempts s) = None then [(q, MassBackup m)] else []) @ sent"])
      (use sent one in \<open>auto simp: p Let_def\<close>)
qed simp

definition announces :: "job \<Rightarrow> string \<times> bus_message \<Rightarrow> bool" where
  "announces j qm \<longleftrightarrow>
     (\<exists>q m. qm = (q, MassBackup m) \<and> mb_job_id m = j_id j \<and> j_batch_resource_ids j = Some (mb_resource_ids m)
        \<and> mb_force_full m = sp_full_backup (j_spec j) \<and> mb_batch_id m = sp_batch_id (j_spec j)
        \<and> sp_queue (j_spec j) = Some q \<and> mb_queue m = Some q)"

lemma announces_message:
  "announces (scheduled_job cfg policy args now jid b)
     (group_queue cfg policy (fst (fst b)), MassBackup (scheduled_message cfg policy args jid b))"
  by (simp add: announces_def scheduled_job_def scheduled_message_def create_mass_backup_message_def split: prod.splits)

lemma new_job_batch:
  assumes "j \<in> set (new_jobs w policy rs args now n)"
  shows "\<exists>batch. set batch \<subseteq> set rs \<and> batch \<noteq> [] \<and> length batch \<le> 1000 \<and> j_batch_resource_ids j = Some (map r_id batch)
    \<and> (\<forall>r\<in>set batch. sp_resource_type (j_spec j) = Some (r_type r) \<and> j_tenant_id j = r_tenant_id r)
    \<and> (sp_full_backup (j_spec j) \<longleftrightarrow> (\<forall>r\<in>set batch. r_last_backup_at r = None))"
proof -
  obtain k key b where kb: "(key, b) \<in> set (batches_of rs)"
    and j: "j = scheduled_job (w_settings w) policy args now (w_uuid4 w k) (key, b)"
    using new_jobs_shape [OF assms] by blast
  have "set b \<subseteq> set (concat (map snd (batches_of rs)))" using kb by force
  also have "\<dots> = set rs" using arg_cong [OF batches_of_mset [of rs], of set_mset] by simp
  finally show ?thesis
    using batches_of_spec [OF kb] j
    by (intro exI [of _ b]) (cases key, auto simp: scheduled_job_def full_backup_of_def list_ex_iff)
qed

text \<open>
  C26. \<open>_dispatch_resources\<close> turns resources into jobs faithfully. Every resource is in exactly one of
  the new \<open>QUEUED\<close> jobs; a job carries between 1 and 1000 resources of one type and tenant, and is a
  full backup exactly when none of them was ever backed up. The rows are committed whatever the bus
  does; every message sent announces one of the rows, with its resources, batch and queue, and a
  working bus gets one message per row, in order. Every row gets its trigger event.
\<close>

theorem dispatch_resources_spec:
  assumes "dispatch_resources w policy rs args now s = (n, s')"
  shows "\<exists>new sent. sc_jobs s' = sc_jobs s @ new \<and> sc_sent s' = sc_sent s @ sent
    \<and> n = length rs \<and> mset (batch_ids new) = mset (map r_id rs)
    \<and> (\<forall>j\<in>set new. j_type j = BACKUP \<and> j_status j = J_QUEUED \<and> sp_sla_policy_id (j_spec j) = Some (p_id policy)
         \<and> (\<exists>batch. set batch \<subseteq> set rs \<and> batch \<noteq> [] \<and> length batch \<le> 1000
              \<and> j_batch_resource_ids j = Some (map r_id batch)
              \<and> (\<forall>r\<in>set batch. sp_resource_type (j_spec j) = Some (r_type r) \<and> j_tenant_id j = r_tenant_id r)
              \<and> (sp_full_backup (j_spec j) \<longleftrightarrow> (\<forall>r\<in>set batch. r_last_backup_at r = None))))
    \<and> (\<forall>m\<in>set sent. \<exists>j\<in>set new. announces j m)
    \<and> ((\<forall>k. w_bus w k = None) \<longrightarrow> list_all2 announces new sent)
    \<and> sc_triggered s' = sc_triggered s @ map j_id new"
proof -
  let ?new = "new_jobs w policy rs args now (sc_uuids s)"
  define numbered where "numbered = map (\<lambda>(n, b). (w_uuid4 w n, b)) (enumerate (sc_uuids s) (batches_of rs))"
  define pending where "pending = map (\<lambda>(jid, b). (jid, group_queue (w_settings w) policy (fst (fst b)),
      scheduled_message (w_settings w) policy args jid b)) numbered"
  have new: "?new = map (\<lambda>(jid, b). scheduled_job (w_settings w) policy args now jid b) numbered"
    by (simp add: new_jobs_def numbered_def case_prod_unfold)
  have s': "s' = publish_pending w pending (s\<lparr>sc_jobs := sc_jobs s @ ?new, sc_uuids := sc_uuids s + length numbered\<rparr>)"
    using assms by (simp add: dispatch_resources_def Let_def numbered_def pending_def new_jobs_def comp_def case_prod_unfold)
  obtain sent where sent: "sc_sent s' = sc_sent s @ sent"
    "set sent \<subseteq> set (map (\<lambda>(j, q, m). (q, MassBackup m)) pending)"
    "(\<forall>k. w_bus w k = None) \<longrightarrow> sent = map (\<lambda>(j, q, m). (q, MassBackup m)) pending"
    "sc_triggered s' = sc_triggered s @ map fst pending"
    using publish_pending_out [of w pending "s\<lparr>sc_jobs := sc_jobs s @ ?new, sc_uuids := sc_uuids s + length numbered\<rparr>"] s'
    by auto
  have all: "list_all2 announces ?new (map (\<lambda>(j, q, m). (q, MassBackup m)) pending)"
    unfolding new pending_def by (simp add: list_all2_map1 list_all2_map2 list_all2_same case_prod_unfold announces_message)
  have "\<exists>j\<in>set ?new. announces j m" if "m \<in> set sent" for m
  proof -
    from that sent(2) obtain i where i: "i < length (map (\<lambda>(j, q, m). (q, MassBackup m)) pending)"
      "map (\<lambda>(j, q, m). (q, MassBackup m)) pending ! i = m"
      by (meson in_set_conv_nth subsetD)
    with all have "i < length ?new" "announces (?new ! i) m" by (auto simp: list_all2_conv_all_nth)
    then show ?thesis by (intro bexI [of _ "?new ! i"] nth_mem)
  qed
  moreover have "map fst pending = map j_id ?new"
    by (simp add: new pending_def case_prod_unfold scheduled_job_def comp_def)
  moreover have "sc_jobs s' = sc_jobs s @ ?new"
    using rows_eqD(3) [OF dispatch_resources_rows [of w policy rs args now s]] assms by simp
  moreover have "n = length rs" using dispatch_resources_count [of w policy rs args now s] assms by simp
  moreover have "(\<forall>k. w_bus w k = None) \<longrightarrow> list_all2 announces ?new sent" using sent(3) all by simp
  ultimately show ?thesis
    using sent(1,4) batch_ids_new_jobs [of w policy rs args now "sc_uuids s"] new_jobs_fields(1,2,5) new_job_batch
    by (intro exI [of _ ?new] exI [of _ sent]) simp
qed

theorem dispatch_resources_spec_witness:
  "\<exists>new sent. sc_jobs (snd (dispatch_resources sample_world (sample_policy None None) (sc_resources sample_sched)
        \<lparr>da_batch_id = ''b1'', da_deferred = [], da_overlap_held = [], da_sla_skipped = [], da_wave = 1\<rparr> 9 sample_sched)) = new
     \<and> mset (batch_ids new) = {#''a'', ''b'', ''c''#} \<and> list_all2 announces new sent"
  using dispatch_resources_spec [OF prod.collapse [symmetric], of sample_world "sample_policy None None"
      "sc_resources sample_sched" "\<lparr>da_batch_id = ''b1'', da_deferred = [], da_overlap_held = [], da_sla_skipped = [], da_wave = 1\<rparr>"
      9 sample_sched]
  by (auto simp: sample_sched_def sample_resource_def sample_world_def)

section \<open>Violations\<close>

lemma in_set_map_filter: "y \<in> set (List.map_filter f xs) \<longleftrightarrow> (\<exists>x\<in>set xs. f x = Some y)"
  by (induction xs) (auto simp: map_filter_def)

lemma guarded_lookup:
  "(case Option.bind k g of None \<Rightarrow> None | Some p \<Rightarrow> if P p then f p else None) = Some v
     \<longleftrightarrow> (\<exists>a p. k = Some a \<and> g a = Some p \<and> P p \<and> f p = Some v)"
  by (auto split: option.splits bind_splits if_splits)

text \<open>
  C32. The SLA check reports exactly the live resources of enabled, alerting policies with a cadence
  that were never backed up or whose last backup is older than the policy's interval. \<open>CRITICAL\<close> is
  reserved for those with no backup in flight, never backed up or more than two intervals late; a
  \<open>MANUAL\<close> policy has no violations.
\<close>

theorem check_sla_violations_spec:
  "v \<in> set (check_sla_violations now s) \<longleftrightarrow>
    (\<exists>r\<in>set (sc_resources s). \<exists>pid policy.
       dispatchable r \<and> r_sla_policy_id r = Some pid \<and> find_policy pid s = Some policy
       \<and> p_enabled policy \<and> p_sla_violation_alert policy \<and> policy_has_sla_cadence (p_frequency policy)
       \<and> (let hours = map_option (\<lambda>t. hours_of (now - t)) (naive_utc (r_last_backup_at r)) in
         (case hours of None \<Rightarrow> True | Some h \<Rightarrow> frequency_interval_hours (p_frequency policy) < h)
       \<and> v = \<lparr>v_resource_id = r_id r, v_tenant_id = r_tenant_id r, v_resource_type = r_type r, v_policy_id = p_id policy,
              v_never_backed_up = (r_last_backup_at r = None),
              v_backup_in_progress = (r_id r \<in> set (inflight_resource_ids_query (sc_jobs s) (sc_snapshots s))),
              v_hours_overdue = map_option (\<lambda>h. h - frequency_interval_hours (p_frequency policy)) hours,
              v_severity =
                (if r_id r \<in> set (inflight_resource_ids_query (sc_jobs s) (sc_snapshots s)) then WARNING
                 else (case hours of
                         None \<Rightarrow> CRITICAL
                       | Some h \<Rightarrow> if 2 * frequency_interval_hours (p_frequency policy) < h then CRITICAL else WARNING))\<rparr>))"
proof -
  let ?in = "set (inflight_resource_ids_query (sc_jobs s) (sc_snapshots s))"
  let ?rep = "\<lambda>r policy hours. \<lparr>v_resource_id = r_id r, v_tenant_id = r_tenant_id r, v_resource_type = r_type r,
      v_policy_id = p_id policy, v_never_backed_up = (r_last_backup_at r = None), v_backup_in_progress = (r_id r \<in> ?in),
      v_hours_overdue = map_option (\<lambda>h. h - frequency_interval_hours (p_frequency policy)) hours,
      v_severity = (if r_id r \<in> ?in then WARNING
        else (case hours of None \<Rightarrow> CRITICAL
              | Some h \<Rightarrow> if 2 * frequency_interval_hours (p_frequency policy) < h then CRITICAL else WARNING))\<rparr>"
  have one: "violation_of now ?in policy r = Some v \<longleftrightarrow>
      policy_has_sla_cadence (p_frequency policy)
      \<and> (case map_option (\<lambda>t. hours_of (now - t)) (naive_utc (r_last_backup_at r)) of
           None \<Rightarrow> True | Some h \<Rightarrow> frequency_interval_hours (p_frequency policy) < h)
      \<and> v = ?rep r policy (map_option (\<lambda>t. hours_of (now - t)) (naive_utc (r_last_backup_at r)))" for r policy
  proof (cases "r_last_backup_at r")
    case None
    then show ?thesis
      by (auto simp: violation_of_def classify_sla_violation_def naive_utc_def Let_def)
  next
    case (Some d)
    obtain t where t: "naive_utc (r_last_backup_at r) = Some t"
      using Some by (cases d) (auto simp: naive_utc_def)
    show ?thesis
      using Some t by (auto simp: violation_of_def classify_sla_violation_def Let_def mult.commute)
  qed
  have "v \<in> set (check_sla_violations now s) \<longleftrightarrow>
      (\<exists>r\<in>set (sc_resources s). \<exists>pid policy. dispatchable r \<and> r_sla_policy_id r = Some pid
         \<and> find_policy pid s = Some policy \<and> p_enabled policy \<and> p_sla_violation_alert policy
         \<and> violation_of now ?in policy r = Some v)"
    by (simp add: check_sla_violations_def Let_def in_set_map_filter guarded_lookup conj_ac cong: conj_cong)
      blast
  then show ?thesis unfolding one Let_def by (simp only: conj_assoc)
qed

section \<open>A skip event that cannot be published\<close>

lemma publish_all_down:
  assumes "es \<noteq> []" and "\<And>k. w_bus w k \<noteq> None"
  shows "\<exists>e s'. publish_all w es s = (Inl e, s')"
proof -
  obtain e es' where es: "es = e # es'" using assms(1) by (cases es) auto
  obtain err where "w_bus w (sc_attempts s) = Some err" using assms(2) by blast
  then show ?thesis by (simp add: es publish_def)
qed

text \<open>
  C34. The events of skipped resources are on the control path: while the bus refuses publishes, a
  policy with one assigned resource outside its workload scope dispatches nothing at all, although
  its other resources are due and the job rows need no bus. (Cycle events and job messages are sent
  so that a bus error is only logged.)
\<close>

theorem skip_event_blocks_tick:
  assumes "find_policy pid s = Some policy" and "p_enabled policy" and "\<forall>k. w_bus w k \<noteq> None"
    and "r \<in> set (policy_resources policy s)" and "\<not> in_scope policy r"
  shows "\<exists>e s'. dispatch_policy_backups w g now pid s = (Inl e, s') \<and> sc_jobs s' = sc_jobs s"
proof -
  let ?s = "s\<lparr>sc_exhausted := (sc_exhausted s)(pid := None)\<rparr>"
  obtain ov s1 where ov: "overlap_stage w g now policy ?s = (ov, s1)" by fastforce
  have r1: "rows s1 = rows s" using rows_overlap_stage [OF ov] by simp
  have pr: "policy_resources policy s1 = policy_resources policy s"
    using rows_eqD(2) [OF r1] by (simp add: policy_resources_def)
  let ?sk = "filter (\<lambda>r. \<not> in_scope policy r) (policy_resources policy s1)"
  have "r \<in> set ?sk" using assms(4,5) pr by simp
  then have ne: "map (sla_skip_event policy) ?sk \<noteq> []" "policy_resources policy s1 \<noteq> []"
    by (auto simp: filter_empty_conv)
  obtain e s2 where p: "publish_all w (map (sla_skip_event policy) ?sk) s1 = (Inl e, s2)"
    using publish_all_down [OF ne(1)] assms(3) by blast
  have "find_policy pid ?s = Some policy" using assms(1) by (simp add: find_policy_def)
  then have "dispatch_policy_backups w g now pid s = (Inl e, s2)"
    using assms(2) ov ne(2) p
    by (simp add: dispatch_policy_backups_def dispatch_policy_backups_impl_def publish_sla_skip_audit_events_def Let_def)
  moreover have "sc_jobs s2 = sc_jobs s" using rows_publish_all_eq [OF p] r1 rows_eqD(3) by metis
  ultimately show ?thesis by blast
qed

theorem skip_event_blocks_tick_witness:
  "\<exists>e s'. dispatch_policy_backups (sample_world\<lparr>w_bus := \<lambda>_. Some (LibraryError ''bus down'')\<rparr>) True 0 ''gold''
      (sample_sched\<lparr>sc_resources := sample_resource ''x'' ''TEAMS_CHAT'' None # sc_resources sample_sched\<rparr>) = (Inl e, s')
    \<and> sc_jobs s' = []"
proof -
  let ?p = "sample_policy (Some ''THREE_DAILY'') (Some 2)"
  let ?s = "sample_sched\<lparr>sc_resources := sample_resource ''x'' ''TEAMS_CHAT'' None # sc_resources sample_sched\<rparr>"
  have "find_policy ''gold'' ?s = Some ?p" "p_enabled ?p" "sc_jobs ?s = []"
    by (simp_all add: find_policy_def sample_sched_def sample_policy_def)
  moreover have "sample_resource ''x'' ''TEAMS_CHAT'' None \<in> set (policy_resources ?p ?s)"
    by (simp add: policy_resources_def sample_resource_def sample_policy_def dispatchable_def)
  moreover have "\<not> in_scope ?p (sample_resource ''x'' ''TEAMS_CHAT'' None)"
    by (simp add: in_scope_def sample_resource_def resource_type_enabled_def SCHEDULER_IGNORED_TYPES_def)
  ultimately show ?thesis
    using skip_event_blocks_tick [of "''gold''" ?s ?p "sample_world\<lparr>w_bus := \<lambda>_. Some (LibraryError ''bus down'')\<rparr>"
        "sample_resource ''x'' ''TEAMS_CHAT'' None" True 0] by simp
qed

end
