(* ===== verification/Work_Rows.thy ===== *)
theory Work_Rows
  imports Rows
begin

text \<open>
  The work tables of the distributed pipeline (\<open>shared/models.py\<close>): jobs, snapshots, snapshot
  partitions, their items, worker heartbeats, and the bookkeeping tables the sweeps write.

  The three leased tables (\<open>jobs\<close>, \<open>snapshots\<close>, \<open>snapshot_partitions\<close>) carry the same columns
  \<open>id\<close>, \<open>status\<close>, \<open>lease_owner_id\<close>, \<open>lease_expires_at\<close>, \<open>lease_token\<close>: the record \<open>work_row\<close>,
  which the three row types extend, so that one definition of a lease operation serves every table.

  An \<open>UPDATE t SET f WHERE p\<close> is \<open>sql_update p f\<close> on the list of rows; \<open>RETURNING\<close> gives the
  updated rows. \<open>NOW()\<close> is the transaction's start time, an argument of every statement.
\<close>

section \<open>Rows\<close>

type_synonym json_obj = "string \<rightharpoonup> json"

record 'st work_row =
  w_id :: string
  w_status :: 'st
  w_owner :: "string option"          \<comment> \<open>\<open>lease_owner_id\<close>\<close>
  w_expires :: "utc option"           \<comment> \<open>\<open>lease_expires_at\<close>\<close>
  w_token :: int                      \<comment> \<open>\<open>lease_token\<close>\<close>

text \<open>\<open>snapshot_partitions.status\<close> is a plain text column; the other two are enumerations.\<close>

record partition_row = "string work_row" +
  pt_snapshot_id :: string
  pt_tenant_id :: string
  pt_resource_id :: string
  pt_job_id :: string
  pt_type :: string
  pt_index :: int
  pt_drive_id :: "string option"
  pt_file_ids :: "string option"      \<comment> \<open>JSON text of the column\<close>
  pt_payload :: "string option"       \<comment> \<open>JSON text of the column\<close>
  pt_worker_id :: "string option"
  pt_worker_region :: "string option"
  pt_retry_count :: int
  pt_enqueued_at :: utc
  pt_started_at :: "utc option"
  pt_completed_at :: "utc option"
  pt_files_uploaded :: int
  pt_bytes_uploaded :: int
  pt_failure_state :: "json_obj option"
  pt_requeue_count :: int

datatype snapshot_type = T_FULL | T_INCREMENTAL | T_PREEMPTIVE | T_MANUAL

record snap_row = "snapshot_status work_row" +
  sn_resource_id :: string
  sn_job_id :: "string option"
  sn_type :: snapshot_type
  sn_started_at :: "utc option"
  sn_created_at :: "utc option"
  sn_completed_at :: "utc option"
  sn_duration_secs :: "int option"
  sn_item_count :: "int option"
  sn_bytes_total :: "int option"
  sn_extra :: "json_obj option"       \<comment> \<open>\<open>extra_data\<close>\<close>
  sn_reuse_of :: "string option"
  sn_reuse_root :: "string option"
  sn_overlay_base :: "string option"
  sn_hc_drain :: "string option"      \<comment> \<open>\<open>hc_drain_status\<close>\<close>
  sn_delta_token :: "string option"
  sn_delta_tokens :: "(string \<times> string) list option" \<comment> \<open>\<open>delta_tokens_json\<close>\<close>

record job_row = "job_status work_row" +
  jr_batch_id :: "string option"      \<comment> \<open>\<open>spec.batch_id\<close>\<close>
  jr_completed_at :: "utc option"

record item_row =
  it_id :: string
  it_snapshot_id :: string
  it_type :: string
  it_external_id :: string
  it_parent :: "string option"        \<comment> \<open>\<open>parent_external_id\<close>\<close>
  it_size :: "int option"             \<comment> \<open>\<open>content_size\<close>\<close>
  it_created_at :: utc
  it_rest :: string                   \<comment> \<open>the other captured columns: name, hashes, blob path, metadata, tombstone\<close>

record heartbeat_row =
  hb_worker_id :: string
  hb_replica_id :: string
  hb_last_seen_at :: utc

section \<open>Statements\<close>

definition sql_update :: "('r \<Rightarrow> bool) \<Rightarrow> ('r \<Rightarrow> 'r) \<Rightarrow> 'r list \<Rightarrow> 'r list" where
  "sql_update p f rows = map (\<lambda>r. if p r then f r else r) rows"

definition sql_returning :: "('r \<Rightarrow> bool) \<Rightarrow> ('r \<Rightarrow> 'r) \<Rightarrow> 'r list \<Rightarrow> 'r list" where
  "sql_returning p f rows = map f (filter p rows)"

text \<open>Row lookup by primary key.\<close>

definition row_of :: "string \<Rightarrow> ('st, 'a) work_row_scheme list \<Rightarrow> ('st, 'a) work_row_scheme option" where
  "row_of i rows = find (\<lambda>r. w_id r = i) rows"

definition ids :: "('st, 'a) work_row_scheme list \<Rightarrow> string list" where
  "ids rows = map w_id rows"

lemma length_sql_update [simp]: "length (sql_update p f rows) = length rows"
  by (simp add: sql_update_def)

lemma sql_update_Nil [simp]: "sql_update p f [] = []"
  by (simp add: sql_update_def)

lemma sql_update_Cons [simp]:
  "sql_update p f (r # rows) = (if p r then f r else r) # sql_update p f rows"
  by (simp add: sql_update_def)

lemma set_sql_update: "set (sql_update p f rows) = (\<lambda>r. if p r then f r else r) ` set rows"
  by (simp add: sql_update_def)

lemma in_sql_update: "r' \<in> set (sql_update p f rows) \<longleftrightarrow> (\<exists>r \<in> set rows. r' = (if p r then f r else r))"
  by (auto simp: set_sql_update)

lemma sql_update_none: "(\<And>r. r \<in> set rows \<Longrightarrow> \<not> p r) \<Longrightarrow> sql_update p f rows = rows"
  by (induction rows) auto

lemma sql_returning_Nil_iff: "sql_returning p f rows = [] \<longleftrightarrow> (\<forall>r \<in> set rows. \<not> p r)"
  by (simp add: sql_returning_def filter_empty_conv)

lemma in_sql_returning: "r' \<in> set (sql_returning p f rows) \<longleftrightarrow> (\<exists>r \<in> set rows. p r \<and> r' = f r)"
  by (auto simp: sql_returning_def)

lemma ids_sql_update [simp]: "(\<And>r. w_id (f r) = w_id r) \<Longrightarrow> ids (sql_update p f rows) = ids rows"
  by (induction rows) (auto simp: ids_def)

lemma row_of_sql_update:
  "(\<And>r. w_id (f r) = w_id r) \<Longrightarrow>
   row_of i (sql_update p f rows) = map_option (\<lambda>r. if p r then f r else r) (row_of i rows)"
  by (induction rows) (auto simp: row_of_def)

lemma row_of_Some: "row_of i rows = Some r \<Longrightarrow> r \<in> set rows \<and> w_id r = i"
  by (auto simp: row_of_def find_Some_iff)

lemma row_of_None: "row_of i rows = None \<longleftrightarrow> i \<notin> set (ids rows)"
  by (auto simp: row_of_def find_None_iff ids_def)

lemma row_of_distinct: "distinct (ids rows) \<Longrightarrow> r \<in> set rows \<Longrightarrow> row_of (w_id r) rows = Some r"
  by (induction rows) (auto simp: row_of_def ids_def)

text \<open>\<open>COALESCE(counter, 0)\<close>\<close>

definition or_zero :: "int option \<Rightarrow> int" where
  "or_zero v = (case v of None \<Rightarrow> 0 | Some n \<Rightarrow> n)"

section \<open>Status texts\<close>

definition snapshot_status_text :: "snapshot_status \<Rightarrow> string" where
  "snapshot_status_text s =
     (case s of S_IN_PROGRESS \<Rightarrow> ''IN_PROGRESS'' | S_COMPLETED \<Rightarrow> ''COMPLETED'' | S_FAILED \<Rightarrow> ''FAILED''
      | S_PARTIAL \<Rightarrow> ''PARTIAL'' | S_PENDING_DELETION \<Rightarrow> ''PENDING_DELETION'' | S_SKIPPED \<Rightarrow> ''SKIPPED'')"

definition job_status_text :: "job_status \<Rightarrow> string" where
  "job_status_text s =
     (case s of J_QUEUED \<Rightarrow> ''QUEUED'' | J_PENDING \<Rightarrow> ''PENDING'' | J_RUNNING \<Rightarrow> ''RUNNING''
      | J_COMPLETED \<Rightarrow> ''COMPLETED'' | J_PARTIAL \<Rightarrow> ''PARTIAL'' | J_FAILED \<Rightarrow> ''FAILED''
      | J_CANCELLED \<Rightarrow> ''CANCELLED'' | J_CANCELLING \<Rightarrow> ''CANCELLING'' | J_RETRYING \<Rightarrow> ''RETRYING'')"

lemma snapshot_status_text_inj: "snapshot_status_text s = snapshot_status_text s' \<longleftrightarrow> s = s'"
  by (cases s; cases s'; simp add: snapshot_status_text_def)

lemma job_status_text_inj: "job_status_text s = job_status_text s' \<longleftrightarrow> s = s'"
  by (cases s; cases s'; simp add: job_status_text_def)

section \<open>JSON columns\<close>

text \<open>\<open>col ->> key\<close>, NULL when the column, the key or the value is null.\<close>

definition json_get :: "json_obj option \<Rightarrow> string \<Rightarrow> string option" where
  "json_get col k = Option.bind col (\<lambda>m. Option.bind (m k) json_text)"

text \<open>\<open>COALESCE(col, '{}') || obj\<close>: keys of \<open>obj\<close> overwrite.\<close>

definition json_merge :: "json_obj option \<Rightarrow> json_obj \<Rightarrow> json_obj option" where
  "json_merge col obj = Some ((case col of None \<Rightarrow> Map.empty | Some m \<Rightarrow> m) ++ obj)"

text \<open>\<open>COALESCE(CASE WHEN text ~ '^[0-9]+$' THEN text::int END, 0)\<close>, for values within \<open>int4\<close>.\<close>

definition json_counter :: "json_obj option \<Rightarrow> string \<Rightarrow> int" where
  "json_counter col k =
     (case json_get col k of
        None \<Rightarrow> 0
      | Some s \<Rightarrow>
          if s \<noteq> [] \<and> list_all (\<lambda>c. digit_value c \<noteq> None) s
          then (case parse_digits 0 s of None \<Rightarrow> 0 | Some n \<Rightarrow> int n) else 0)"

text \<open>
  \<open>jsonb_typeof(col -> key) = 'number' AND (col ->> key)::bigint > 0\<close>. The numbers the writers of these
  columns store are counters, so a number is an integer; the cast would raise on another.
\<close>

definition json_positive_number :: "json_obj option \<Rightarrow> string \<Rightarrow> bool" where
  "json_positive_number col k =
     (case Option.bind col (\<lambda>m. m k) of Some (JInt n) \<Rightarrow> 0 < n | _ \<Rightarrow> False)"

lemma json_get_merge: "json_get (json_merge col obj) k =
    (case obj k of Some v \<Rightarrow> json_text v | None \<Rightarrow> json_get col k)"
  by (auto simp: json_get_def json_merge_def map_add_def split: option.splits)

lemma json_counter_nonneg [simp]: "0 \<le> json_counter col k"
  by (auto simp: json_counter_def split: option.splits)

end
