(* ===== verification/Calendar.thy ===== *)
theory Calendar
  imports Cron
begin

text \<open>
  The proleptic Gregorian calendar of Python's \<open>datetime\<close>, as far as the retention buckets use it:
  the year, the month and the day of an instant (\<open>strftime\<close> with \<open>%Y\<close>, \<open>%Y-%m\<close>, \<open>%Y-%m-%d\<close>) and its ISO
  year and week (\<open>isocalendar\<close>). Days are ordinals: day 1 is January 1 of year 1.

  A bucket scan over date-sorted rows is right only if a period is an interval of time. The locale
  \<open>period\<close> states that of a key function and derives what the scan needs; the four calendars interpret it.
\<close>

section \<open>Days, years and months\<close>

definition EPOCH_ORDINAL :: int where
  "EPOCH_ORDINAL = 719163"

definition ordinal :: "utc \<Rightarrow> int" where
  "ordinal t = t div DAY + EPOCH_ORDINAL"

text \<open>\<open>datetime.min\<close> and the first instant after \<open>datetime.max\<close>\<close>

definition DATETIME_MIN :: utc where
  "DATETIME_MIN = (1 - EPOCH_ORDINAL) * DAY"

definition DATETIME_END :: utc where
  "DATETIME_END = (3652060 - EPOCH_ORDINAL) * DAY"

definition leap_year :: "int \<Rightarrow> bool" where
  "leap_year y \<longleftrightarrow> y mod 4 = 0 \<and> (y mod 100 \<noteq> 0 \<or> y mod 400 = 0)"

text \<open>The ordinal of January 1.\<close>

definition year_start :: "int \<Rightarrow> int" where
  "year_start y = 365 * (y - 1) + (y - 1) div 4 - (y - 1) div 100 + (y - 1) div 400 + 1"

lemma div_pred: "0 < k \<Longrightarrow> (y :: int) div k = (y - 1) div k + (if k dvd y then 1 else 0)"
proof -
  assume k: "0 < k"
  show ?thesis
  proof (cases "k dvd y")
    case True
    then obtain c where y: "y = k * c" by blast
    have "(y - 1) div k = c - 1" by (rule int_div_pos_eq [where r = "k - 1"]) (use k in \<open>simp_all add: y algebra_simps\<close>)
    with True k y show ?thesis by simp
  next
    case False
    then have "0 < y mod k" using k by (simp add: dvd_eq_mod_eq_0 order_less_le)
    moreover have "y = k * (y div k) + y mod k" "y mod k < k" using k by simp_all
    ultimately have "(y - 1) div k = y div k" by (intro int_div_pos_eq [where r = "y mod k - 1"]) simp_all
    with False show ?thesis by simp
  qed
qed

lemma year_start_Suc: "year_start (y + 1) = year_start y + (if leap_year y then 366 else 365)"
proof -
  have dvd: "(400 :: int) dvd y \<Longrightarrow> 100 dvd y" "(100 :: int) dvd y \<Longrightarrow> 4 dvd y"
    by (erule dvd_trans [rotated], simp)+
  have key: "s' = s + (if p \<and> (\<not> q \<or> r) then 366 else 365)"
    if "s = 365 * (y - 1) + a - b + c + 1" "s' = 365 * y + a' - b' + c' + 1" "a' = a + (if p then 1 else 0)"
      "b' = b + (if q then 1 else 0)" "c' = c + (if r then 1 else 0)" "r \<longrightarrow> q" "q \<longrightarrow> p"
    for s s' a a' b b' c c' :: int and p q r
    using that by (cases p; cases q; cases r) simp_all
  show ?thesis
    unfolding leap_year_def dvd_eq_mod_eq_0 [symmetric]
    by (rule key [OF year_start_def _ div_pred div_pred div_pred]) (use dvd in \<open>simp_all add: year_start_def\<close>)
qed

lemma year_start_less: "y < z \<Longrightarrow> year_start y + 365 \<le> year_start z"
proof (induction z rule: int_gr_induct)
  case base
  then show ?case by (simp add: year_start_Suc)
next
  case (step z)
  then show ?case by (simp add: year_start_Suc)
qed

lemma year_start_mono: "y \<le> z \<Longrightarrow> year_start y \<le> year_start z"
  using year_start_less [of y z] by (cases "y = z") auto

function year_from :: "int \<Rightarrow> int \<Rightarrow> int" where
  "year_from d y = (if year_start (y + 1) \<le> d then year_from d (y + 1) else y)"
  by auto

termination
proof (relation "measure (\<lambda>(d, y). nat (d - year_start y))")
  fix d y assume "year_start (y + 1) \<le> d"
  then show "((d, y + 1), d, y) \<in> measure (\<lambda>(d, y). nat (d - year_start y))"
    using year_start_less [of y "y + 1"] by auto
qed simp

declare year_from.simps [simp del]

definition year_of :: "int \<Rightarrow> int" where
  "year_of d = year_from d ((d - 1) div 366 + 1)"

lemma year_from_spec:
  "year_start y \<le> d \<Longrightarrow> year_start (year_from d y) \<le> d \<and> d < year_start (year_from d y + 1)"
  by (induction d y rule: year_from.induct) (subst year_from.simps, auto simp: year_from.simps)

lemma year_start_year_of:
  assumes "1 \<le> d"
  shows "year_start (year_of d) \<le> d" "d < year_start (year_of d + 1)"
proof -
  define q where "q = (d - 1) div 366"
  have "366 * q \<le> d - 1" unfolding q_def by (simp add: mult.commute minus_mod_eq_mult_div [symmetric])
  moreover have "0 \<le> q" using assms by (simp add: q_def pos_imp_zdiv_nonneg_iff)
  moreover from this have "q div 4 \<le> q div 1" "q div 400 \<le> q div 100" by (intro zdiv_mono2; simp)+
  ultimately have "year_start (q + 1) \<le> d" by (simp add: year_start_def)
  then show "year_start (year_of d) \<le> d" "d < year_start (year_of d + 1)"
    using year_from_spec [of "q + 1" d] by (simp_all add: year_of_def q_def)
qed

lemma year_of_mono:
  assumes "1 \<le> d" "d \<le> e"
  shows "year_of d \<le> year_of e"
proof (rule ccontr)
  assume "\<not> year_of d \<le> year_of e"
  then have "year_start (year_of e + 1) \<le> year_start (year_of d)" by (intro year_start_mono) auto
  with year_start_year_of [of d] year_start_year_of [of e] assms show False by auto
qed

definition days_before_month :: "int \<Rightarrow> nat \<Rightarrow> int" where
  "days_before_month y m =
     [0, 31, 59, 90, 120, 151, 181, 212, 243, 273, 304, 334] ! (m - 1) + (if 2 < m \<and> leap_year y then 1 else 0)"

definition month_of :: "int \<Rightarrow> nat" where
  "month_of d = 1 + length (filter (\<lambda>m. year_start (year_of d) + days_before_month (year_of d) m \<le> d) [2..<13])"

definition day_of :: "int \<Rightarrow> int" where
  "day_of d = d - (year_start (year_of d) + days_before_month (year_of d) (month_of d)) + 1"

section \<open>ISO weeks\<close>

text \<open>\<open>_isoweek1monday\<close> and \<open>date.isocalendar\<close>\<close>

definition week1_monday :: "int \<Rightarrow> int" where
  "week1_monday y =
     (let first = year_start y; wd = (first + 6) mod 7 in if 3 < wd then first - wd + 7 else first - wd)"

definition isocalendar :: "int \<Rightarrow> int \<times> int" where
  "isocalendar d =
     (let y = year_of d; week = (d - week1_monday y) div 7
      in if week < 0 then (y - 1, (d - week1_monday (y - 1)) div 7 + 1)
         else if 52 \<le> week \<and> week1_monday (y + 1) \<le> d then (y + 1, 1)
         else (y, week + 1))"

text \<open>The Monday of a day's week.\<close>

definition monday_of :: "int \<Rightarrow> int" where
  "monday_of d = d - (d + 6) mod 7"

lemma monday_of_form:
  obtains q r where "d = 7 * q + r - 6" "0 \<le> r" "r < 7" "(d + 6) mod 7 = r" "monday_of d = 7 * q - 6"
proof -
  have "d = 7 * ((d + 6) div 7) + (d + 6) mod 7 - 6" using mult_div_mod_eq [of 7 "d + 6"] by linarith
  moreover have "0 \<le> (d + 6) mod 7" "(d + 6) mod 7 < 7" by simp_all
  moreover from calculation have "monday_of d = 7 * ((d + 6) div 7) - 6" unfolding monday_of_def by linarith
  ultimately show ?thesis using that by blast
qed

lemma monday_of_mono:
  assumes "d \<le> e"
  shows "monday_of d \<le> monday_of e"
proof -
  obtain q r where d: "d = 7 * q + r - 6" "0 \<le> r" "monday_of d = 7 * q - 6" by (rule monday_of_form)
  obtain q' r' where e: "e = 7 * q' + r' - 6" "r' < 7" "monday_of e = 7 * q' - 6" by (rule monday_of_form)
  have "q \<le> q'" using d(1,2) e(1,2) assms by linarith
  then show ?thesis unfolding d(3) e(3) by linarith
qed

text \<open>Mondays are the ordinals \<open>7 * a + 1\<close>.\<close>

lemma monday_le_iff: "7 * a + 1 \<le> d \<longleftrightarrow> 7 * a + 1 \<le> monday_of d"
proof -
  obtain q r where d: "d = 7 * q + r - 6" "0 \<le> r" "r < 7" "monday_of d = 7 * q - 6" by (rule monday_of_form)
  show ?thesis
  proof
    assume "7 * a + 1 \<le> d"
    then have "a + 1 \<le> q" using d(1,3) by linarith
    then show "7 * a + 1 \<le> monday_of d" unfolding d(4) by linarith
  next
    assume "7 * a + 1 \<le> monday_of d"
    then show "7 * a + 1 \<le> d" using d by linarith
  qed
qed

lemma week_monday: "7 * a + 1 + 7 * ((d - (7 * a + 1)) div 7) = monday_of d"
proof (rule monday_of_form [of d])
  fix q r assume d: "d = 7 * q + r - 6" "0 \<le> r" "r < 7" "monday_of d = 7 * q - 6"
  have "(d - (7 * a + 1)) div 7 = q - a - 1" by (rule int_div_pos_eq [where r = r]) (use d in simp_all)
  with d show ?thesis by simp
qed

lemma week1_monday_near:
  obtains a where "week1_monday y = 7 * a + 1" "year_start y - 3 \<le> week1_monday y" "week1_monday y \<le> year_start y + 3"
proof (rule monday_of_form [of "year_start y"])
  fix q r assume f: "year_start y = 7 * q + r - 6" "0 \<le> r" "r < 7" "(year_start y + 6) mod 7 = r"
  show ?thesis
  proof (cases "3 < r")
    case True
    then show ?thesis using f that [of q] by (simp add: week1_monday_def Let_def)
  next
    case False
    then show ?thesis using f that [of "q - 1"] by (simp add: week1_monday_def Let_def)
  qed
qed

lemma week1_monday_less: "y < z \<Longrightarrow> week1_monday y + 364 \<le> week1_monday z"
proof (rule week1_monday_near [of y], rule week1_monday_near [of z])
  fix a b assume "y < z" "week1_monday y = 7 * a + 1" "week1_monday y \<le> year_start y + 3" "week1_monday z = 7 * b + 1"
    "year_start z - 3 \<le> week1_monday z"
  moreover from this have "a + 52 \<le> b" using year_start_less [OF \<open>y < z\<close>] by linarith
  ultimately show ?thesis by simp
qed

text \<open>The ISO year is the one whose weeks the day falls into, and the ISO week counts from its first Monday.\<close>

lemma isocalendar_spec:
  assumes "1 \<le> d" "isocalendar d = (y, w)"
  shows "week1_monday y \<le> d \<and> d < week1_monday (y + 1) \<and> week1_monday y + 7 * (w - 1) = monday_of d"
proof -
  let ?y = "year_of d"
  note yr = year_start_year_of [OF assms(1)]
  have steps: "year_start ?y + 365 \<le> year_start (?y + 1)" "year_start (?y + 1) + 365 \<le> year_start (?y + 2)"
    "year_start (?y - 1) + 365 \<le> year_start ?y"
    by (rule year_start_less; simp)+
  have lo: "year_start z - 3 \<le> week1_monday z" and hi: "week1_monday z \<le> year_start z + 3" for z
    by (rule week1_monday_near [of z]; simp)+
  have week: "week1_monday z + 7 * ((d - week1_monday z) div 7) = monday_of d" for z
    by (rule week1_monday_near [of z]) (simp add: week_monday)
  have neg: "(d - week1_monday ?y) div 7 < 0 \<longleftrightarrow> d < week1_monday ?y" by (simp add: pos_imp_zdiv_neg_iff)
  consider (prev) "d < week1_monday ?y" | (succ) "week1_monday ?y \<le> d" "week1_monday (?y + 1) \<le> d"
    | (same) "week1_monday ?y \<le> d" "d < week1_monday (?y + 1)" by linarith
  then show ?thesis
  proof cases
    case prev
    with assms(2) neg have eq: "y = ?y - 1" "w = (d - week1_monday (?y - 1)) div 7 + 1"
      by (auto simp: isocalendar_def Let_def)
    have "week1_monday (?y - 1) \<le> d" using hi [of "?y - 1"] steps yr by linarith
    with prev week [of "?y - 1"] show ?thesis unfolding eq by simp
  next
    case succ
    have "364 \<le> d - week1_monday ?y" using week1_monday_less [of ?y "?y + 1"] succ by simp
    then have "52 \<le> (d - week1_monday ?y) div 7" using zdiv_mono1 [of 364 "d - week1_monday ?y" 7] by simp
    with succ neg assms(2) have eq: "y = ?y + 1" "w = 1" by (simp_all add: isocalendar_def Let_def)
    have "d < week1_monday (?y + 1) + 7" "d < week1_monday (?y + 2)"
      using lo [of "?y + 1"] lo [of "?y + 2"] steps yr by linarith+
    moreover from this succ have "(d - week1_monday (?y + 1)) div 7 = 0" by (intro div_pos_pos_trivial) simp_all
    ultimately show ?thesis using succ week [of "?y + 1"] unfolding eq by (simp add: add.commute)
  next
    case same
    with assms(2) neg have eq: "y = ?y" "w = (d - week1_monday ?y) div 7 + 1" by (auto simp: isocalendar_def Let_def)
    with same week [of ?y] show ?thesis unfolding eq by simp
  qed
qed

lemma isocalendar_monday:
  assumes "1 \<le> d" "1 \<le> e" "monday_of d = monday_of e"
  shows "isocalendar d = isocalendar e"
proof -
  obtain y w z v where d: "isocalendar d = (y, w)" and e: "isocalendar e = (z, v)" by force
  note D = isocalendar_spec [OF assms(1) d] and E = isocalendar_spec [OF assms(2) e]
  have le: "week1_monday u \<le> d \<longleftrightarrow> week1_monday u \<le> e" for u
  proof -
    obtain a where "week1_monday u = 7 * a + 1" by (rule week1_monday_near)
    then show ?thesis using monday_le_iff [of a d] monday_le_iff [of a e] assms(3) by simp
  qed
  have mono: "u \<le> u' \<Longrightarrow> week1_monday u \<le> week1_monday u'" for u u'
    using week1_monday_less [of u u'] by (cases "u = u'") auto
  have "\<not> y < z" using D E le [of z] mono [of "y + 1" z] by auto
  moreover have "\<not> z < y" using D E le [of y] mono [of "z + 1" y] by auto
  ultimately have "y = z" by simp
  with D E assms(3) d e show ?thesis by simp
qed

section \<open>Periods\<close>

text \<open>The four bucket keys of an instant; only their equality matters.\<close>

definition day_key :: "utc \<Rightarrow> int \<times> nat \<times> int" where
  "day_key t = (let d = ordinal t in (year_of d, month_of d, day_of d))"

definition week_key :: "utc \<Rightarrow> int \<times> int" where
  "week_key t = isocalendar (ordinal t)"

definition month_key :: "utc \<Rightarrow> int \<times> nat" where
  "month_key t = (let d = ordinal t in (year_of d, month_of d))"

definition year_key :: "utc \<Rightarrow> int" where
  "year_key t = year_of (ordinal t)"

text \<open>A period of a key is an interval: an instant between two of the same period belongs to it.\<close>

locale period =
  fixes key :: "utc \<Rightarrow> 'k"
  assumes convex: "DATETIME_MIN \<le> t \<Longrightarrow> t \<le> u \<Longrightarrow> u \<le> v \<Longrightarrow> key t = key v \<Longrightarrow> key u = key t"

lemma DAY_pos: "0 < DAY"
  by (simp add: DAY_def HOUR_def SECOND_def)

lemma ordinal_mono: "t \<le> u \<Longrightarrow> ordinal t \<le> ordinal u"
  using DAY_pos by (simp add: ordinal_def zdiv_mono1)

lemma ordinal_pos: "DATETIME_MIN \<le> t \<Longrightarrow> 1 \<le> ordinal t"
  using ordinal_mono [of DATETIME_MIN t] DAY_pos by (simp add: ordinal_def DATETIME_MIN_def)

lemma year_convex: "1 \<le> d \<Longrightarrow> d \<le> e \<Longrightarrow> e \<le> f \<Longrightarrow> year_of d = year_of f \<Longrightarrow> year_of e = year_of d"
  using year_of_mono [of d e] year_of_mono [of e f] by simp

lemma month_mono:
  assumes "d \<le> e" "year_of d = year_of e"
  shows "month_of d \<le> month_of e"
proof -
  have len: "length (filter p xs) \<le> length (filter q xs)" if "\<And>m. p m \<Longrightarrow> q m" for p q and xs :: "nat list"
    using that by (induction xs) auto
  show ?thesis unfolding month_of_def assms(2) by (intro add_left_mono len) (rule order_trans [OF _ assms(1)])
qed

interpretation year: period year_key
  by unfold_locales (unfold year_key_def, rule year_convex [OF ordinal_pos ordinal_mono ordinal_mono])

interpretation month: period month_key
proof unfold_locales
  fix t u v assume *: "DATETIME_MIN \<le> t" "t \<le> u" "u \<le> v" "month_key t = month_key v"
  let ?d = "ordinal t" and ?e = "ordinal u" and ?f = "ordinal v"
  have d: "1 \<le> ?d" "?d \<le> ?e" "?e \<le> ?f" using * ordinal_pos ordinal_mono by auto
  have y: "year_of ?d = year_of ?f" "month_of ?d = month_of ?f" using *(4) by (simp_all add: month_key_def Let_def)
  have e: "year_of ?e = year_of ?d" using year_convex [OF d] y by simp
  with y d month_mono [of ?d ?e] month_mono [of ?e ?f] show "month_key u = month_key t"
    by (simp add: month_key_def Let_def)
qed

interpretation week: period week_key
proof unfold_locales
  fix t u v assume *: "DATETIME_MIN \<le> t" "t \<le> u" "u \<le> v" "week_key t = week_key v"
  let ?d = "ordinal t" and ?e = "ordinal u" and ?f = "ordinal v"
  have d: "1 \<le> ?d" "?d \<le> ?e" "?e \<le> ?f" using * ordinal_pos ordinal_mono by auto
  obtain y w where iso: "isocalendar ?d = (y, w)" "isocalendar ?f = (y, w)"
    using *(4) by (cases "isocalendar ?d") (simp add: week_key_def)
  have "monday_of ?d = monday_of ?f"
    using isocalendar_spec [OF d(1) iso(1)] isocalendar_spec [OF _ iso(2)] d by simp
  then have "monday_of ?e = monday_of ?d" using monday_of_mono d by (metis order.antisym)
  then show "week_key u = week_key t" using isocalendar_monday [of ?e ?d] d by (simp add: week_key_def)
qed

interpretation day: period day_key
proof unfold_locales
  fix t u v assume *: "DATETIME_MIN \<le> t" "t \<le> u" "u \<le> v" "day_key t = day_key v"
  have "ordinal t = ordinal v" using *(4) by (auto simp: day_key_def Let_def day_of_def)
  then have "ordinal u = ordinal t" using * ordinal_mono [of t u] ordinal_mono [of u v] by simp
  then show "day_key u = day_key t" by (simp add: day_key_def)
qed

text \<open>Monday, December 30, 2024 opens the first ISO week of 2025; January 3, 2021 closes week 53 of 2020.\<close>

lemma calendar_examples:
  "day_key 1735516800000000 = (2024, 12, 30)" "week_key 1735516800000000 = (2025, 1)"
  "week_key 1609632000000000 = (2020, 53)" "month_key 1709164800000000 = (2024, 2)" "day_key DATETIME_MIN = (1, 1, 1)"
  by code_simp+

end
