(* ===== verification/Retention_Keep.thy ===== *)
theory Retention_Keep
  imports Work_Rows Calendar "HOL-Library.AList"
begin

text \<open>
  The keep sets of the retention pass (\<open>shared/retention_cleanup.py\<close>, the selectors): which snapshots of
  a resource its SLA policy protects. FLAT keeps a window of days, GFS the best snapshot of the last
  days, weeks, months and years, and archived resources have modes of their own; on top of every mode
  come the newest usable rows and the anchors later deltas resolve against.

  Timestamps are microseconds; a naive datetime column is the UTC instant it denotes. One call reads
  the clock once (\<open>now\<close>). A keep set is a set of snapshot ids. \<open>max\<close> over an empty pool raises in
  Python and never happens; the model's \<open>py_max\<close> is an option instead.
\<close>

section \<open>Policy\<close>

record retention_policy = sla_policy +
  rp_is_default :: bool
  rp_retention_days :: "int option"
  rp_hot_days :: int
  rp_cool_days :: int
  rp_archive_days :: "int option"
  rp_legal_hold_enabled :: bool
  rp_legal_hold_until :: "utc option"
  rp_immutability_mode :: string
  rp_retention_mode :: string
  rp_gfs_daily :: "int option"
  rp_gfs_weekly :: "int option"
  rp_gfs_monthly :: "int option"
  rp_gfs_yearly :: "int option"
  rp_archived_mode :: string
  rp_archived_days :: "int option"

text \<open>\<open>(mode or default).upper()\<close>\<close>

definition mode_or :: "string \<Rightarrow> string \<Rightarrow> string" where
  "mode_or dflt mode = py_upper (if mode = [] then dflt else mode)"

definition is_on_hold :: "utc \<Rightarrow> 'a retention_policy_scheme \<Rightarrow> bool" where
  "is_on_hold now p \<longleftrightarrow>
     rp_legal_hold_enabled p \<and> (case rp_legal_hold_until p of None \<Rightarrow> True | Some t \<Rightarrow> now < t) \<or>
     py_lower (rp_immutability_mode p) = ''locked''"

text \<open>\<open>datetime.utcnow() - timedelta(days=n)\<close> raises outside the range of \<open>timedelta\<close> or \<open>datetime\<close>.\<close>

definition days_before :: "utc \<Rightarrow> int \<Rightarrow> utc result" where
  "days_before now n =
     (let t = now - n * DAY
      in if 999999999 < \<bar>n\<bar> \<or> t < DATETIME_MIN \<or> DATETIME_END \<le> t then Inl (LibraryError ''OverflowError'') else Inr t)"

section \<open>What a snapshot holds\<close>

definition snap_ts :: "snap_row \<Rightarrow> utc" where
  "snap_ts s = (case sn_started_at s of Some t \<Rightarrow> t | None \<Rightarrow> (case sn_created_at s of Some t \<Rightarrow> t | None \<Rightarrow> DATETIME_MIN))"

definition snap_ts_or :: "utc \<Rightarrow> snap_row \<Rightarrow> utc" where
  "snap_ts_or now s = (case sn_started_at s of Some t \<Rightarrow> t | None \<Rightarrow> (case sn_created_at s of Some t \<Rightarrow> t | None \<Rightarrow> now))"

definition terminal_status :: "snapshot_status \<Rightarrow> bool" where
  "terminal_status st \<longleftrightarrow> st \<in> {S_COMPLETED, S_FAILED, S_PARTIAL, S_PENDING_DELETION, S_SKIPPED}"

definition restorable_status :: "snapshot_status \<Rightarrow> bool" where
  "restorable_status st \<longleftrightarrow> st \<in> {S_COMPLETED, S_PARTIAL}"

definition extra_truthy :: "string \<Rightarrow> snap_row \<Rightarrow> bool" where
  "extra_truthy k s = (case Option.bind (sn_extra s) (\<lambda>m. m k) of None \<Rightarrow> False | Some v \<Rightarrow> json_truthy v)"

definition holds_persisted_content :: "snap_row \<Rightarrow> bool" where
  "holds_persisted_content s \<longleftrightarrow> 0 < or_zero (sn_item_count s) \<or> 0 < or_zero (sn_bytes_total s)"

definition is_rehydrated_heir :: "snap_row \<Rightarrow> bool" where
  "is_rehydrated_heir s = extra_truthy ''reuse_rehydrated_from'' s"

definition holds_recoverable_data :: "snap_row \<Rightarrow> bool" where
  "holds_recoverable_data s =
     (if extra_truthy ''skipped_concurrent'' s then False
      else if w_status s = S_PENDING_DELETION then False
      else if holds_persisted_content s then True
      else if is_rehydrated_heir s then True
      else if \<not> restorable_status (w_status s) then False
      else (case sn_item_count s of
              None \<Rightarrow> True
            | Some n \<Rightarrow> if n \<le> 0 then sn_reuse_root s \<noteq> None \<or> sn_overlay_base s \<noteq> None else True))"

definition restore_rank :: "snap_row \<Rightarrow> nat" where
  "restore_rank s =
     (if \<not> restorable_status (w_status s) then 1 else if w_status s = S_COMPLETED then 3 else 2)"

text \<open>\<open>_is_protected_in_flight\<close>, at the time \<open>now\<close>\<close>

definition is_protected_in_flight :: "utc \<Rightarrow> snap_row \<Rightarrow> bool" where
  "is_protected_in_flight now s \<longleftrightarrow>
     \<not> terminal_status (w_status s) \<or>
     (case sn_hc_drain s of None \<Rightarrow> False | Some d \<Rightarrow> d = ''PENDING'') \<or>
     (case w_expires s of None \<Rightarrow> False | Some t \<Rightarrow> now < t)"

section \<open>Newest rows\<close>

text \<open>\<open>max(pool, key=f)\<close>: the first of the greatest.\<close>

definition py_max :: "('a \<Rightarrow> 'b :: linorder) \<Rightarrow> 'a list \<Rightarrow> 'a option" where
  "py_max f xs = (case xs of [] \<Rightarrow> None | x # ys \<Rightarrow> Some (foldl (\<lambda>m y. if f m < f y then y else m) x ys))"

definition max_id :: "(snap_row \<Rightarrow> int) \<Rightarrow> snap_row list \<Rightarrow> string set" where
  "max_id f ss = set_option (map_option w_id (py_max f ss))"

definition latest_restorable_id :: "snap_row list \<Rightarrow> string set" where
  "latest_restorable_id ss =
     (let completed = filter (\<lambda>s. w_status s = S_COMPLETED) ss
      in max_id snap_ts (if completed = [] then ss else completed))"

definition bucket_candidates :: "snap_row list \<Rightarrow> snap_row list" where
  "bucket_candidates ss = (let real = filter holds_recoverable_data ss in if real = [] then ss else real)"

definition latest_ids :: "snap_row list \<Rightarrow> string set" where
  "latest_ids ss =
     (let candidates = bucket_candidates ss;
          restorable = filter (\<lambda>s. restorable_status (w_status s)) candidates
      in max_id snap_ts ss \<union> max_id snap_ts candidates
         \<union> max_id snap_ts (if restorable = [] then candidates else restorable) \<union> latest_restorable_id ss)"

section \<open>Anchors\<close>

definition full_anchor_ids :: "snap_row list \<Rightarrow> string set" where
  "full_anchor_ids ss = max_id snap_ts (filter (\<lambda>s. holds_recoverable_data s \<and> sn_type s = T_FULL) ss)"

definition baseline_keep_ids :: "snap_row list \<Rightarrow> string set" where
  "baseline_keep_ids ss =
     (case sort_key snap_ts (filter holds_recoverable_data ss) of
        [] \<Rightarrow> {}
      | oldest # later \<Rightarrow>
          let real = oldest # later
          in {w_id oldest} \<union> max_id (\<lambda>s. or_zero (sn_item_count s)) real \<union> max_id (\<lambda>s. or_zero (sn_bytes_total s)) real
             \<union> full_anchor_ids ss)"

section \<open>Selectors\<close>

text \<open>The loop of \<open>_pick_bucket_winners\<close>; \<open>ws\<close> is the dictionary of winners in insertion order.\<close>

fun pick_loop :: "(snap_row \<Rightarrow> 'k) \<Rightarrow> int \<Rightarrow> ('k \<times> snap_row) list \<Rightarrow> snap_row list \<Rightarrow> ('k \<times> snap_row) list" where
  "pick_loop key n ws [] = ws"
| "pick_loop key n ws (s # ss) =
     (case map_of ws (key s) of
        None \<Rightarrow> if n \<le> int (length ws) then ws else pick_loop key n (ws @ [(key s, s)]) ss
      | Some current \<Rightarrow>
          pick_loop key n (if restore_rank current < restore_rank s then AList.update (key s) s ws else ws) ss)"

definition pick_bucket_winners :: "snap_row list \<Rightarrow> (snap_row \<Rightarrow> 'k) \<Rightarrow> int \<Rightarrow> string set" where
  "pick_bucket_winners ss key n = (if n \<le> 0 then {} else w_id ` snd ` set (pick_loop key n [] ss))"

text \<open>\<open>sorted(..., reverse=True)\<close> keeps the order of equal keys, as a sort by the negated key does.\<close>

definition newest_first :: "snap_row list \<Rightarrow> snap_row list" where
  "newest_first ss = sort_key (\<lambda>s. - snap_ts s) ss"

definition gfs_keep_ids_inner :: "'a retention_policy_scheme \<Rightarrow> snap_row list \<Rightarrow> string set" where
  "gfs_keep_ids_inner p ss =
     (if ss = [] then {}
      else
        let sorted_snaps = newest_first (bucket_candidates ss)
        in latest_ids ss
           \<union> pick_bucket_winners sorted_snaps (\<lambda>s. day_key (snap_ts s)) (or_zero (rp_gfs_daily p))
           \<union> pick_bucket_winners sorted_snaps (\<lambda>s. week_key (snap_ts s)) (or_zero (rp_gfs_weekly p))
           \<union> pick_bucket_winners sorted_snaps (\<lambda>s. month_key (snap_ts s)) (or_zero (rp_gfs_monthly p))
           \<union> pick_bucket_winners sorted_snaps (\<lambda>s. year_key (snap_ts s)) (or_zero (rp_gfs_yearly p)))"

definition gfs_keep_ids :: "'a retention_policy_scheme \<Rightarrow> snap_row list \<Rightarrow> string set" where
  "gfs_keep_ids p ss = gfs_keep_ids_inner p ss \<union> full_anchor_ids ss"

text \<open>The ids of the rows at or after a cutoff, and the safety net.\<close>

definition keep_since :: "utc \<Rightarrow> utc \<Rightarrow> snap_row list \<Rightarrow> string set" where
  "keep_since now cutoff ss = w_id ` {s \<in> set ss. cutoff \<le> snap_ts_or now s} \<union> latest_ids ss"

definition flat_keep_days :: "'a retention_policy_scheme \<Rightarrow> int option" where
  "flat_keep_days p =
     (if or_zero (rp_retention_days p) \<noteq> 0 then rp_retention_days p
      else map_option (\<lambda>archive. rp_hot_days p + rp_cool_days p + archive) (rp_archive_days p))"

definition flat_keep_ids_inner :: "utc \<Rightarrow> 'a retention_policy_scheme \<Rightarrow> snap_row list \<Rightarrow> string set result" where
  "flat_keep_ids_inner now p ss =
     (if ss = [] then Inr {}
      else (case flat_keep_days p of
              None \<Rightarrow> Inr (w_id ` set ss)
            | Some keep_days \<Rightarrow>
                if keep_days \<le> 0 then Inr (w_id ` set ss)
                else bindE (days_before now keep_days) (\<lambda>cutoff. Inr (keep_since now cutoff ss))))"

definition flat_keep_ids :: "utc \<Rightarrow> 'a retention_policy_scheme \<Rightarrow> snap_row list \<Rightarrow> string set result" where
  "flat_keep_ids now p ss = bindE (flat_keep_ids_inner now p ss) (\<lambda>keep. Inr (keep \<union> full_anchor_ids ss))"

text \<open>\<open>None\<close> is the SAME sentinel: the caller applies the normal retention.\<close>

definition archived_keep_ids_inner :: "utc \<Rightarrow> 'a retention_policy_scheme \<Rightarrow> snap_row list \<Rightarrow> string set option result" where
  "archived_keep_ids_inner now p ss =
     (if ss = [] then Inr (Some {})
      else
        let mode = mode_or ''SAME'' (rp_archived_mode p)
        in if mode = ''KEEP_ALL'' then Inr (Some (w_id ` set ss))
           else if mode = ''KEEP_LAST'' then Inr (Some (latest_ids ss))
           else if mode = ''CUSTOM''
           then (case rp_archived_days p of
                   None \<Rightarrow> Inr (Some (w_id ` set ss))
                 | Some days \<Rightarrow> bindE (days_before now days) (\<lambda>cutoff. Inr (Some (keep_since now cutoff ss))))
           else Inr None)"

definition archived_keep_ids :: "utc \<Rightarrow> 'a retention_policy_scheme \<Rightarrow> snap_row list \<Rightarrow> string set option result" where
  "archived_keep_ids now p ss =
     bindE (archived_keep_ids_inner now p ss) (\<lambda>keep. Inr (map_option (\<lambda>k. k \<union> baseline_keep_ids ss) keep))"

text \<open>The keep set of one resource, as \<open>enforce_retention_for_tenant\<close> computes it.\<close>

definition live_keep_ids :: "utc \<Rightarrow> 'a retention_policy_scheme \<Rightarrow> snap_row list \<Rightarrow> string set result" where
  "live_keep_ids now p ss =
     bindE (if mode_or ''FLAT'' (rp_retention_mode p) = ''GFS'' then Inr (gfs_keep_ids p ss) else flat_keep_ids now p ss)
       (\<lambda>keep. Inr (keep \<union> baseline_keep_ids ss))"

definition resource_keep_ids :: "utc \<Rightarrow> bool \<Rightarrow> 'a retention_policy_scheme \<Rightarrow> snap_row list \<Rightarrow> string set result" where
  "resource_keep_ids now archived p ss =
     bindE (if archived then archived_keep_ids now p ss else Inr None)
       (\<lambda>keep. case keep of Some k \<Rightarrow> Inr k | None \<Rightarrow> live_keep_ids now p ss)"

section \<open>Maxima\<close>

lemma foldl_max:
  "\<exists>m. foldl (\<lambda>m y. if f m < f y then y else m) x ys = m \<and> m \<in> set (x # ys) \<and> (\<forall>y \<in> set (x # ys). f y \<le> (f m :: 'b :: linorder))"
proof (induction ys arbitrary: x)
  case (Cons y ys)
  define x' where "x' = (if f x < f y then y else x)"
  obtain m where m: "foldl (\<lambda>m y. if f m < f y then y else m) x' ys = m" "m \<in> set (x' # ys)"
    "\<forall>z \<in> set (x' # ys). f z \<le> f m" using Cons.IH [of x'] by blast
  have "f x \<le> f x'" "f y \<le> f x'" "x' = x \<or> x' = y" by (auto simp: x'_def)
  moreover have "f x' \<le> f m" using m(3) by simp
  ultimately show ?case using m by (auto simp: x'_def [symmetric] dest: order_trans)
qed simp

lemma py_max_spec: "py_max f xs = Some m \<Longrightarrow> m \<in> set xs \<and> (\<forall>x \<in> set xs. f x \<le> f m)"
  using foldl_max [of f] by (cases xs) (fastforce simp: py_max_def)+

lemma py_max_None [simp]: "py_max f xs = None \<longleftrightarrow> xs = []"
  by (cases xs) (auto simp: py_max_def)

text \<open>A greatest row of the pool has its id in the set.\<close>

definition keeps_max :: "(snap_row \<Rightarrow> int) \<Rightarrow> snap_row list \<Rightarrow> string set \<Rightarrow> bool" where
  "keeps_max f pool keep \<longleftrightarrow> pool \<noteq> [] \<longrightarrow> (\<exists>m \<in> set pool. w_id m \<in> keep \<and> (\<forall>s \<in> set pool. f s \<le> f m))"

lemma keeps_max_id: "max_id f pool \<subseteq> keep \<Longrightarrow> keeps_max f pool keep"
  unfolding keeps_max_def max_id_def by (cases "py_max f pool") (auto dest!: py_max_spec)

lemma keeps_max_all: "w_id ` set pool \<subseteq> keep \<Longrightarrow> keeps_max f pool keep"
  using keeps_max_id [of f pool keep] py_max_spec [of f pool] by (force simp: max_id_def)

lemma keeps_max_mono: "keeps_max f pool keep \<Longrightarrow> keep \<subseteq> keep' \<Longrightarrow> keeps_max f pool keep'"
  unfolding keeps_max_def by blast

section \<open>Every mode protects the newest rows and the anchors\<close>

lemma max_id_subset: "max_id f ss \<subseteq> w_id ` set ss"
  by (cases "py_max f ss") (auto simp: max_id_def dest!: py_max_spec)

lemma max_id_mono: "set ss \<subseteq> set ts \<Longrightarrow> max_id f ss \<subseteq> w_id ` set ts"
  by (rule order_trans [OF max_id_subset image_mono])

lemma set_bucket_candidates: "set (bucket_candidates ss) \<subseteq> set ss"
  by (auto simp: bucket_candidates_def Let_def)

lemma latest_ids_subset: "latest_ids ss \<subseteq> w_id ` set ss"
  unfolding latest_ids_def latest_restorable_id_def Let_def
  by (intro Un_least max_id_mono) (use set_bucket_candidates in auto)

lemma baseline_keep_ids_subset: "baseline_keep_ids ss \<subseteq> w_id ` set ss"
proof (cases "sort_key snap_ts (filter holds_recoverable_data ss)")
  case (Cons oldest later)
  then have real: "set (oldest # later) \<subseteq> set ss" by (metis filter_is_subset set_sort)
  have "max_id f (oldest # later) \<subseteq> w_id ` set ss" for f by (rule max_id_mono [OF real])
  moreover have "full_anchor_ids ss \<subseteq> w_id ` set ss" unfolding full_anchor_ids_def by (rule max_id_mono) auto
  ultimately show ?thesis using Cons real by (simp add: baseline_keep_ids_def Let_def)
qed (simp add: baseline_keep_ids_def)

lemma bindE_InrE: "bindE r f = Inr y \<Longrightarrow> (\<And>x. r = Inr x \<Longrightarrow> f x = Inr y \<Longrightarrow> thesis) \<Longrightarrow> thesis"
  by (cases r) (auto simp: bindE_def)

lemma keep_since_bounds:
  "x \<in> latest_ids ss \<Longrightarrow> x \<in> keep_since now cutoff ss" "x \<in> keep_since now cutoff ss \<Longrightarrow> x \<in> w_id ` set ss"
  using latest_ids_subset [of ss] by (auto simp: keep_since_def)

lemma flat_keep_bounds:
  assumes "flat_keep_ids_inner now p ss = Inr keep"
  shows "latest_ids ss \<subseteq> keep \<and> keep \<subseteq> w_id ` set ss"
  using assms latest_ids_subset [of ss]
  by (auto simp: flat_keep_ids_inner_def intro: keep_since_bounds elim!: bindE_InrE split: if_splits option.splits)

lemma set_update_snd: "snd ` set (AList.update k s ws) \<subseteq> insert s (snd ` set ws)"
  by (induction ws) auto

lemma pick_loop_set: "snd ` set (pick_loop key n ws ss) \<subseteq> snd ` set ws \<union> set ss"
proof (induction ss arbitrary: ws)
  case (Cons s ss)
  have 1: "snd ` set (pick_loop key n (ws @ [(key s, s)]) ss) \<subseteq> snd ` set ws \<union> set (s # ss)"
    using Cons.IH [of "ws @ [(key s, s)]"] by auto
  have 2: "snd ` set (pick_loop key n (AList.update (key s) s ws) ss) \<subseteq> snd ` set ws \<union> set (s # ss)"
    using Cons.IH [of "AList.update (key s) s ws"] set_update_snd [of "key s" s ws] by auto
  have 3: "snd ` set (pick_loop key n ws ss) \<subseteq> snd ` set ws \<union> set (s # ss)"
    using Cons.IH [of ws] by auto
  show ?case using 1 2 3 by (cases "map_of ws (key s)") auto
qed simp

lemma winners_subset: "pick_bucket_winners (newest_first (bucket_candidates ss)) key n \<subseteq> w_id ` set ss"
proof -
  have "snd ` set (pick_loop key n [] (newest_first (bucket_candidates ss))) \<subseteq> set ss"
    using pick_loop_set [of key n "[]" "newest_first (bucket_candidates ss)"] set_bucket_candidates [of ss]
    by (simp add: newest_first_def)
  then show ?thesis by (auto simp: pick_bucket_winners_def)
qed

lemma gfs_keep_bounds: "ss \<noteq> [] \<Longrightarrow> latest_ids ss \<subseteq> gfs_keep_ids_inner p ss \<and> gfs_keep_ids_inner p ss \<subseteq> w_id ` set ss"
  unfolding gfs_keep_ids_inner_def Let_def
  using latest_ids_subset [of ss] by (simp add: winners_subset) blast

lemma full_anchor_subset: "full_anchor_ids ss \<subseteq> w_id ` set ss"
  unfolding full_anchor_ids_def by (rule max_id_mono) auto

text \<open>Whatever the mode, the newest rows and the anchors are kept, and only rows of the resource are.\<close>

lemma keep_bounds:
  assumes "ss \<noteq> []" "resource_keep_ids now archived p ss = Inr keep"
  shows "latest_ids ss \<union> baseline_keep_ids ss \<subseteq> keep" "keep \<subseteq> w_id ` set ss"
proof -
  have live: "latest_ids ss \<union> baseline_keep_ids ss \<subseteq> k \<and> k \<subseteq> w_id ` set ss" if "live_keep_ids now p ss = Inr k" for k
    using that gfs_keep_bounds [OF assms(1), of p] flat_keep_bounds [of now p ss] full_anchor_subset [of ss]
      baseline_keep_ids_subset [of ss]
    by (auto simp: live_keep_ids_def gfs_keep_ids_def flat_keep_ids_def elim!: bindE_InrE split: if_splits)
  have arch: "latest_ids ss \<union> baseline_keep_ids ss \<subseteq> k \<and> k \<subseteq> w_id ` set ss" if "archived_keep_ids now p ss = Inr (Some k)" for k
    using that latest_ids_subset [of ss] baseline_keep_ids_subset [of ss] assms(1)
    by (auto simp: archived_keep_ids_def archived_keep_ids_inner_def Let_def intro: keep_since_bounds elim!: bindE_InrE split: if_splits option.splits)
  from assms(2) live arch show "latest_ids ss \<union> baseline_keep_ids ss \<subseteq> keep" "keep \<subseteq> w_id ` set ss"
    unfolding resource_keep_ids_def by (auto elim!: bindE_InrE split: if_splits option.splits)
qed

lemma keeps_max_Nil [simp]: "keeps_max f [] keep"
  by (simp add: keeps_max_def)

lemma keeps_maxD:
  assumes "keeps_max f pool keep" "x \<in> set pool" "\<forall>y \<in> set pool. y = x \<or> f y < f x"
  shows "w_id x \<in> keep"
proof -
  obtain m where "m \<in> set pool" "w_id m \<in> keep" "f x \<le> f m" using assms(1,2) by (auto simp: keeps_max_def)
  with assms(3) show ?thesis by fastforce
qed

lemma latest_keeps:
  assumes "latest_ids ss \<subseteq> keep"
  shows "keeps_max snap_ts ss keep" "keeps_max snap_ts (filter (\<lambda>s. w_status s = S_COMPLETED) ss) keep"
    "keeps_max snap_ts (filter holds_recoverable_data ss) keep"
    "keeps_max snap_ts (filter (\<lambda>s. holds_recoverable_data s \<and> restorable_status (w_status s)) ss) keep"
proof -
  note sub = assms [unfolded latest_ids_def latest_restorable_id_def Let_def]
  let ?real = "filter holds_recoverable_data ss"
  show "keeps_max snap_ts ss keep" using sub by (intro keeps_max_id) auto
  show "keeps_max snap_ts (filter (\<lambda>s. w_status s = S_COMPLETED) ss) keep"
    using sub by (cases "filter (\<lambda>s. w_status s = S_COMPLETED) ss = []") (simp, intro keeps_max_id, simp)
  show "keeps_max snap_ts ?real keep"
    using sub by (cases "?real = []") (simp, intro keeps_max_id, simp add: bucket_candidates_def)
  show "keeps_max snap_ts (filter (\<lambda>s. holds_recoverable_data s \<and> restorable_status (w_status s)) ss) keep" (is "keeps_max _ ?both _")
  proof (cases "?both = []")
    case False
    then have "?real \<noteq> []" by (auto simp: filter_empty_conv)
    then have "filter (\<lambda>s. restorable_status (w_status s)) (bucket_candidates ss) = ?both"
      by (simp add: bucket_candidates_def Let_def conj_commute)
    with False sub show ?thesis by (intro keeps_max_id) auto
  qed (simp add: keeps_max_def)
qed

lemma baseline_keeps:
  assumes "baseline_keep_ids ss \<subseteq> keep"
  shows "keeps_max (\<lambda>s. - snap_ts s) (filter holds_recoverable_data ss) keep"
    "keeps_max (\<lambda>s. or_zero (sn_item_count s)) (filter holds_recoverable_data ss) keep"
    "keeps_max (\<lambda>s. or_zero (sn_bytes_total s)) (filter holds_recoverable_data ss) keep"
    "keeps_max snap_ts (filter (\<lambda>s. holds_recoverable_data s \<and> sn_type s = T_FULL) ss) keep"
proof -
  let ?real = "filter holds_recoverable_data ss"
  have perm: "keeps_max f ?real keep" if "keeps_max f (sort_key snap_ts ?real) keep" for f
    using that unfolding keeps_max_def set_sort by (metis empty_set set_empty set_sort)
  have "keeps_max (\<lambda>s. - snap_ts s) (sort_key snap_ts ?real) keep
      \<and> keeps_max (\<lambda>s. or_zero (sn_item_count s)) (sort_key snap_ts ?real) keep
      \<and> keeps_max (\<lambda>s. or_zero (sn_bytes_total s)) (sort_key snap_ts ?real) keep
      \<and> keeps_max snap_ts (filter (\<lambda>s. holds_recoverable_data s \<and> sn_type s = T_FULL) ss) keep"
  proof (cases "sort_key snap_ts ?real")
    case Nil
    then have "?real = []" by (metis length_0_conv length_sort)
    then have "filter (\<lambda>s. holds_recoverable_data s \<and> sn_type s = T_FULL) ss = []" by (auto simp: filter_empty_conv)
    with Nil show ?thesis by (simp add: keeps_max_def)
  next
    case (Cons oldest later)
    have "sorted (map snap_ts (oldest # later))" using sorted_sort_key [of snap_ts ?real] Cons by simp
    then have "keeps_max (\<lambda>s. - snap_ts s) (oldest # later) keep"
      using assms Cons by (auto simp: keeps_max_def baseline_keep_ids_def Let_def)
    with assms Cons show ?thesis by (auto simp: baseline_keep_ids_def Let_def full_anchor_ids_def intro!: keeps_max_id)
  qed
  with perm show "keeps_max (\<lambda>s. - snap_ts s) ?real keep" "keeps_max (\<lambda>s. or_zero (sn_item_count s)) ?real keep"
    "keeps_max (\<lambda>s. or_zero (sn_bytes_total s)) ?real keep"
    "keeps_max snap_ts (filter (\<lambda>s. holds_recoverable_data s \<and> sn_type s = T_FULL) ss) keep" by blast+
qed

text \<open>
  C8. No retention policy empties a resource or strands its deltas. Whatever the policy, the mode and the
  archive state, when the keep set of a resource is computed it holds only ids of its snapshots, among
  them: the newest snapshot, the newest COMPLETED one, the newest and the newest restorable one that hold
  recoverable data, and of those holding recoverable data the oldest, the largest by item count, the
  largest by bytes and the newest one typed FULL.
\<close>

theorem keep_set_protects:
  assumes "resource_keep_ids now archived p ss = Inr keep" "ss \<noteq> []"
  shows "keep \<subseteq> w_id ` set ss
    \<and> keeps_max snap_ts ss keep
    \<and> keeps_max snap_ts (filter (\<lambda>s. w_status s = S_COMPLETED) ss) keep
    \<and> keeps_max snap_ts (filter holds_recoverable_data ss) keep
    \<and> keeps_max snap_ts (filter (\<lambda>s. holds_recoverable_data s \<and> restorable_status (w_status s)) ss) keep
    \<and> keeps_max (\<lambda>s. - snap_ts s) (filter holds_recoverable_data ss) keep
    \<and> keeps_max (\<lambda>s. or_zero (sn_item_count s)) (filter holds_recoverable_data ss) keep
    \<and> keeps_max (\<lambda>s. or_zero (sn_bytes_total s)) (filter holds_recoverable_data ss) keep
    \<and> keeps_max snap_ts (filter (\<lambda>s. holds_recoverable_data s \<and> sn_type s = T_FULL) ss) keep"
  using keep_bounds [OF assms(2,1)] by (simp add: latest_keeps baseline_keeps)

definition sample_retention :: "string \<Rightarrow> int option \<Rightarrow> retention_policy" where
  "sample_retention mode days =
     \<lparr>p_id = ''gold'', p_tenant_id = ''t1'', p_name = ''Gold'', p_enabled = True, p_frequency = Some ''DAILY'', p_backup_days = None,
      p_backup_window_start = None, p_backup_window_end = None, p_max_concurrent_backups = None, p_sla_violation_alert = False,
      p_created_at = None, p_flags = (\<lambda>_. None), rp_is_default = True, rp_retention_days = days, rp_hot_days = 7,
      rp_cool_days = 30, rp_archive_days = None, rp_legal_hold_enabled = False, rp_legal_hold_until = None,
      rp_immutability_mode = ''None'', rp_retention_mode = mode, rp_gfs_daily = Some 2, rp_gfs_weekly = None,
      rp_gfs_monthly = None, rp_gfs_yearly = None, rp_archived_mode = ''SAME'', rp_archived_days = None\<rparr>"

definition sample_point :: "string \<Rightarrow> int \<Rightarrow> snapshot_status \<Rightarrow> int \<Rightarrow> snap_row" where
  "sample_point sid day st items =
     \<lparr>w_id = sid, w_status = st, w_owner = None, w_expires = None, w_token = 1,
      sn_resource_id = ''r1'', sn_job_id = None, sn_type = T_INCREMENTAL, sn_started_at = Some (day * DAY),
      sn_created_at = Some (day * DAY), sn_completed_at = None, sn_duration_secs = None, sn_item_count = Some items,
      sn_bytes_total = Some 0, sn_extra = None, sn_reuse_of = None, sn_reuse_root = None, sn_overlay_base = None,
      sn_hc_drain = None, sn_delta_token = None, sn_delta_tokens = None\<rparr>"

text \<open>A FLAT window of one day at day 40: the whole history has aged out, the newest run failed empty.\<close>

theorem keep_set_protects_witness:
  "\<exists>keep. resource_keep_ids (40 * DAY) False (sample_retention ''FLAT'' (Some 1))
     [sample_point ''a'' 1 S_COMPLETED 9, sample_point ''b'' 2 S_COMPLETED 3, sample_point ''c'' 3 S_FAILED 0] = Inr keep
     \<and> {''a'', ''b'', ''c''} \<subseteq> keep"
proof -
  let ?ss = "[sample_point ''a'' 1 S_COMPLETED 9, sample_point ''b'' 2 S_COMPLETED 3, sample_point ''c'' 3 S_FAILED 0]"
  have "\<exists>keep. resource_keep_ids (40 * DAY) False (sample_retention ''FLAT'' (Some 1)) ?ss = Inr keep"
    by (simp add: resource_keep_ids_def bindE_def live_keep_ids_def mode_or_def sample_retention_def py_upper_def upper_char_def
        flat_keep_ids_def flat_keep_ids_inner_def flat_keep_days_def or_zero_def days_before_def DATETIME_MIN_def DATETIME_END_def
        EPOCH_ORDINAL_def DAY_def HOUR_def MINUTE_def SECOND_def)
  then obtain keep where keep: "resource_keep_ids (40 * DAY) False (sample_retention ''FLAT'' (Some 1)) ?ss = Inr keep" by blast
  have pools: "filter (\<lambda>s. w_status s = S_COMPLETED) ?ss = [sample_point ''a'' 1 S_COMPLETED 9, sample_point ''b'' 2 S_COMPLETED 3]"
    "filter holds_recoverable_data ?ss = [sample_point ''a'' 1 S_COMPLETED 9, sample_point ''b'' 2 S_COMPLETED 3]"
    by (simp_all add: sample_point_def holds_recoverable_data_def holds_persisted_content_def is_rehydrated_heir_def extra_truthy_def
        or_zero_def restorable_status_def)
  note kept = keep_set_protects [OF keep, simplified pools]
  have ts: "snap_ts (sample_point sid day st n) = day * DAY" "w_id (sample_point sid day st n) = sid" for sid day st n
    by (simp_all add: snap_ts_def sample_point_def)
  have "''a'' \<in> keep" "''b'' \<in> keep" "''c'' \<in> keep"
    using keeps_maxD [OF kept [THEN conjunct2, THEN conjunct2, THEN conjunct2, THEN conjunct2, THEN conjunct2, THEN conjunct1],
        of "sample_point ''a'' 1 S_COMPLETED 9"]
      keeps_maxD [OF kept [THEN conjunct2, THEN conjunct2, THEN conjunct1], of "sample_point ''b'' 2 S_COMPLETED 3"]
      keeps_maxD [OF kept [THEN conjunct2, THEN conjunct1], of "sample_point ''c'' 3 S_FAILED 0"] DAY_pos
    by (auto simp: ts)
  with keep show ?thesis by auto
qed

section \<open>Buckets\<close>

text \<open>\<open>w\<close> is the best of the rows of its period: the highest rank, and the newest among those.\<close>

definition best_of :: "(snap_row \<Rightarrow> 'k) \<Rightarrow> snap_row set \<Rightarrow> snap_row \<Rightarrow> bool" where
  "best_of key S w \<longleftrightarrow>
     w \<in> S \<and> (\<forall>c \<in> S. key c = key w \<longrightarrow> restore_rank c < restore_rank w \<or> restore_rank c = restore_rank w \<and> snap_ts c \<le> snap_ts w)"

text \<open>Every row within the \<open>n\<close> latest periods with rows has the best row of its period in \<open>keep\<close>.\<close>

definition best_per_period :: "(utc \<Rightarrow> 'k) \<Rightarrow> int \<Rightarrow> snap_row list \<Rightarrow> string set \<Rightarrow> bool" where
  "best_per_period key n ss keep \<longleftrightarrow>
     (\<forall>s \<in> set ss.
        int (card ((\<lambda>c. key (snap_ts c)) ` {c \<in> set ss. snap_ts s < snap_ts c \<and> key (snap_ts c) \<noteq> key (snap_ts s)})) < n \<longrightarrow>
        (\<exists>w. best_of (\<lambda>c. key (snap_ts c)) (set ss) w \<and> key (snap_ts w) = key (snap_ts s) \<and> w_id w \<in> keep))"

definition desc :: "snap_row list \<Rightarrow> bool" where
  "desc ss = sorted_wrt (\<lambda>a b. snap_ts b \<le> snap_ts a) ss"

text \<open>The dictionary of winners after the rows \<open>ds\<close>: one best row for each of their periods.\<close>

definition winners_inv :: "(snap_row \<Rightarrow> 'k) \<Rightarrow> snap_row list \<Rightarrow> ('k \<times> snap_row) list \<Rightarrow> bool" where
  "winners_inv key ds ws \<longleftrightarrow>
     distinct (map fst ws) \<and> key ` set ds = fst ` set ws \<and> (\<forall>(k, w) \<in> set ws. key w = k \<and> best_of key (set ds) w)"

lemma winners_inv_new:
  assumes "winners_inv key ds ws" "map_of ws (key s) = None"
  shows "winners_inv key (ds @ [s]) (ws @ [(key s, s)])"
proof -
  have new: "key s \<notin> fst ` set ws" using assms(2) by (simp add: map_of_eq_None_iff)
  then have "\<forall>c \<in> set ds. key c \<noteq> key s" using assms(1) unfolding winners_inv_def by (metis image_eqI)
  then have "best_of key (set (ds @ [s])) s" by (auto simp: best_of_def)
  moreover have "best_of key (set (ds @ [s])) w" if "best_of key (set ds) w" "key w \<noteq> key s" for w
    using that by (auto simp: best_of_def)
  moreover have "\<forall>(k, w) \<in> set ws. key w = k \<and> best_of key (set ds) w" "distinct (map fst ws)" "key ` set ds = fst ` set ws"
    using assms(1) by (simp_all add: winners_inv_def)
  moreover have "k \<noteq> key s" if "(k, w) \<in> set ws" for k w using that new by (metis fst_conv image_eqI)
  ultimately show ?thesis using new by (auto simp: winners_inv_def)
qed

lemma winners_inv_old:
  assumes inv: "winners_inv key ds ws" and cur: "map_of ws (key s) = Some current"
    and older: "\<forall>d \<in> set ds. snap_ts s \<le> snap_ts d"
  shows "winners_inv key (ds @ [s]) (if restore_rank current < restore_rank s then AList.update (key s) s ws else ws)"
proof -
  have mem: "(key s, current) \<in> set ws" using cur by (rule map_of_SomeD)
  then have best: "key current = key s" "best_of key (set ds) current" using inv unfolding winners_inv_def by blast+
  have keys: "key ` set (ds @ [s]) = fst ` set ws" using inv mem imageI [OF mem, of fst] by (simp add: winners_inv_def insert_absorb)
  have dist: "distinct (map fst ws)" using inv by (simp add: winners_inv_def)
  have keyed: "key w = k" "best_of key (set ds) w" if "(k, w) \<in> set ws" for k w
    using that inv unfolding winners_inv_def by blast+
  have other: "best_of key (set (ds @ [s])) w" if "(k, w) \<in> set ws" "k \<noteq> key s" for k w
    using keyed [OF that(1)] that(2) by (auto simp: best_of_def)
  show ?thesis
  proof (cases "restore_rank current < restore_rank s")
    case True
    have s: "best_of key (set (ds @ [s])) s" using best True by (auto simp: best_of_def)
    have "\<forall>(k, w) \<in> set (AList.update (key s) s ws). key w = k \<and> best_of key (set (ds @ [s])) w"
    proof (clarify)
      fix k w assume "(k, w) \<in> set (AList.update (key s) s ws)"
      then have "map_of (AList.update (key s) s ws) k = Some w" using dist by (simp add: distinct_update)
      then have "k = key s \<and> w = s \<or> k \<noteq> key s \<and> map_of ws k = Some w" by (auto simp: update_conv' split: if_splits)
      then show "key w = k \<and> best_of key (set (ds @ [s])) w"
        using s other keyed map_of_SomeD by metis
    qed
    moreover have "fst ` set (AList.update (key s) s ws) = fst ` set ws"
      using cur by (simp add: dom_map_of_conv_image_fst [symmetric] update_conv' insert_absorb domI)
    ultimately show ?thesis using True keys dist by (simp add: winners_inv_def distinct_update)
  next
    case False
    have "best_of key (set (ds @ [s])) current"
      using best False older by (auto simp: best_of_def not_less order_less_le)
    moreover have "(key s, w) \<in> set ws \<Longrightarrow> w = current" for w using mem dist by (metis eq_key_imp_eq_value)
    ultimately have "\<forall>(k, w) \<in> set ws. key w = k \<and> best_of key (set (ds @ [s])) w"
      using other keyed by blast
    with False keys dist show ?thesis by (simp add: winners_inv_def)
  qed
qed

definition dated :: "snap_row list \<Rightarrow> bool" where
  "dated ss \<longleftrightarrow> (\<forall>s \<in> set ss. DATETIME_MIN \<le> snap_ts s)"

lemma desc_append:
  "desc (xs @ ys) \<longleftrightarrow> desc xs \<and> desc ys \<and> (\<forall>x \<in> set xs. \<forall>y \<in> set ys. snap_ts y \<le> snap_ts x)"
  by (simp add: desc_def sorted_wrt_append)

lemma desc_Cons: "desc (x # ys) \<longleftrightarrow> (\<forall>y \<in> set ys. snap_ts y \<le> snap_ts x) \<and> desc ys"
  by (simp add: desc_def)

context period
begin

text \<open>
  When the scan stops at the first row of one period too many, no later row belongs to a period
  already open: periods are intervals and the rows are sorted.
\<close>

lemma stop_best:
  assumes "desc (ds @ s # ss)" "dated (ds @ s # ss)" "best_of (\<lambda>c. key (snap_ts c)) (set ds) w"
    and "key (snap_ts s) \<noteq> key (snap_ts w)"
  shows "best_of (\<lambda>c. key (snap_ts c)) (set (ds @ s # ss)) w"
proof -
  have w: "w \<in> set ds" using assms(3) by (simp add: best_of_def)
  have "key (snap_ts c) \<noteq> key (snap_ts w)" if "c \<in> set ss" for c
  proof
    assume "key (snap_ts c) = key (snap_ts w)"
    moreover have "DATETIME_MIN \<le> snap_ts c" "snap_ts c \<le> snap_ts s" "snap_ts s \<le> snap_ts w"
      using assms(1,2) that w by (auto simp: dated_def desc_append desc_Cons)
    ultimately show False using convex [of "snap_ts c" "snap_ts s" "snap_ts w"] assms(4) by simp
  qed
  with assms(3,4) show ?thesis by (auto simp: best_of_def)
qed

lemma pick_loop_best:
  assumes "desc (ds @ ss)" "dated (ds @ ss)" "winners_inv (\<lambda>c. key (snap_ts c)) ds ws"
    and "R = pick_loop (\<lambda>c. key (snap_ts c)) n ws ss"
  shows "distinct (map fst R) \<and> (\<forall>(k, w) \<in> set R. key (snap_ts w) = k \<and> best_of (\<lambda>c. key (snap_ts c)) (set (ds @ ss)) w) \<and>
    ((\<lambda>c. key (snap_ts c)) ` set (ds @ ss) = fst ` set R \<or>
     n \<le> int (length R) \<and>
     (\<forall>s \<in> set (ds @ ss). key (snap_ts s) \<notin> fst ` set R \<longrightarrow>
        (\<forall>k \<in> fst ` set R. \<exists>d \<in> set (ds @ ss). key (snap_ts d) = k \<and> snap_ts s \<le> snap_ts d)))"
  using assms
proof (induction ss arbitrary: ds ws R)
  case Nil
  then show ?case by (simp add: winners_inv_def)
next
  case (Cons s ss)
  let ?K = "\<lambda>c. key (snap_ts c)"
  have dist: "distinct (map fst ws)" and keys: "?K ` set ds = fst ` set ws"
    and best: "\<forall>(k, w) \<in> set ws. ?K w = k \<and> best_of ?K (set ds) w"
    using Cons.prems(3) by (simp_all add: winners_inv_def)
  have older: "\<forall>d \<in> set ds. snap_ts s \<le> snap_ts d" using Cons.prems(1) by (simp add: desc_append)
  have next_row: ?case if inv: "winners_inv ?K (ds @ [s]) ws'" and R: "R = pick_loop ?K n ws' ss" for ws'
    using Cons.IH [of "ds @ [s]" ws' R] Cons.prems(1,2) inv R by simp
  show ?case
  proof (cases "map_of ws (?K s)")
    case (Some current)
    show ?thesis
      by (rule next_row [OF winners_inv_old [OF Cons.prems(3) Some older]]) (use Cons.prems(4) Some in simp)
  next
    case None
    then have new: "?K s \<notin> fst ` set ws" by (simp add: map_of_eq_None_iff)
    show ?thesis
    proof (cases "n \<le> int (length ws)")
      case False
      show ?thesis
        by (rule next_row [OF winners_inv_new [OF Cons.prems(3) None]]) (use Cons.prems(4) None False in simp)
    next
      case True
      then have R: "R = ws" using Cons.prems(4) None by simp
      have "key (snap_ts w) = k \<and> best_of ?K (set (ds @ s # ss)) w" if "(k, w) \<in> set ws" for k w
      proof -
        have "?K w = k" "best_of ?K (set ds) w" using best that by auto
        moreover have "?K s \<noteq> k" using that new by (metis fst_conv image_eqI)
        ultimately show ?thesis using stop_best [OF Cons.prems(1,2)] by auto
      qed
      moreover have "\<exists>d \<in> set (ds @ s # ss). ?K d = k \<and> snap_ts s' \<le> snap_ts d"
        if s': "s' \<in> set (ds @ s # ss)" "?K s' \<notin> fst ` set ws" and k: "k \<in> fst ` set ws" for s' k
      proof -
        have "s' \<in> set (s # ss)" using s' keys by (metis Un_iff image_eqI set_append)
        moreover obtain d where "d \<in> set ds" "?K d = k" using k keys by (metis imageE)
        ultimately show ?thesis using Cons.prems(1) by (auto simp: desc_append)
      qed
      ultimately show ?thesis using R True dist by blast
    qed
  qed
qed

lemma winners_best:
  assumes "desc ss" "dated ss"
  shows "best_per_period key n ss (pick_bucket_winners ss (\<lambda>c. key (snap_ts c)) n)"
proof (cases "n \<le> 0")
  case True
  then show ?thesis by (auto simp: best_per_period_def)
next
  case False
  let ?K = "\<lambda>c. key (snap_ts c)"
  define R where "R = pick_loop ?K n [] ss"
  have R: "distinct (map fst R)" "\<forall>(k, w) \<in> set R. ?K w = k \<and> best_of ?K (set ss) w"
    "?K ` set ss = fst ` set R \<or> n \<le> int (length R) \<and>
     (\<forall>s \<in> set ss. ?K s \<notin> fst ` set R \<longrightarrow> (\<forall>k \<in> fst ` set R. \<exists>d \<in> set ss. ?K d = k \<and> snap_ts s \<le> snap_ts d))"
    using pick_loop_best [of "[]" ss "[]" R n] assms R_def by (simp_all add: winners_inv_def)
  have "\<exists>w. best_of ?K (set ss) w \<and> ?K w = ?K s \<and> w_id w \<in> pick_bucket_winners ss ?K n"
    if s: "s \<in> set ss" and few: "int (card (?K ` {c \<in> set ss. snap_ts s < snap_ts c \<and> ?K c \<noteq> ?K s})) < n" for s
  proof (cases "?K s \<in> fst ` set R")
    case True
    then obtain w where w: "(?K s, w) \<in> set R" by auto
    then have "w \<in> snd ` set R" by force
    with w R(2) False show ?thesis by (auto simp: pick_bucket_winners_def R_def)
  next
    case notin: False
    then have full: "n \<le> int (length R)" and
      earlier: "\<forall>k \<in> fst ` set R. \<exists>d \<in> set ss. ?K d = k \<and> snap_ts s \<le> snap_ts d" using R(3) s by auto
    have "fst ` set R \<subseteq> ?K ` {c \<in> set ss. snap_ts s < snap_ts c \<and> ?K c \<noteq> ?K s}"
    proof
      fix k assume k: "k \<in> fst ` set R"
      then obtain d where d: "d \<in> set ss" "?K d = k" "snap_ts s \<le> snap_ts d" using earlier by blast
      have "k \<noteq> ?K s" using k notin by blast
      then have "snap_ts s \<noteq> snap_ts d" using d(2) by auto
      with d \<open>k \<noteq> ?K s\<close> show "k \<in> ?K ` {c \<in> set ss. snap_ts s < snap_ts c \<and> ?K c \<noteq> ?K s}"
        by (intro image_eqI [of _ _ d]) auto
    qed
    then have "card (fst ` set R) \<le> card (?K ` {c \<in> set ss. snap_ts s < snap_ts c \<and> ?K c \<noteq> ?K s})"
      by (intro card_mono) auto
    moreover have "card (fst ` set R) = length R" using distinct_card [OF R(1)] by simp
    ultimately show ?thesis using full few by simp
  qed
  then show ?thesis unfolding best_per_period_def by blast
qed

end

lemma newest_first_desc: "desc (newest_first ss)"
proof -
  have "sorted_wrt (\<lambda>a b. - snap_ts a \<le> - snap_ts b) (newest_first ss)"
    using sorted_sort_key [of "\<lambda>s. - snap_ts s" ss] by (simp add: newest_first_def sorted_map)
  then show ?thesis unfolding desc_def by (rule sorted_wrt_mono_rel [rotated]) simp
qed

lemma best_per_period_cong: "set ss = set ts \<Longrightarrow> best_per_period key n ss keep = best_per_period key n ts keep"
  by (simp add: best_per_period_def)

lemma best_per_period_mono: "best_per_period key n ss keep \<Longrightarrow> keep \<subseteq> keep' \<Longrightarrow> best_per_period key n ss keep'"
  unfolding best_per_period_def by blast

context period
begin

lemma winners_kept:
  assumes "dated ss" "pick_bucket_winners (newest_first ss) (\<lambda>c. key (snap_ts c)) n \<subseteq> keep"
  shows "best_per_period key n ss keep"
proof -
  have same: "set (newest_first ss) = set ss" by (simp add: newest_first_def)
  have "dated (newest_first ss)" using assms(1) same by (simp add: dated_def)
  from winners_best [OF newest_first_desc this] assms(2) show ?thesis
    using best_per_period_cong [OF same] best_per_period_mono by blast
qed

end

text \<open>
  C16. The grandfather-father-son rule keeps the best restore point of every period it covers. For a live
  resource under a GFS policy, and the rows eligible for a bucket (those holding recoverable data, or
  all rows when none does): in each of the last \<open>n\<close> calendar days that have such rows, \<open>n\<close> being the daily
  count, one of them is kept that no other row of that day beats by status rank, or by time at the same
  rank; the same holds for ISO weeks, months and years with their counts. So a later failed, empty or
  partial run never displaces a completed one of the same period. The docstring of the routine names fixed
  days instead (Sunday, the 1st, Jan 1); the code has no such preference, and neither has the rule.
\<close>

theorem gfs_keeps_best_per_period:
  assumes "resource_keep_ids now False p ss = Inr keep" "mode_or ''FLAT'' (rp_retention_mode p) = ''GFS''" "dated ss"
  shows "best_per_period day_key (or_zero (rp_gfs_daily p)) (bucket_candidates ss) keep
    \<and> best_per_period week_key (or_zero (rp_gfs_weekly p)) (bucket_candidates ss) keep
    \<and> best_per_period month_key (or_zero (rp_gfs_monthly p)) (bucket_candidates ss) keep
    \<and> best_per_period year_key (or_zero (rp_gfs_yearly p)) (bucket_candidates ss) keep"
proof (cases "ss = []")
  case True
  then show ?thesis by (simp add: best_per_period_def bucket_candidates_def)
next
  case False
  have "gfs_keep_ids_inner p ss \<subseteq> keep"
    using assms(1,2) by (auto simp: resource_keep_ids_def live_keep_ids_def gfs_keep_ids_def bindE_def)
  with False have sub:
    "pick_bucket_winners (newest_first (bucket_candidates ss)) (\<lambda>s. day_key (snap_ts s)) (or_zero (rp_gfs_daily p)) \<subseteq> keep"
    "pick_bucket_winners (newest_first (bucket_candidates ss)) (\<lambda>s. week_key (snap_ts s)) (or_zero (rp_gfs_weekly p)) \<subseteq> keep"
    "pick_bucket_winners (newest_first (bucket_candidates ss)) (\<lambda>s. month_key (snap_ts s)) (or_zero (rp_gfs_monthly p)) \<subseteq> keep"
    "pick_bucket_winners (newest_first (bucket_candidates ss)) (\<lambda>s. year_key (snap_ts s)) (or_zero (rp_gfs_yearly p)) \<subseteq> keep"
    by (auto simp: gfs_keep_ids_inner_def Let_def)
  have "dated (bucket_candidates ss)" using assms(3) set_bucket_candidates [of ss] by (auto simp: dated_def)
  then show ?thesis using sub by (intro conjI day.winners_kept week.winners_kept month.winners_kept year.winners_kept)
qed

text \<open>Two runs on day 5, the later one partial: the completed one is kept for the day.\<close>

theorem gfs_keeps_best_per_period_witness:
  "\<exists>keep. resource_keep_ids (40 * DAY) False (sample_retention ''GFS'' None)
     [sample_point ''a'' 5 S_COMPLETED 9, sample_point ''b'' 5 S_PARTIAL 3] = Inr keep \<and> ''a'' \<in> keep"
proof -
  let ?ss = "[sample_point ''a'' 5 S_COMPLETED 9, sample_point ''b'' 5 S_PARTIAL 3]"
  let ?p = "sample_retention ''GFS'' None"
  have mode: "mode_or ''FLAT'' (rp_retention_mode ?p) = ''GFS''"
    by (simp add: mode_or_def sample_retention_def py_upper_def upper_char_def)
  then obtain keep where keep: "resource_keep_ids (40 * DAY) False ?p ?ss = Inr keep"
    by (simp add: resource_keep_ids_def bindE_def live_keep_ids_def)
  have ts: "snap_ts (sample_point sid day st n) = day * DAY" "w_id (sample_point sid day st n) = sid" for sid day st n
    by (simp_all add: snap_ts_def sample_point_def)
  have rank: "restore_rank (sample_point ''a'' 5 S_COMPLETED 9) = 3" "restore_rank (sample_point ''b'' 5 S_PARTIAL 3) = 2"
    by (simp_all add: restore_rank_def restorable_status_def sample_point_def)
  have cand: "bucket_candidates ?ss = ?ss"
    by (simp add: bucket_candidates_def sample_point_def holds_recoverable_data_def holds_persisted_content_def
        is_rehydrated_heir_def extra_truthy_def or_zero_def)
  have "dated ?ss" using DAY_pos by (simp add: dated_def ts DATETIME_MIN_def EPOCH_ORDINAL_def)
  note best = gfs_keeps_best_per_period [OF keep mode this, THEN conjunct1, unfolded best_per_period_def cand, THEN bspec,
      of "sample_point ''a'' 5 S_COMPLETED 9"]
  have none: "{c \<in> set ?ss. snap_ts (sample_point ''a'' 5 S_COMPLETED 9) < snap_ts c \<and>
      day_key (snap_ts c) \<noteq> day_key (snap_ts (sample_point ''a'' 5 S_COMPLETED 9))} = {}" by (auto simp: ts)
  have "\<exists>w. best_of (\<lambda>c. day_key (snap_ts c)) (set ?ss) w \<and> w_id w \<in> keep"
    using best [unfolded none] by (auto simp: sample_retention_def or_zero_def)
  with rank have "''a'' \<in> keep" by (auto simp: best_of_def ts)
  with keep show ?thesis by blast
qed

end
