(* ===== verification/Work_Guards.thy ===== *)
theory Work_Guards
  imports Work_Rows
begin

text \<open>
  The durable-work guards of \<open>shared/copy_workflow.py\<close> and \<open>shared/provider_work.py\<close>: the SQL
  predicates every claim, sweep and delete statement carries, so that a row whose copy or provider
  continuation is still owed is left alone.

  Each guard is evaluated on the tables it reads (\<open>guard_db\<close>) in the context variables of the process
  (\<open>guard_ctx\<close>: the two enable flags, the claim a resumed continuation runs under, and whether the
  parent is being settled). A guard holds when the row is free. The empty scope raises \<open>ValueError\<close>.
\<close>

section \<open>Tables and context\<close>

record copy_workflow =
  cw_id :: string
  cw_job_id :: string
  cw_target_snapshot_id :: string
  cw_partition_id :: "string option"
  cw_state :: string
  cw_generation :: int
  cw_parent_lease_token :: int
  cw_owner :: "string option"
  cw_settle_pending :: bool

record copy_task =
  ct_id :: string
  ct_workflow_id :: string
  ct_prior_snap_id :: "string option"        \<comment> \<open>\<open>params->>'prior_snap_id'\<close>\<close>
  ct_prior_snapshot_id :: "string option"    \<comment> \<open>\<open>params->>'prior_snapshot_id'\<close>\<close>

record copy_item =
  ci_task_id :: string
  ci_source_snapshot_id :: "string option"

record provider_work =
  pw_id :: string
  pw_snapshot_id :: string
  pw_partition_id :: "string option"
  pw_job_id :: string
  pw_state :: string
  pw_generation :: int
  pw_owner :: "string option"
  pw_expires :: "utc option"
  pw_settle_pending :: bool

record guard_db =
  gd_workflows :: "copy_workflow list"
  gd_tasks :: "copy_task list"
  gd_items :: "copy_item list"
  gd_provider :: "provider_work list"

record resume_claim =
  rc_workflow_id :: string
  rc_owner_id :: string
  rc_generation :: int
  rc_parent_lease_token :: int

record provider_claim =
  pc_work_id :: string
  pc_owner_id :: string
  pc_generation :: int

datatype settling = Not_settling | Settling | Settling_claim provider_claim

record guard_ctx =
  gc_copy_enabled :: bool                    \<comment> \<open>\<open>copy_work_enabled()\<close>\<close>
  gc_copy_active :: bool                     \<comment> \<open>\<open>_COPY_GUARDS_ACTIVE\<close>\<close>
  gc_resuming :: "resume_claim option"       \<comment> \<open>\<open>_RESUMING\<close>\<close>
  gc_parent_settlement :: bool               \<comment> \<open>\<open>_PARENT_SETTLEMENT\<close>\<close>
  gc_provider_enabled :: bool                \<comment> \<open>\<open>provider_work.enabled()\<close>\<close>
  gc_provider_guards :: bool                 \<comment> \<open>\<open>_GUARDS\<close>\<close>
  gc_current :: "provider_claim option"      \<comment> \<open>\<open>_CURRENT\<close>\<close>
  gc_settling :: settling                    \<comment> \<open>\<open>_SETTLING\<close>\<close>
  gc_deferred :: bool                        \<comment> \<open>a current execution that is deferred\<close>

record guard_scope =
  sc_snapshot :: "string option"
  sc_partition :: "string option"
  sc_job :: "string option"

abbreviation snapshot_scope :: "string \<Rightarrow> guard_scope" where
  "snapshot_scope i \<equiv> \<lparr>sc_snapshot = Some i, sc_partition = None, sc_job = None\<rparr>"

abbreviation partition_scope :: "string \<Rightarrow> guard_scope" where
  "partition_scope i \<equiv> \<lparr>sc_snapshot = None, sc_partition = Some i, sc_job = None\<rparr>"

abbreviation job_scope :: "string \<Rightarrow> guard_scope" where
  "job_scope i \<equiv> \<lparr>sc_snapshot = None, sc_partition = None, sc_job = Some i\<rparr>"

section \<open>Provider guard\<close>

definition active_state :: "string \<Rightarrow> bool" where
  "active_state st \<longleftrightarrow> st \<in> {''DRAINING'', ''WAITING'', ''RESUMING''}"

definition provider_guards_enabled :: "guard_ctx \<Rightarrow> bool" where
  "provider_guards_enabled c \<longleftrightarrow>
     gc_provider_guards c \<or> gc_provider_enabled c \<or> gc_current c \<noteq> None \<or>
     (case gc_settling c of Settling_claim _ \<Rightarrow> True | _ \<Rightarrow> False)"

definition guard_claim :: "guard_ctx \<Rightarrow> provider_claim option" where
  "guard_claim c =
     (case gc_settling c of
        Settling_claim k \<Rightarrow> Some k
      | _ \<Rightarrow> if gc_deferred c then None else gc_current c)"

text \<open>\<open>column = value\<close> for every given column; a NULL column matches nothing.\<close>

definition scope_matches :: "guard_scope \<Rightarrow> string \<Rightarrow> string option \<Rightarrow> string \<Rightarrow> bool" where
  "scope_matches sc snap part jb \<longleftrightarrow>
     (case sc_snapshot sc of None \<Rightarrow> True | Some v \<Rightarrow> snap = v) \<and>
     (case sc_partition sc of None \<Rightarrow> True | Some v \<Rightarrow> part = Some v) \<and>
     (case sc_job sc of None \<Rightarrow> True | Some v \<Rightarrow> jb = v)"

definition scope_empty :: "guard_scope \<Rightarrow> bool" where
  "scope_empty sc \<longleftrightarrow> sc_snapshot sc = None \<and> sc_partition sc = None \<and> sc_job sc = None"

definition pending_provider_sql :: "guard_ctx \<Rightarrow> utc \<Rightarrow> guard_db \<Rightarrow> guard_scope \<Rightarrow> bool result" where
  "pending_provider_sql c now g sc =
     (if \<not> provider_guards_enabled c then Inr True
      else if scope_empty sc then Inl (ValueError ''provider guard needs parent scope'')
      else
        let own = guard_claim c;
            active = (\<lambda>pw. active_state (pw_state pw) \<or> (gc_settling c = Not_settling \<and> pw_settle_pending pw));
            blocked = (\<exists>pw \<in> set (gd_provider g).
                         active pw \<and> scope_matches sc (pw_snapshot_id pw) (pw_partition_id pw) (pw_job_id pw) \<and>
                         (case own of None \<Rightarrow> True | Some k \<Rightarrow> pw_id pw \<noteq> pc_work_id k));
            owned = (\<lambda>k. \<exists>ow \<in> set (gd_provider g).
                       pw_id ow = pc_work_id k \<and> pw_generation ow = pc_generation k \<and>
                       (case gc_settling c of
                          Settling_claim _ \<Rightarrow> pw_state ow \<in> {''COMPLETED'', ''PARTIAL'', ''FAILED''} \<and> pw_settle_pending ow
                        | _ \<Rightarrow> pw_state ow = ''RESUMING'') \<and>
                       pw_owner ow = Some (pc_owner_id k) \<and>
                       (case pw_expires ow of None \<Rightarrow> False | Some t \<Rightarrow> now < t))
        in Inr (\<not> blocked \<and> (case own of None \<Rightarrow> True | Some k \<Rightarrow> owned k)))"

section \<open>Copy guard\<close>

definition copy_work_guards_enabled :: "guard_ctx \<Rightarrow> bool" where
  "copy_work_guards_enabled c \<longleftrightarrow>
     gc_copy_enabled c \<or> gc_copy_active c \<or> gc_resuming c \<noteq> None \<or> provider_guards_enabled c"

definition pending_copy_sql :: "guard_ctx \<Rightarrow> utc \<Rightarrow> guard_db \<Rightarrow> guard_scope \<Rightarrow> bool result" where
  "pending_copy_sql c now g sc =
     (if \<not> copy_work_guards_enabled c then Inr True
      else if scope_empty sc then Inl (ValueError ''copy guard needs a parent expression'')
      else
        let own = gc_resuming c;
            active = (\<lambda>cw. active_state (cw_state cw) \<or> (\<not> gc_parent_settlement c \<and> cw_settle_pending cw));
            blocked = (\<exists>cw \<in> set (gd_workflows g).
                         active cw \<and> scope_matches sc (cw_target_snapshot_id cw) (cw_partition_id cw) (cw_job_id cw) \<and>
                         (case own of None \<Rightarrow> True | Some k \<Rightarrow> cw_id cw \<noteq> rc_workflow_id k));
            owned = (\<lambda>k. \<exists>rw \<in> set (gd_workflows g).
                       cw_id rw = rc_workflow_id k \<and> cw_state rw = ''RESUMING'' \<and> cw_owner rw = Some (rc_owner_id k) \<and>
                       cw_generation rw = rc_generation k \<and> cw_parent_lease_token rw = rc_parent_lease_token k)
        in bindE (pending_provider_sql c now g sc)
             (\<lambda>prov. Inr (\<not> blocked \<and> (case own of None \<Rightarrow> True | Some k \<Rightarrow> owned k) \<and> prov)))"

text \<open>The guard as a conjunct of a WHERE clause.\<close>

definition copy_ready :: "guard_ctx \<Rightarrow> utc \<Rightarrow> guard_db \<Rightarrow> guard_scope \<Rightarrow> bool" where
  "copy_ready c now g sc \<longleftrightarrow> pending_copy_sql c now g sc = Inr True"

text \<open>
  \<open>copy_source_pinned_sql\<close>: no unfinished workflow targets the snapshot or reads from it, directly
  (\<open>copy_work_items.source_snapshot_id\<close>, a left join) or as the prior snapshot of one of its tasks.
\<close>

definition copy_source_unpinned :: "guard_ctx \<Rightarrow> utc \<Rightarrow> guard_db \<Rightarrow> string \<Rightarrow> bool" where
  "copy_source_unpinned c now g sid \<longleftrightarrow>
     (if \<not> copy_work_guards_enabled c then True
      else
        \<not> (\<exists>cw \<in> set (gd_workflows g).
             (active_state (cw_state cw) \<or> cw_settle_pending cw) \<and>
             (cw_target_snapshot_id cw = sid \<or>
              (\<exists>ct \<in> set (gd_tasks g). ct_workflow_id ct = cw_id cw \<and>
                 ((\<exists>ci \<in> set (gd_items g). ci_task_id ci = ct_id ct \<and> ci_source_snapshot_id ci = Some sid) \<or>
                  ct_prior_snap_id ct = Some sid \<or> ct_prior_snapshot_id ct = Some sid)))) \<and>
        pending_provider_sql c now g (snapshot_scope sid) = Inr True)"

section \<open>Facts\<close>

text \<open>A call with a scope never raises.\<close>

lemma pending_provider_total:
  "\<not> scope_empty sc \<Longrightarrow> \<exists>b. pending_provider_sql c now g sc = Inr b"
  by (auto simp: pending_provider_sql_def Let_def)

lemma pending_copy_total:
  "\<not> scope_empty sc \<Longrightarrow> \<exists>b. pending_copy_sql c now g sc = Inr b"
  using pending_provider_total [of sc c now g] by (auto simp: pending_copy_sql_def Let_def)

lemma scope_nonempty [simp]:
  "\<not> scope_empty (snapshot_scope i)" "\<not> scope_empty (partition_scope i)" "\<not> scope_empty (job_scope i)"
  by (simp_all add: scope_empty_def)

text \<open>The context of a sweep: guards on, nothing resumed, no parent being settled.\<close>

definition sweep_ctx :: guard_ctx where
  "sweep_ctx =
     \<lparr>gc_copy_enabled = True, gc_copy_active = False, gc_resuming = None, gc_parent_settlement = False,
      gc_provider_enabled = True, gc_provider_guards = False, gc_current = None, gc_settling = Not_settling,
      gc_deferred = False\<rparr>"

lemma copy_ready_sweep:
  "\<not> scope_empty sc \<Longrightarrow>
   copy_ready sweep_ctx now g sc \<longleftrightarrow>
     (\<forall>cw \<in> set (gd_workflows g). scope_matches sc (cw_target_snapshot_id cw) (cw_partition_id cw) (cw_job_id cw) \<longrightarrow>
        \<not> active_state (cw_state cw) \<and> \<not> cw_settle_pending cw) \<and>
     (\<forall>pw \<in> set (gd_provider g). scope_matches sc (pw_snapshot_id pw) (pw_partition_id pw) (pw_job_id pw) \<longrightarrow>
        \<not> active_state (pw_state pw) \<and> \<not> pw_settle_pending pw)"
  by (auto simp: copy_ready_def pending_copy_sql_def pending_provider_sql_def copy_work_guards_enabled_def
      provider_guards_enabled_def sweep_ctx_def guard_claim_def Let_def)

definition empty_guards :: guard_db where
  "empty_guards = \<lparr>gd_workflows = [], gd_tasks = [], gd_items = [], gd_provider = []\<rparr>"

lemma copy_ready_empty [simp]: "\<not> scope_empty sc \<Longrightarrow> copy_ready sweep_ctx now empty_guards sc"
  by (simp add: copy_ready_sweep empty_guards_def)

end
