(* ===== verification/Lease.thy ===== *)
theory Lease
  imports Work_Guards
begin

text \<open>
  Leases with fence tokens on the work rows (\<open>shared/lease.py\<close>), worker heartbeats
  (\<open>shared/heartbeat.py\<close>) and the startup reclaim (\<open>shared/reclaim.py\<close>).

  A lease is the triple of columns \<open>lease_owner_id\<close>, \<open>lease_expires_at\<close>, \<open>lease_token\<close> of a row of one
  of the three leased tables. The statements of \<open>lease.py\<close> are the same text for every table; here they
  are written once over \<open>lease_cols\<close>, the columns such a statement can read, and run on a table by
  \<open>lease_update\<close>.

  The locale \<open>fenced\<close> states what the token promises a holder: no operation ever lowers it. Its
  interpretation on the operations of this theory gives that a superseded lease stays superseded.
\<close>

section \<open>The work database\<close>

record work_db =
  wd_jobs :: "job_row list"
  wd_snapshots :: "snap_row list"
  wd_partitions :: "partition_row list"
  wd_items :: "item_row list"
  wd_heartbeats :: "heartbeat_row list"
  wd_guards :: guard_db

text \<open>The columns a lease statement reads: the status as text.\<close>

record lease_cols =
  lc_id :: string
  lc_status :: string
  lc_owner :: "string option"
  lc_expires :: "utc option"
  lc_token :: int

definition cols :: "('st \<Rightarrow> string) \<Rightarrow> ('st, 'a) work_row_scheme \<Rightarrow> lease_cols" where
  "cols txt r =
     \<lparr>lc_id = w_id r, lc_status = txt (w_status r), lc_owner = w_owner r, lc_expires = w_expires r,
      lc_token = w_token r\<rparr>"

definition put_cols :: "lease_cols \<Rightarrow> ('st, 'a) work_row_scheme \<Rightarrow> ('st, 'a) work_row_scheme" where
  "put_cols c r = r\<lparr>w_owner := lc_owner c, w_expires := lc_expires c, w_token := lc_token c\<rparr>"

definition update_cols ::
    "('st \<Rightarrow> string) \<Rightarrow> (lease_cols \<Rightarrow> bool) \<Rightarrow> (lease_cols \<Rightarrow> lease_cols) \<Rightarrow>
     ('st, 'a) work_row_scheme list \<Rightarrow> ('st, 'a) work_row_scheme list" where
  "update_cols txt p f rows = sql_update (\<lambda>r. p (cols txt r)) (\<lambda>r. put_cols (f (cols txt r)) r) rows"

definition LEASED_TABLES :: "string list" where
  "LEASED_TABLES = [''jobs'', ''snapshots'', ''snapshot_partitions'']"

definition lease_select :: "work_db \<Rightarrow> string \<Rightarrow> lease_cols list" where
  "lease_select db table =
     (if table = ''jobs'' then map (cols job_status_text) (wd_jobs db)
      else if table = ''snapshots'' then map (cols snapshot_status_text) (wd_snapshots db)
      else if table = ''snapshot_partitions'' then map (cols id) (wd_partitions db)
      else [])"

definition lease_update ::
    "string \<Rightarrow> (lease_cols \<Rightarrow> bool) \<Rightarrow> (lease_cols \<Rightarrow> lease_cols) \<Rightarrow> work_db \<Rightarrow> work_db" where
  "lease_update table p f db =
     (if table = ''jobs'' then db\<lparr>wd_jobs := update_cols job_status_text p f (wd_jobs db)\<rparr>
      else if table = ''snapshots'' then db\<lparr>wd_snapshots := update_cols snapshot_status_text p f (wd_snapshots db)\<rparr>
      else if table = ''snapshot_partitions'' then db\<lparr>wd_partitions := update_cols id p f (wd_partitions db)\<rparr>
      else db)"

definition keeps_key :: "(lease_cols \<Rightarrow> lease_cols) \<Rightarrow> bool" where
  "keeps_key f \<longleftrightarrow> (\<forall>c. lc_id (f c) = lc_id c \<and> lc_status (f c) = lc_status c)"

lemma cols_put_cols:
  "lc_id c = w_id r \<Longrightarrow> lc_status c = txt (w_status r) \<Longrightarrow> cols txt (put_cols c r) = c"
  by (simp add: cols_def put_cols_def)

lemma cols_update_cols:
  assumes "keeps_key f"
  shows "map (cols txt) (update_cols txt p f rows) = sql_update p f (map (cols txt) rows)"
proof (induction rows)
  case (Cons r rows)
  have "cols txt (put_cols (f (cols txt r)) r) = f (cols txt r)"
    using assms by (intro cols_put_cols) (simp_all add: keeps_key_def cols_def)
  with Cons show ?case by (simp add: update_cols_def)
qed (simp add: update_cols_def)

text \<open>An update is seen in its own table, and in no other.\<close>

lemma lease_select_update:
  "keeps_key f \<Longrightarrow>
   lease_select (lease_update t p f db) t' =
     (if t = t' then sql_update p f (lease_select db t) else lease_select db t')"
  by (simp add: lease_select_def lease_update_def cols_update_cols)

section \<open>Claim, renew, release\<close>

definition LEASE_TTL_S :: int where
  "LEASE_TTL_S = 600"

definition LEASE_RENEW_S :: int where
  "LEASE_RENEW_S = 120"

definition LEASE_EXTENDER_RESET_AFTER :: int where
  "LEASE_EXTENDER_RESET_AFTER = 6"

definition bounded_timeout_s :: "rat \<Rightarrow> rat" where
  "bounded_timeout_s interval_s = max (2 * interval_s) 10"

record lease =
  le_table :: string
  le_work_id :: string
  le_owner_id :: "string option"
  le_token :: int

definition check_table :: "string \<Rightarrow> unit result" where
  "check_table table =
     (if table \<in> set LEASED_TABLES then Inr () else Inl (ValueError (''lease: unsupported table '' @ table)))"

definition copy_scope :: "string \<Rightarrow> string \<Rightarrow> guard_scope" where
  "copy_scope table i =
     (if table = ''jobs'' then job_scope i
      else if table = ''snapshots'' then snapshot_scope i else partition_scope i)"

definition lapsed :: "utc \<Rightarrow> utc option \<Rightarrow> bool" where
  "lapsed now e \<longleftrightarrow> (case e of None \<Rightarrow> True | Some t \<Rightarrow> t < now)"

definition claimable :: "guard_ctx \<Rightarrow> utc \<Rightarrow> work_db \<Rightarrow> string \<Rightarrow> string \<Rightarrow> string \<Rightarrow> lease_cols \<Rightarrow> bool" where
  "claimable gc now db table wid in_progress_status c \<longleftrightarrow>
     lc_id c = wid \<and> lc_status c = in_progress_status \<and>
     copy_ready gc now (wd_guards db) (copy_scope table (lc_id c)) \<and> lapsed now (lc_expires c)"

definition claim ::
    "guard_ctx \<Rightarrow> utc \<Rightarrow> string \<Rightarrow> string \<Rightarrow> string \<Rightarrow> string \<Rightarrow> int \<Rightarrow> work_db \<Rightarrow> (lease option \<times> work_db) result" where
  "claim gc now table work_id owner_id in_progress_status ttl_seconds db =
     bindE (check_table table) (\<lambda>_.
       let p = claimable gc now db table work_id in_progress_status;
           f = (\<lambda>c. c\<lparr>lc_owner := Some owner_id, lc_expires := Some (now + ttl_seconds * SECOND),
                      lc_token := lc_token c + 1\<rparr>)
       in case sql_returning p f (lease_select db table) of
            [] \<Rightarrow> Inr (None, db)
          | row # _ \<Rightarrow>
              Inr (Some \<lparr>le_table = table, le_work_id = work_id, le_owner_id = Some owner_id, le_token = lc_token row\<rparr>,
                   lease_update table p f db))"

definition held_by :: "lease \<Rightarrow> lease_cols \<Rightarrow> bool" where
  "held_by l c \<longleftrightarrow>
     lc_id c = le_work_id l \<and> le_owner_id l \<noteq> None \<and> lc_owner c = le_owner_id l \<and> lc_token c = le_token l"

definition renew :: "utc \<Rightarrow> int \<Rightarrow> lease \<Rightarrow> work_db \<Rightarrow> (bool \<times> work_db) result" where
  "renew now ttl_seconds l db =
     bindE (check_table (le_table l)) (\<lambda>_.
       if \<exists>c \<in> set (lease_select db (le_table l)). held_by l c
       then Inr (True, lease_update (le_table l) (held_by l)
                         (\<lambda>c. c\<lparr>lc_expires := Some (now + ttl_seconds * SECOND)\<rparr>) db)
       else Inr (False, db))"

text \<open>The fence of a state write: \<open>WHERE id = :wid AND lease_token = :tok\<close>.\<close>

definition fence :: "lease \<Rightarrow> lease_cols \<Rightarrow> bool" where
  "fence l c \<longleftrightarrow> lc_id c = le_work_id l \<and> lc_token c = le_token l"

definition release :: "lease \<Rightarrow> work_db \<Rightarrow> work_db result" where
  "release l db =
     bindE (check_table (le_table l)) (\<lambda>_.
       Inr (lease_update (le_table l) (fence l) (\<lambda>c. c\<lparr>lc_owner := None, lc_expires := None\<rparr>) db))"

text \<open>
  \<open>LeaseRenewer._loop\<close>: one entry per wake-up, the time and whether the round-trip raised. The result
  is the database, the \<open>stolen\<close> flag, and whether the loop is still running. A raised renewal is
  swallowed; a refused one stops the loop.
\<close>

fun renewer_loop :: "int \<Rightarrow> lease \<Rightarrow> (utc \<times> bool) list \<Rightarrow> work_db \<Rightarrow> work_db \<times> bool \<times> bool" where
  "renewer_loop ttl l [] db = (db, False, True)"
| "renewer_loop ttl l ((now, raised) # ticks) db =
     (if raised then renewer_loop ttl l ticks db
      else case renew now ttl l db of
             Inl _ \<Rightarrow> renewer_loop ttl l ticks db
           | Inr (ok, db') \<Rightarrow> if ok then renewer_loop ttl l ticks db' else (db', True, False))"

section \<open>The handler registry\<close>

text \<open>
  \<open>str(uuid.UUID(str(x)))\<close>: \<open>urn:\<close> and \<open>uuid:\<close> removed, braces stripped, hyphens removed, 32
  hexadecimal digits required; printed in lower case in groups of 8, 4, 4, 4 and 12.
\<close>

fun py_remove :: "string \<Rightarrow> string \<Rightarrow> string" where
  "py_remove needle [] = []"
| "py_remove needle (c # cs) =
     (if needle \<noteq> [] \<and> take (length needle) (c # cs) = needle
      then py_remove needle (drop (length needle - 1) cs)
      else c # py_remove needle cs)"

definition hex_char :: "char \<Rightarrow> bool" where
  "hex_char c = (let n = of_char c :: nat in (48 \<le> n \<and> n \<le> 57) \<or> (65 \<le> n \<and> n \<le> 70) \<or> (97 \<le> n \<and> n \<le> 102))"

definition brace :: "char \<Rightarrow> bool" where
  "brace c \<longleftrightarrow> c = CHR ''{'' \<or> c = CHR ''}''"

definition strip_braces :: "string \<Rightarrow> string" where
  "strip_braces s = rev (dropWhile brace (rev (dropWhile brace s)))"

definition row_key :: "string \<Rightarrow> string" where
  "row_key s =
     (let h = filter (\<lambda>c. c \<noteq> CHR ''-'') (strip_braces (py_remove ''uuid:'' (py_remove ''urn:'' s)))
      in if length h = 32 \<and> list_all hex_char h
         then (let l = py_lower h in
                 py_slice l 0 8 @ ''-'' @ py_slice l 8 12 @ ''-'' @ py_slice l 12 16 @ ''-'' @ py_slice l 16 20
                 @ ''-'' @ py_slice l 20 32)
         else s)"

record registry =
  rg_ids :: "string \<Rightarrow> string set"
  rg_used :: bool

definition empty_registry :: registry where
  "empty_registry = \<lparr>rg_ids = (\<lambda>_. {}), rg_used = False\<rparr>"

definition register :: "string \<Rightarrow> string \<Rightarrow> registry \<Rightarrow> registry result" where
  "register table row_id rg =
     bindE (check_table table) (\<lambda>_.
       Inr \<lparr>rg_ids = (rg_ids rg)(table := insert (row_key row_id) (rg_ids rg table)), rg_used = True\<rparr>)"

definition unregister :: "string \<Rightarrow> string \<Rightarrow> registry \<Rightarrow> registry result" where
  "unregister table row_id rg =
     bindE (check_table table) (\<lambda>_.
       Inr (rg\<lparr>rg_ids := (rg_ids rg)(table := rg_ids rg table - {row_key row_id})\<rparr>))"

definition registered_ids :: "string \<Rightarrow> registry \<Rightarrow> string list result" where
  "registered_ids table rg = bindE (check_table table) (\<lambda>_. Inr (sorted_list_of_set (rg_ids rg table)))"

definition registry_active :: "registry \<Rightarrow> bool" where
  "registry_active rg = rg_used rg"

definition reset_registry :: "registry \<Rightarrow> registry" where
  "reset_registry rg = empty_registry"

section \<open>The lease extender\<close>

text \<open>One table of \<open>_bump_once\<close>; \<open>scoped\<close> was read before the loop over the tables.\<close>

definition EXTENDED_TABLES :: "(string \<times> string) list" where
  "EXTENDED_TABLES =
     [(''snapshots'', ''IN_PROGRESS''), (''snapshot_partitions'', ''IN_PROGRESS''), (''jobs'', ''RUNNING'')]"

definition unregister_all :: "string \<Rightarrow> string list \<Rightarrow> registry \<Rightarrow> registry" where
  "unregister_all table rids rg =
     fold (\<lambda>rid rg. case unregister table rid rg of Inl _ \<Rightarrow> rg | Inr rg' \<Rightarrow> rg') rids rg"

definition bump_table ::
    "string \<Rightarrow> int \<Rightarrow> utc \<Rightarrow> bool \<Rightarrow> string \<times> string \<Rightarrow> registry \<times> work_db \<Rightarrow> registry \<times> work_db" where
  "bump_table owner_id ttl_seconds now scoped entry st =
     (case entry of (table, in_prog) \<Rightarrow>
       (case st of (rg, db) \<Rightarrow>
         let f = (\<lambda>c. c\<lparr>lc_expires := Some (now + ttl_seconds * SECOND)\<rparr>);
             owned = (\<lambda>c. lc_owner c = Some owner_id \<and> lc_status c = in_prog)
         in if \<not> scoped then (rg, lease_update table owned f db)
            else (case registered_ids table rg of
                    Inl _ \<Rightarrow> (rg, db)
                  | Inr rids \<Rightarrow>
                      if rids = [] then (rg, db)
                      else
                        let p = (\<lambda>c. owned c \<and> lc_id c \<in> set rids);
                            kept = map lc_id (sql_returning p f (lease_select db table))
                        in (unregister_all table (filter (\<lambda>rid. rid \<notin> set kept) rids) rg,
                            lease_update table p f db))))"

definition bump_once :: "string \<Rightarrow> int \<Rightarrow> utc \<Rightarrow> registry \<times> work_db \<Rightarrow> registry \<times> work_db" where
  "bump_once owner_id ttl_seconds now st =
     fold (bump_table owner_id ttl_seconds now (registry_active (fst st))) EXTENDED_TABLES st"

text \<open>
  \<open>LeaseExtender._loop\<close>, one wake-up, by what became of its bounded \<open>_bump_once\<close>. \<open>Bump_ok\<close>: it went
  through. \<open>Bump_undone k\<close>: it raised or timed out after \<open>k\<close> of the tables; the session rolls back,
  the registry keeps what was dropped so far. \<open>Bump_late\<close>: \<open>run_bounded\<close> gave up on it, but the
  abandoned task finished and its transaction committed; the rows stay locked until then, so no later
  bump overtakes it. Every \<open>reset_after\<close>-th consecutive failure disposes the engine (\<open>ex_resets\<close> counts
  these).
\<close>

datatype bump_outcome = Bump_ok | Bump_undone nat | Bump_late

record extender =
  ex_failures :: int
  ex_resets :: nat

definition extender_tick ::
    "string \<Rightarrow> int \<Rightarrow> int \<Rightarrow> utc \<times> bump_outcome \<Rightarrow> extender \<times> registry \<times> work_db \<Rightarrow> extender \<times> registry \<times> work_db" where
  "extender_tick owner_id ttl_seconds reset_after tick st =
     (case tick of (now, outcome) \<Rightarrow> (case st of (ex, rg, db) \<Rightarrow>
        let n = ex_failures ex + 1;
            failed = \<lparr>ex_failures = n,
                      ex_resets = (if 0 < reset_after \<and> n mod reset_after = 0 then ex_resets ex + 1 else ex_resets ex)\<rparr>
        in (case outcome of
              Bump_ok \<Rightarrow> (ex\<lparr>ex_failures := 0\<rparr>, bump_once owner_id ttl_seconds now (rg, db))
            | Bump_undone k \<Rightarrow>
                (failed, fst (fold (bump_table owner_id ttl_seconds now (registry_active rg)) (take k EXTENDED_TABLES) (rg, db)), db)
            | Bump_late \<Rightarrow> (failed, bump_once owner_id ttl_seconds now (rg, db)))))"

definition extender_run ::
    "string \<Rightarrow> int \<Rightarrow> int \<Rightarrow> (utc \<times> bump_outcome) list \<Rightarrow> extender \<times> registry \<times> work_db \<Rightarrow> extender \<times> registry \<times> work_db" where
  "extender_run owner_id ttl_seconds reset_after ticks st =
     fold (extender_tick owner_id ttl_seconds reset_after) ticks st"

section \<open>Heartbeats and reclaim\<close>

definition HOUR_US :: int where
  "HOUR_US = 3600 * SECOND"

text \<open>\<open>_beat_once\<close> is an upsert on \<open>worker_id\<close>; \<open>_tombstone_once\<close> backdates the row by an hour.\<close>

definition beat_once :: "string \<Rightarrow> string \<Rightarrow> utc \<Rightarrow> work_db \<Rightarrow> work_db" where
  "beat_once worker replica now db =
     (if \<exists>h \<in> set (wd_heartbeats db). hb_worker_id h = worker
      then db\<lparr>wd_heartbeats := sql_update (\<lambda>h. hb_worker_id h = worker)
                (\<lambda>h. h\<lparr>hb_last_seen_at := now, hb_replica_id := replica\<rparr>) (wd_heartbeats db)\<rparr>
      else db\<lparr>wd_heartbeats :=
                wd_heartbeats db @ [\<lparr>hb_worker_id = worker, hb_replica_id = replica, hb_last_seen_at = now\<rparr>]\<rparr>)"

definition tombstone :: "(string \<Rightarrow> bool) \<Rightarrow> utc \<Rightarrow> work_db \<Rightarrow> work_db" where
  "tombstone p now db =
     db\<lparr>wd_heartbeats := sql_update (\<lambda>h. p (hb_worker_id h)) (\<lambda>h. h\<lparr>hb_last_seen_at := now - HOUR_US\<rparr>) (wd_heartbeats db)\<rparr>"

definition tombstone_once :: "string \<Rightarrow> utc \<Rightarrow> work_db \<Rightarrow> work_db" where
  "tombstone_once worker now db = tombstone (\<lambda>w. w = worker) now db"

text \<open>\<open>_check_fatal\<close>: times of the monotonic clock; the anchor is the last successful beat.\<close>

definition check_fatal :: "rat \<Rightarrow> rat option \<Rightarrow> rat option \<Rightarrow> rat \<Rightarrow> bool" where
  "check_fatal fatal_s last_success_at loop_started_at now_s \<longleftrightarrow>
     0 < fatal_s \<and>
     (case (case last_success_at of Some t \<Rightarrow> Some t | None \<Rightarrow> loop_started_at) of
        None \<Rightarrow> False
      | Some t \<Rightarrow> \<not> now_s - t < fatal_s)"

text \<open>\<open>reclaim_for_replica\<close>: release what earlier processes of this replica still hold.\<close>

definition RECLAIM_TABLES :: "(string \<times> string) list" where
  "RECLAIM_TABLES =
     [(''snapshots'', ''IN_PROGRESS''), (''snapshot_partitions'', ''IN_PROGRESS''), (''jobs'', ''RUNNING'')]"

definition reclaim_table ::
    "guard_ctx \<Rightarrow> utc \<Rightarrow> string list \<Rightarrow> string \<times> string \<Rightarrow> nat \<times> work_db \<Rightarrow> nat \<times> work_db" where
  "reclaim_table gc now old_ids entry st =
     (case entry of (table, in_prog) \<Rightarrow> (case st of (touched, db) \<Rightarrow>
        let p = (\<lambda>c. (\<exists>w \<in> set old_ids. lc_owner c = Some w) \<and> lc_status c = in_prog \<and>
                     copy_ready gc now (wd_guards db) (copy_scope table (lc_id c)));
            f = (\<lambda>c. c\<lparr>lc_owner := None, lc_expires := Some (now - SECOND), lc_token := lc_token c + 1\<rparr>)
        in (touched + length (filter p (lease_select db table)), lease_update table p f db)))"

definition reclaim_for_replica :: "guard_ctx \<Rightarrow> utc \<Rightarrow> string \<Rightarrow> string \<Rightarrow> work_db \<Rightarrow> nat \<times> work_db" where
  "reclaim_for_replica gc now replica worker_uuid db =
     (let old_ids = map hb_worker_id
                      (filter (\<lambda>h. hb_replica_id h = replica \<and> hb_worker_id h \<noteq> worker_uuid) (wd_heartbeats db))
      in if old_ids = [] then (0, db)
         else (case fold (reclaim_table gc now old_ids) RECLAIM_TABLES (0, db) of
                 (touched, db') \<Rightarrow> (touched, tombstone (\<lambda>w. w \<in> set old_ids) now db')))"

section \<open>Fence tokens\<close>

text \<open>
  What a fence token promises: whatever happens to the store, a token only grows, and a row that is gone
  does not come back under its identifier.
\<close>

locale fenced =
  fixes tok :: "'s \<Rightarrow> 'k \<Rightarrow> int option"
    and step :: "'s \<Rightarrow> 's \<Rightarrow> bool"
    and ok :: "'s \<Rightarrow> bool"
  assumes ok_step: "ok s \<Longrightarrow> step s s' \<Longrightarrow> ok s'"
    and gone_step: "ok s \<Longrightarrow> step s s' \<Longrightarrow> tok s k = None \<Longrightarrow> tok s' k = None"
    and grow_step: "ok s \<Longrightarrow> step s s' \<Longrightarrow> tok s k = Some n \<Longrightarrow> tok s' k = Some m \<Longrightarrow> n \<le> m"
begin

lemma ok_steps: "step\<^sup>*\<^sup>* s s' \<Longrightarrow> ok s \<Longrightarrow> ok s'"
  by (induction rule: rtranclp_induct) (auto intro: ok_step)

lemma gone_steps: "step\<^sup>*\<^sup>* s s' \<Longrightarrow> ok s \<Longrightarrow> tok s k = None \<Longrightarrow> tok s' k = None"
  by (induction rule: rtranclp_induct) (auto intro: gone_step ok_steps)

lemma grow_steps:
  assumes "step\<^sup>*\<^sup>* s s'" "ok s" "tok s k = Some n" "tok s' k = Some m"
  shows "n \<le> m"
  using assms
proof (induction arbitrary: m rule: rtranclp_induct)
  case (step y z)
  have ok: "ok y" using step by (blast intro: ok_steps)
  obtain j where j: "tok y k = Some j"
    using gone_step [OF ok step.hyps(2), of k] step.prems by (cases "tok y k") auto
  with step.IH step.prems have "n \<le> j" by blast
  also have "j \<le> m" using grow_step [OF ok step.hyps(2) j] step.prems by blast
  finally show ?case .
qed simp

text \<open>A token that has been superseded is never the row's token again.\<close>

lemma superseded:
  assumes "step\<^sup>*\<^sup>* s s'" "ok s" "tok s k = Some m" "n < m"
  shows "tok s' k \<noteq> Some n"
  using grow_steps [OF assms(1-3)] assms(4) by fastforce

end

text \<open>The row of a table as a lease statement sees it, and its token. Identifiers are primary keys.\<close>

definition cols_of :: "work_db \<Rightarrow> string \<Rightarrow> string \<Rightarrow> lease_cols option" where
  "cols_of db t i = find (\<lambda>c. lc_id c = i) (lease_select db t)"

definition token_of :: "work_db \<Rightarrow> string \<times> string \<Rightarrow> int option" where
  "token_of db k = map_option lc_token (cols_of db (fst k) (snd k))"

definition keys_ok :: "work_db \<Rightarrow> bool" where
  "keys_ok db \<longleftrightarrow> (\<forall>t. distinct (map lc_id (lease_select db t)))"

lemma find_sql_update:
  "(\<And>c. lc_id (f c) = lc_id c) \<Longrightarrow>
   find (\<lambda>c. lc_id c = i) (sql_update p f cs) = map_option (\<lambda>c. if p c then f c else c) (find (\<lambda>c. lc_id c = i) cs)"
  by (induction cs) auto

lemma cols_of_update:
  "keeps_key f \<Longrightarrow>
   cols_of (lease_update t p f db) t' i =
     (if t = t' then map_option (\<lambda>c. if p c then f c else c) (cols_of db t i) else cols_of db t' i)"
  by (simp add: cols_of_def lease_select_update find_sql_update keeps_key_def)

lemma cols_of_Some: "cols_of db t i = Some c \<Longrightarrow> c \<in> set (lease_select db t) \<and> lc_id c = i"
  by (auto simp: cols_of_def find_Some_iff)

lemma cols_of_unique:
  assumes "keys_ok db" "c \<in> set (lease_select db t)"
  shows "cols_of db t (lc_id c) = Some c"
proof -
  have "distinct (map lc_id cs) \<Longrightarrow> c \<in> set cs \<Longrightarrow> find (\<lambda>c'. lc_id c' = lc_id c) cs = Some c" for cs
    by (induction cs) auto
  with assms show ?thesis by (simp add: keys_ok_def cols_of_def)
qed

lemma keys_ok_update:
  assumes "keeps_key f"
  shows "keys_ok (lease_update t p f db) \<longleftrightarrow> keys_ok db"
proof -
  have "map lc_id (sql_update p f cs) = map lc_id cs" for cs
    using assms by (induction cs) (auto simp: keeps_key_def)
  then show ?thesis by (simp add: keys_ok_def lease_select_update [OF assms])
qed

lemma lease_update_frame [simp]:
  "wd_guards (lease_update t p f db) = wd_guards db"
  "wd_items (lease_update t p f db) = wd_items db"
  "wd_heartbeats (lease_update t p f db) = wd_heartbeats db"
  by (simp_all add: lease_update_def)

lemma keeps_key_fields [simp]:
  "keeps_key (\<lambda>c. c\<lparr>lc_owner := o' c, lc_expires := e c, lc_token := k c\<rparr>)"
  "keeps_key (\<lambda>c. c\<lparr>lc_owner := o' c, lc_expires := e c\<rparr>)"
  "keeps_key (\<lambda>c. c\<lparr>lc_expires := e c\<rparr>)"
  by (simp_all add: keeps_key_def)

text \<open>An update that lowers no token.\<close>

definition raises :: "(lease_cols \<Rightarrow> lease_cols) \<Rightarrow> bool" where
  "raises f \<longleftrightarrow> keeps_key f \<and> (\<forall>c. lc_token c \<le> lc_token (f c))"

lemma raises_fields [simp]:
  "raises (\<lambda>c. c\<lparr>lc_owner := o' c, lc_expires := e c, lc_token := lc_token c + 1\<rparr>)"
  "raises (\<lambda>c. c\<lparr>lc_owner := o' c, lc_expires := e c\<rparr>)"
  "raises (\<lambda>c. c\<lparr>lc_expires := e c\<rparr>)"
  by (simp_all add: raises_def)

text \<open>The order on databases every statement moves along.\<close>

definition fence_le :: "work_db \<Rightarrow> work_db \<Rightarrow> bool" where
  "fence_le db db' \<longleftrightarrow>
     (keys_ok db \<longrightarrow> keys_ok db') \<and>
     (\<forall>k. (token_of db k = None \<longrightarrow> token_of db' k = None) \<and>
          (\<forall>n m. token_of db k = Some n \<longrightarrow> token_of db' k = Some m \<longrightarrow> n \<le> m))"

lemma fence_le_refl [simp]: "fence_le db db"
  by (simp add: fence_le_def)

lemma fence_le_update: "raises f \<Longrightarrow> fence_le db (lease_update t p f db)"
  by (auto simp: fence_le_def raises_def token_of_def cols_of_update keys_ok_update split: if_splits)

lemma fence_le_trans [trans]:
  assumes "fence_le a b" "fence_le b c"
  shows "fence_le a c"
proof -
  have "n \<le> m" if nm: "token_of a k = Some n" "token_of c k = Some m" for k n m
  proof -
    obtain j where j: "token_of b k = Some j"
      using assms(2) nm(2) unfolding fence_le_def by (metis option.exhaust option.distinct(1))
    have "n \<le> j" using assms(1) nm j unfolding fence_le_def by blast
    also have "j \<le> m" using assms(2) nm j unfolding fence_le_def by blast
    finally show ?thesis .
  qed
  with assms show ?thesis unfolding fence_le_def by blast
qed

lemma fence_le_fold:
  assumes "\<And>x st. fence_le (snd st) (snd (f x st))"
  shows "fence_le (snd st) (snd (fold f xs st))"
proof (induction xs arbitrary: st)
  case (Cons x xs)
  from fence_le_trans [OF assms Cons.IH] show ?case by simp
qed simp

section \<open>Every lease operation respects the fence\<close>

inductive lease_step :: "work_db \<Rightarrow> work_db \<Rightarrow> bool" where
  l_claim: "claim gc now t i owner st ttl db = Inr (l, db') \<Longrightarrow> lease_step db db'"
| l_renew: "renew now ttl l db = Inr (b, db') \<Longrightarrow> lease_step db db'"
| l_release: "release l db = Inr db' \<Longrightarrow> lease_step db db'"
| l_bump: "bump_once owner ttl now (rg, db) = (rg', db') \<Longrightarrow> lease_step db db'"
| l_reclaim: "reclaim_for_replica gc now replica w db = (n, db') \<Longrightarrow> lease_step db db'"
| l_beat: "lease_step db (beat_once worker replica now db)"
| l_tombstone: "lease_step db (tombstone_once worker now db)"

lemma fence_le_claim: "claim gc now t i owner st ttl db = Inr (l, db') \<Longrightarrow> fence_le db db'"
  by (auto simp: claim_def Let_def fence_le_update split: list.splits)

lemma fence_le_renew: "renew now ttl l db = Inr (b, db') \<Longrightarrow> fence_le db db'"
  by (auto simp: renew_def fence_le_update split: if_splits)

lemma fence_le_release: "release l db = Inr db' \<Longrightarrow> fence_le db db'"
  by (auto simp: release_def fence_le_update)

lemma fence_le_bump_table: "fence_le (snd st) (snd (bump_table owner ttl now scoped entry st))"
  by (cases st; cases entry) (auto simp: bump_table_def Let_def fence_le_update split: sum.splits)

lemma fence_le_bump: "fence_le (snd st) (snd (bump_once owner ttl now st))"
  unfolding bump_once_def by (rule fence_le_fold) (rule fence_le_bump_table)

lemma fence_le_reclaim_table: "fence_le (snd st) (snd (reclaim_table gc now old_ids entry st))"
  by (cases st; cases entry) (auto simp: reclaim_table_def Let_def fence_le_update)

lemma lease_select_heartbeats [simp]: "lease_select (db\<lparr>wd_heartbeats := h\<rparr>) t = lease_select db t"
  by (simp add: lease_select_def)

lemma fence_le_same: "(\<And>t. lease_select db' t = lease_select db t) \<Longrightarrow> fence_le db db'"
  by (auto simp: fence_le_def keys_ok_def token_of_def cols_of_def)

lemma fence_le_heartbeats:
  "fence_le db (tombstone p now db)" "fence_le db (beat_once worker replica now db)"
  "fence_le db (tombstone_once worker now db)"
  by (auto intro!: fence_le_same simp: tombstone_def tombstone_once_def beat_once_def)

lemma fence_le_reclaim: "fence_le db (snd (reclaim_for_replica gc now replica w db))"
proof (cases "map hb_worker_id (filter (\<lambda>h. hb_replica_id h = replica \<and> hb_worker_id h \<noteq> w) (wd_heartbeats db))")
  case Nil
  then show ?thesis by (simp add: reclaim_for_replica_def)
next
  case (Cons a as)
  obtain n db1 where f: "fold (reclaim_table gc now (a # as)) RECLAIM_TABLES (0, db) = (n, db1)"
    by (cases "fold (reclaim_table gc now (a # as)) RECLAIM_TABLES (0, db)") simp
  have "fence_le db db1"
    using fence_le_fold [of "reclaim_table gc now (a # as)", OF fence_le_reclaim_table, of "(0, db)" RECLAIM_TABLES] f
    by simp
  moreover have "snd (reclaim_for_replica gc now replica w db) = tombstone (\<lambda>v. v \<in> set (a # as)) now db1"
    unfolding reclaim_for_replica_def Let_def Cons f by simp
  ultimately show ?thesis using fence_le_trans fence_le_heartbeats(1) by presburger
qed

lemma fence_le_lease_step: "lease_step db db' \<Longrightarrow> fence_le db db'"
proof (induction rule: lease_step.induct)
  case (l_bump owner ttl now rg db rg' db')
  with fence_le_bump [of "(rg, db)" owner ttl now] show ?case by simp
next
  case (l_reclaim gc now replica w db n db')
  with fence_le_reclaim [of db gc now replica w] show ?case by simp
qed (auto intro: fence_le_claim fence_le_renew fence_le_release fence_le_heartbeats)

interpretation leases: fenced token_of lease_step keys_ok
  by unfold_locales (use fence_le_lease_step in \<open>auto simp: fence_le_def\<close>)

section \<open>When a claim succeeds\<close>

lemma filter_unique:
  assumes "distinct (map lc_id cs)" "c \<in> set cs" "p c" and p: "\<And>c'. p c' \<Longrightarrow> lc_id c' = i"
  shows "filter p cs = [c]"
proof -
  obtain xs ys where cs: "cs = xs @ c # ys" using assms(2) by (meson split_list)
  have "lc_id c \<notin> lc_id ` set xs" "lc_id c \<notin> lc_id ` set ys" using assms(1) cs by auto
  then have "\<not> p x" if "x \<in> set xs \<union> set ys" for x
    using that p [of x] p [OF assms(3)] by (metis UnE imageI)
  then have "filter p xs = []" "filter p ys = []" by (simp_all add: filter_empty_conv)
  with cs assms(3) show ?thesis by simp
qed

text \<open>
  A claim takes the row exactly when it is in the expected status, free of pending copy or provider
  work, and its lease has lapsed; the token it returns is the next one.
\<close>

lemma claim_taken:
  assumes "keys_ok db" "t \<in> set LEASED_TABLES" "cols_of db t i = Some c" "claimable gc now db t i st c"
  shows "claim gc now t i owner st ttl db =
           Inr (Some \<lparr>le_table = t, le_work_id = i, le_owner_id = Some owner, le_token = lc_token c + 1\<rparr>,
                lease_update t (claimable gc now db t i st)
                  (\<lambda>c. c\<lparr>lc_owner := Some owner, lc_expires := Some (now + ttl * SECOND), lc_token := lc_token c + 1\<rparr>) db)"
proof -
  have "filter (claimable gc now db t i st) (lease_select db t) = [c]"
    using assms cols_of_Some [OF assms(3)]
    by (intro filter_unique [where i = i]) (auto simp: keys_ok_def claimable_def)
  then show ?thesis using assms(2) by (simp add: claim_def check_table_def sql_returning_def Let_def)
qed

lemma claim_refused:
  assumes "keys_ok db" "t \<in> set LEASED_TABLES"
    "\<And>c. cols_of db t i = Some c \<Longrightarrow> \<not> claimable gc now db t i st c"
  shows "claim gc now t i owner st ttl db = Inr (None, db)"
proof -
  have "filter (claimable gc now db t i st) (lease_select db t) = []"
    using assms(3) cols_of_unique [OF assms(1)] by (auto simp: filter_empty_conv claimable_def)
  then show ?thesis using assms(2) by (simp add: claim_def check_table_def sql_returning_def Let_def)
qed

lemma claim_token:
  assumes "keys_ok db" "claim gc now t i owner st ttl db = Inr (Some l, db')"
  shows "le_table l = t \<and> le_work_id l = i \<and> token_of db' (t, i) = Some (le_token l)
         \<and> (\<exists>n. token_of db (t, i) = Some n \<and> le_token l = n + 1) \<and> t \<in> set LEASED_TABLES \<and> keys_ok db'"
proof -
  have t: "t \<in> set LEASED_TABLES"
    using assms(2) by (auto simp: claim_def check_table_def split: if_splits)
  obtain c where c: "cols_of db t i = Some c" "claimable gc now db t i st c"
    using claim_refused [OF assms(1) t, of i gc now st owner ttl] assms(2) by fastforce
  show ?thesis
    using claim_taken [OF assms(1) t c, of owner ttl] assms c t
    by (auto simp: token_of_def cols_of_update keys_ok_update)
qed

section \<open>The extender\<close>

lemma py_remove_id: "c \<in> set needle \<Longrightarrow> c \<notin> set s \<Longrightarrow> py_remove needle s = s"
proof (induction needle s rule: py_remove.induct)
  case (2 needle d cs)
  have "take (length needle) (d # cs) \<noteq> needle"
    using 2(3,4) by (metis in_set_takeD)
  with 2 show ?case by auto
qed simp

lemma lower_hex: "hex_char c \<Longrightarrow> hex_char (lower_char c)"
  by (auto simp: hex_char_def lower_char_def Let_def)

lemma lower_idem [simp]: "lower_char (lower_char c) = lower_char c"
proof -
  have "of_char (lower_char c) < (65 :: nat) \<or> (90 :: nat) < of_char (lower_char c)"
    by (auto simp: lower_char_def Let_def not_le)
  then show ?thesis by (subst (1) lower_char_def) (auto simp: Let_def)
qed

lemma hex_no_sep:
  assumes "hex_char c"
  shows "c \<noteq> CHR ''-'' \<and> c \<noteq> CHR ''u'' \<and> \<not> brace c"
  using assms by (auto simp: hex_char_def brace_def Let_def)

lemma dropWhile_none: "(\<And>x. x \<in> set xs \<Longrightarrow> \<not> P x) \<Longrightarrow> dropWhile P xs = xs"
  by (cases xs) auto

text \<open>The canonical form is a fixed point, so an identifier and its canonical form name one entry.\<close>

lemma row_key_idem: "row_key (row_key s) = row_key s"
proof -
  define h where "h = filter (\<lambda>c. c \<noteq> CHR ''-'') (strip_braces (py_remove ''uuid:'' (py_remove ''urn:'' s)))"
  show ?thesis
  proof (cases "length h = 32 \<and> list_all hex_char h")
    case False
    then have "row_key s = s" unfolding row_key_def h_def [symmetric] Let_def by (rule if_not_P)
    then show ?thesis by simp
  next
    case True
    define l where "l = py_lower h"
    define out where "out = py_slice l 0 8 @ ''-'' @ py_slice l 8 12 @ ''-'' @ py_slice l 12 16 @ ''-''
      @ py_slice l 16 20 @ ''-'' @ py_slice l 20 32"
    have hex: "list_all hex_char l" and len: "length l = 32"
      using True lower_hex by (auto simp: l_def py_lower_def list_all_iff)
    have out: "row_key s = out"
      using True unfolding row_key_def h_def [symmetric] Let_def out_def l_def by (rule if_P)
    have sub: "set (py_slice l i j) \<subseteq> set l" for i j
      by (auto simp: py_slice_def dest: in_set_takeD in_set_dropD)
    have chars: "c = CHR ''-'' \<or> hex_char c" if "c \<in> set out" for c
      using that sub hex unfolding out_def list_all_iff by fastforce
    have "CHR ''u'' \<notin> set out" using chars hex_no_sep by fastforce
    then have rem: "py_remove ''uuid:'' (py_remove ''urn:'' out) = out"
      by (simp add: py_remove_id [of "CHR ''u''"])
    have nb: "\<not> brace c" if "c \<in> set out" for c
      using chars [OF that] hex_no_sep by (auto simp: brace_def)
    have strip: "strip_braces out = out"
      using dropWhile_none [of out brace] dropWhile_none [of "rev out" brace] nb by (simp add: strip_braces_def)
    have keep: "filter (\<lambda>c. c \<noteq> CHR ''-'') (py_slice l i j) = py_slice l i j" for i j
      using sub hex hex_no_sep unfolding list_all_iff by (intro filter_True) blast
    have "l = take 8 l @ drop 8 l" "drop 8 l = take 4 (drop 8 l) @ drop 12 l"
      "drop 12 l = take 4 (drop 12 l) @ drop 16 l" "drop 16 l = take 4 (drop 16 l) @ drop 20 l"
      using append_take_drop_id [of 4 "drop 8 l"] append_take_drop_id [of 4 "drop 12 l"]
        append_take_drop_id [of 4 "drop 16 l"] by simp_all
    moreover have "take 12 (drop 20 l) = drop 20 l" using len by simp
    ultimately have join: "take 8 l @ take 4 (drop 8 l) @ take 4 (drop 12 l) @ take 4 (drop 16 l) @ take 12 (drop 20 l) = l"
      by presburger
    have "filter (\<lambda>c. c \<noteq> CHR ''-'') out = l"
      unfolding out_def by (simp add: keep) (simp add: py_slice_def join)
    then have "row_key out = py_slice (py_lower l) 0 8 @ ''-'' @ py_slice (py_lower l) 8 12 @ ''-''
        @ py_slice (py_lower l) 12 16 @ ''-'' @ py_slice (py_lower l) 16 20 @ ''-'' @ py_slice (py_lower l) 20 32"
      using hex len unfolding row_key_def rem strip Let_def by simp
    moreover have "py_lower l = l" by (simp add: l_def py_lower_def)
    ultimately show ?thesis by (simp add: out out_def)
  qed
qed

text \<open>Registry entries are canonical and finite in number: what \<open>register\<close> builds.\<close>

definition canonical :: "registry \<Rightarrow> bool" where
  "canonical rg \<longleftrightarrow> (\<forall>t. finite (rg_ids rg t) \<and> (\<forall>k \<in> rg_ids rg t. row_key k = k))"

lemma canonical_register:
  "canonical empty_registry"
  "canonical rg \<Longrightarrow> register t i rg = Inr rg' \<Longrightarrow> canonical rg' \<and> registry_active rg' \<and> row_key i \<in> rg_ids rg' t"
  "canonical rg \<Longrightarrow> unregister t i rg = Inr rg' \<Longrightarrow> canonical rg' \<and> row_key i \<notin> rg_ids rg' t"
  by (auto simp: canonical_def empty_registry_def register_def unregister_def check_table_def registry_active_def row_key_idem
      split: if_splits)

lemma unregister_all_ids:
  "table \<in> set LEASED_TABLES \<Longrightarrow>
   rg_ids (unregister_all table rids rg) t = (if t = table then rg_ids rg t - row_key ` set rids else rg_ids rg t) \<and>
   rg_used (unregister_all table rids rg) = rg_used rg"
  by (induction rids arbitrary: rg) (auto simp: unregister_all_def unregister_def check_table_def)

lemma extended_leased: "e \<in> set EXTENDED_TABLES \<Longrightarrow> fst e \<in> set LEASED_TABLES"
  by (auto simp: EXTENDED_TABLES_def LEASED_TABLES_def)

lemma extended_status: "(t, s) \<in> set EXTENDED_TABLES \<Longrightarrow> (t, s') \<in> set EXTENDED_TABLES \<Longrightarrow> s = s'"
  by (auto simp: EXTENDED_TABLES_def)

text \<open>One table of a scoped bump: the registry only shrinks, and rows outside it keep their lease.\<close>

lemma bump_table_scoped:
  assumes "(table, s) \<in> set EXTENDED_TABLES" "canonical rg"
    and b: "bump_table owner ttl now True (table, s) (rg, db) = (rg', db')"
  shows "canonical rg'" "rg_used rg' = rg_used rg" "rg_ids rg' t \<subseteq> rg_ids rg t" "wd_guards db' = wd_guards db"
    and "i \<notin> rg_ids rg t \<Longrightarrow> cols_of db' t i = cols_of db t i"
proof -
  have t: "table \<in> set LEASED_TABLES" using extended_leased [OF assms(1)] by simp
  note u = unregister_all_ids [OF t]
  have sub: "set (sorted_list_of_set (rg_ids rg table)) = rg_ids rg table"
    using assms(2) by (simp add: canonical_def)
  show "rg_used rg' = rg_used rg" "rg_ids rg' t \<subseteq> rg_ids rg t" "wd_guards db' = wd_guards db"
    using b t u by (auto simp: bump_table_def registered_ids_def check_table_def Let_def split: if_splits)
  have sub': "rg_ids rg' t' \<subseteq> rg_ids rg t'" for t'
    using b t u by (auto simp: bump_table_def registered_ids_def check_table_def Let_def split: if_splits)
  then show "canonical rg'" using assms(2) unfolding canonical_def by (meson finite_subset subsetD)
  show "cols_of db' t i = cols_of db t i" if "i \<notin> rg_ids rg t"
    using b t sub that cols_of_Some [of db t i]
    by (cases "cols_of db t i")
      (auto simp: bump_table_def registered_ids_def check_table_def Let_def cols_of_update split: if_splits)
qed

text \<open>A registered row that its owner still holds in progress stays registered, and its own table's turn renews it.\<close>

lemma bump_table_live:
  assumes "(table, s) \<in> set EXTENDED_TABLES" "canonical rg"
    and b: "bump_table owner ttl now True (table, s) (rg, db) = (rg', db')"
    and row: "cols_of db t i = Some c" "i \<in> rg_ids rg t" "lc_owner c = Some owner" "(t, lc_status c) \<in> set EXTENDED_TABLES"
  shows "i \<in> rg_ids rg' t"
    and "cols_of db' t i = Some (if table = t then c\<lparr>lc_expires := Some (now + ttl * SECOND)\<rparr> else c)"
proof -
  have t: "table \<in> set LEASED_TABLES" using extended_leased [OF assms(1)] by simp
  note u = unregister_all_ids [OF t]
  have key: "row_key k = k" if "k \<in> rg_ids rg table" for k
    using assms(2) that by (simp add: canonical_def)
  have sub: "set (sorted_list_of_set (rg_ids rg table)) = rg_ids rg table"
    using assms(2) by (simp add: canonical_def)
  have same: "table = t \<Longrightarrow> lc_status c = s" using extended_status assms(1) row(4) by blast
  have id: "lc_id c = i" "c \<in> set (lease_select db t)" using cols_of_Some [OF row(1)] by simp_all
  have ne: "table = t \<Longrightarrow> sorted_list_of_set (rg_ids rg table) \<noteq> []" using sub row(2) by force
  show "cols_of db' t i = Some (if table = t then c\<lparr>lc_expires := Some (now + ttl * SECOND)\<rparr> else c)"
    using b t sub ne row same id
    by (auto simp: bump_table_def registered_ids_def check_table_def Let_def cols_of_update split: if_splits)
  show "i \<in> rg_ids rg' t"
  proof (cases "table = t")
    case False
    then show ?thesis using b t u row(2)
      by (auto simp: bump_table_def registered_ids_def check_table_def Let_def split: if_splits)
  next
    case True
    let ?kept = "lc_id ` {x \<in> set (lease_select db t). lc_owner x = Some owner \<and> lc_status x = s \<and> lc_id x \<in> rg_ids rg t}"
    have "i \<in> ?kept" using id row same [OF True] by force
    then have "i \<notin> row_key ` {k \<in> rg_ids rg t. k \<notin> ?kept}" using key True by force
    then show ?thesis
      using b t u row(2) ne [OF True] sub True
      by (auto simp: bump_table_def registered_ids_def check_table_def Let_def sql_returning_def image_image
          split: if_splits)
  qed
qed

lemma bump_fold_scoped:
  assumes "set es \<subseteq> set EXTENDED_TABLES" "canonical rg"
    and "fold (bump_table owner ttl now True) es (rg, db) = (rg', db')"
  shows "canonical rg' \<and> rg_used rg' = rg_used rg \<and> rg_ids rg' t \<subseteq> rg_ids rg t \<and> wd_guards db' = wd_guards db
         \<and> (i \<notin> rg_ids rg t \<longrightarrow> cols_of db' t i = cols_of db t i)"
  using assms
proof (induction es arbitrary: rg db)
  case (Cons e es)
  obtain table s where e: "e = (table, s)" by (cases e)
  obtain rg1 db1 where b: "bump_table owner ttl now True (table, s) (rg, db) = (rg1, db1)" by fastforce
  have in_ext: "(table, s) \<in> set EXTENDED_TABLES" using Cons.prems e by simp
  note one = bump_table_scoped [OF in_ext Cons.prems(2) b]
  have "fold (bump_table owner ttl now True) es (rg1, db1) = (rg', db')" using Cons.prems(3) e b by simp
  from Cons.IH [OF _ one(1) this] Cons.prems(1) one(2,4) one(3) [of t] one(5) [of i t] show ?case by auto
qed simp

lemma bump_fold_live:
  assumes "set es \<subseteq> set EXTENDED_TABLES" "canonical rg"
    and "fold (bump_table owner ttl now True) es (rg, db) = (rg', db')"
    and "cols_of db t i = Some c" "i \<in> rg_ids rg t" "lc_owner c = Some owner" "(t, lc_status c) \<in> set EXTENDED_TABLES"
  shows "i \<in> rg_ids rg' t \<and>
         cols_of db' t i = Some (if t \<in> fst ` set es then c\<lparr>lc_expires := Some (now + ttl * SECOND)\<rparr> else c)"
  using assms
proof (induction es arbitrary: rg db c)
  case (Cons e es)
  obtain table s where e: "e = (table, s)" by (cases e)
  obtain rg1 db1 where b: "bump_table owner ttl now True (table, s) (rg, db) = (rg1, db1)" by fastforce
  define c1 where "c1 = (if table = t then c\<lparr>lc_expires := Some (now + ttl * SECOND)\<rparr> else c)"
  have in_ext: "(table, s) \<in> set EXTENDED_TABLES" using Cons.prems e by simp
  note one = bump_table_live [OF in_ext Cons.prems(2) b Cons.prems(4-7), folded c1_def]
  have c1: "lc_owner c1 = Some owner" "(t, lc_status c1) \<in> set EXTENDED_TABLES"
    using Cons.prems by (simp_all add: c1_def)
  have canon: "canonical rg1" using bump_table_scoped(1) [OF in_ext Cons.prems(2) b] .
  have "fold (bump_table owner ttl now True) es (rg1, db1) = (rg', db')" using Cons.prems(3) e b by simp
  from Cons.IH [OF _ canon this one(2) one(1) c1] Cons.prems(1) e show ?case by (simp add: c1_def)
qed simp

text \<open>A bump takes effect unless it was rolled back, and the renewals of a run that took effect.\<close>

definition took_effect :: "bump_outcome \<Rightarrow> bool" where
  "took_effect outcome \<longleftrightarrow> (case outcome of Bump_undone _ \<Rightarrow> False | _ \<Rightarrow> True)"

definition bumps :: "(utc \<times> bump_outcome) list \<Rightarrow> utc list" where
  "bumps ticks = map fst (filter (\<lambda>tick. took_effect (snd tick)) ticks)"

lemma extender_tick_scoped:
  assumes "canonical rg" "rg_used rg" "extender_tick owner ttl reset (now, outcome) (ex, rg, db) = (ex', rg', db')"
  shows "canonical rg' \<and> rg_used rg' \<and> rg_ids rg' t \<subseteq> rg_ids rg t \<and> wd_guards db' = wd_guards db
         \<and> (i \<notin> rg_ids rg t \<longrightarrow> cols_of db' t i = cols_of db t i)"
proof (cases "took_effect outcome")
  case True
  then have "fold (bump_table owner ttl now True) EXTENDED_TABLES (rg, db) = (rg', db')"
    using assms
    by (auto simp: extender_tick_def bump_once_def registry_active_def took_effect_def Let_def split: bump_outcome.splits)
  from bump_fold_scoped [OF subset_refl assms(1) this] assms(2) show ?thesis by simp
next
  case False
  then obtain k where k: "outcome = Bump_undone k" by (auto simp: took_effect_def split: bump_outcome.splits)
  define r where "r = fold (bump_table owner ttl now True) (take k EXTENDED_TABLES) (rg, db)"
  have "rg' = fst r" "db' = db" using assms k by (auto simp: extender_tick_def registry_active_def r_def Let_def)
  moreover have "fold (bump_table owner ttl now True) (take k EXTENDED_TABLES) (rg, db) = (fst r, snd r)"
    by (simp add: r_def)
  ultimately show ?thesis using bump_fold_scoped [OF set_take_subset assms(1)] assms(2) by blast
qed

lemma extender_tick_live:
  assumes "canonical rg" "rg_used rg" "extender_tick owner ttl reset (now, outcome) (ex, rg, db) = (ex', rg', db')"
    and "cols_of db t i = Some c" "i \<in> rg_ids rg t" "lc_owner c = Some owner" "(t, lc_status c) \<in> set EXTENDED_TABLES"
  shows "i \<in> rg_ids rg' t \<and>
         cols_of db' t i = Some (if took_effect outcome then c\<lparr>lc_expires := Some (now + ttl * SECOND)\<rparr> else c)"
proof (cases "took_effect outcome")
  case True
  then have "fold (bump_table owner ttl now True) EXTENDED_TABLES (rg, db) = (rg', db')"
    using assms
    by (auto simp: extender_tick_def bump_once_def registry_active_def took_effect_def Let_def split: bump_outcome.splits)
  moreover have "t \<in> fst ` set EXTENDED_TABLES" using assms(7) by force
  ultimately show ?thesis using bump_fold_live [OF subset_refl assms(1) _ assms(4-7)] True by auto
next
  case False
  then obtain k where k: "outcome = Bump_undone k" by (auto simp: took_effect_def split: bump_outcome.splits)
  define r where "r = fold (bump_table owner ttl now True) (take k EXTENDED_TABLES) (rg, db)"
  have "rg' = fst r" "db' = db" using assms k by (auto simp: extender_tick_def registry_active_def r_def Let_def)
  moreover have "fold (bump_table owner ttl now True) (take k EXTENDED_TABLES) (rg, db) = (fst r, snd r)"
    by (simp add: r_def)
  from bump_fold_live [OF set_take_subset assms(1) this assms(4-7)] have "i \<in> rg_ids (fst r) t" ..
  ultimately show ?thesis using assms(4) False by simp
qed

lemma extender_run_scoped:
  assumes "canonical rg" "rg_used rg" "extender_run owner ttl reset ticks (ex, rg, db) = (ex', rg', db')"
  shows "wd_guards db' = wd_guards db \<and> (i \<notin> rg_ids rg t \<longrightarrow> cols_of db' t i = cols_of db t i)"
  using assms
proof (induction ticks arbitrary: ex rg db)
  case (Cons tick ticks)
  obtain now outcome where tick: "tick = (now, outcome)" by (cases tick)
  obtain ex1 rg1 db1 where s: "extender_tick owner ttl reset tick (ex, rg, db) = (ex1, rg1, db1)"
    by (cases "extender_tick owner ttl reset tick (ex, rg, db)") auto
  note one = extender_tick_scoped [OF Cons.prems(1,2) s [unfolded tick], of t i]
  have "extender_run owner ttl reset ticks (ex1, rg1, db1) = (ex', rg', db')"
    using Cons.prems(3) s by (simp add: extender_run_def)
  from Cons.IH [OF _ _ this] one show ?case by auto
qed (simp add: extender_run_def)

lemma extender_run_live:
  assumes "canonical rg" "rg_used rg" "extender_run owner ttl reset ticks (ex, rg, db) = (ex', rg', db')"
    and "cols_of db t i = Some c" "i \<in> rg_ids rg t" "lc_owner c = Some owner" "(t, lc_status c) \<in> set EXTENDED_TABLES"
  shows "i \<in> rg_ids rg' t \<and>
         cols_of db' t i = Some (if bumps ticks = [] then c else c\<lparr>lc_expires := Some (last (bumps ticks) + ttl * SECOND)\<rparr>)"
  using assms
proof (induction ticks arbitrary: ex rg db c)
  case (Cons tick ticks)
  obtain now outcome where tick: "tick = (now, outcome)" by (cases tick)
  obtain ex1 rg1 db1 where s: "extender_tick owner ttl reset tick (ex, rg, db) = (ex1, rg1, db1)"
    by (cases "extender_tick owner ttl reset tick (ex, rg, db)") auto
  define c1 where "c1 = (if took_effect outcome then c\<lparr>lc_expires := Some (now + ttl * SECOND)\<rparr> else c)"
  note one = extender_tick_live [OF Cons.prems(1,2) s [unfolded tick] Cons.prems(4-7), folded c1_def]
  note inv = extender_tick_scoped [OF Cons.prems(1,2) s [unfolded tick], of t i]
  have c1: "lc_owner c1 = Some owner" "(t, lc_status c1) \<in> set EXTENDED_TABLES"
    using Cons.prems by (simp_all add: c1_def)
  have run: "extender_run owner ttl reset ticks (ex1, rg1, db1) = (ex', rg', db')"
    using Cons.prems(3) s by (simp add: extender_run_def)
  have "i \<in> rg_ids rg' t \<and>
         cols_of db' t i = Some (if bumps ticks = [] then c1 else c1\<lparr>lc_expires := Some (last (bumps ticks) + ttl * SECOND)\<rparr>)"
    using inv one c1 by (intro Cons.IH [OF _ _ run]) auto
  then show ?case by (auto simp: c1_def tick bumps_def)
qed (simp_all add: extender_run_def bumps_def)

lemma extender_run_keys:
  "keys_ok db \<Longrightarrow> extender_run owner ttl reset ticks (ex, rg, db) = (ex', rg', db') \<Longrightarrow> keys_ok db'"
proof (induction ticks arbitrary: ex rg db)
  case (Cons tick ticks)
  obtain now outcome where tick: "tick = (now, outcome)" by (cases tick)
  obtain ex1 rg1 db1 where s: "extender_tick owner ttl reset tick (ex, rg, db) = (ex1, rg1, db1)"
    by (cases "extender_tick owner ttl reset tick (ex, rg, db)") auto
  have "fence_le db db1"
    using s fence_le_bump [of "(rg, db)" owner ttl now]
    by (cases outcome) (auto simp: tick extender_tick_def Let_def)
  with Cons.prems(1) have "keys_ok db1" by (simp add: fence_le_def)
  then show ?case using Cons.IH [of db1 ex1 rg1] Cons.prems(2) s by (simp add: extender_run_def)
qed (simp add: extender_run_def)
text \<open>
  C15. Renewal covers live handlers only. Take a row in progress, a process whose handlers have used the
  registry, and any run of its lease extender, with any pattern of failed and of late bumps. If no handler has the
  row registered, the run leaves its lease exactly as it was, so that once the lease lapses any worker's
  claim takes the row, with the next token. If a handler has it registered and the process owns it, the
  row stays registered and its lease runs \<open>ttl\<close> seconds past the last bump that took effect, so that no
  claim before that succeeds.
\<close>

theorem renewal_covers_live_handlers_only:
  assumes "keys_ok db" "canonical rg" "registry_active rg"
    and "cols_of db t i = Some c" "(t, lc_status c) \<in> set EXTENDED_TABLES"
    and run: "extender_run owner ttl reset ticks (ex, rg, db) = (ex', rg', db')"
  shows "(i \<notin> rg_ids rg t \<and> lapsed now (lc_expires c) \<and> copy_ready gc now (wd_guards db) (copy_scope t i) \<longrightarrow>
            cols_of db' t i = Some c \<and>
            (\<exists>l db''. claim gc now t i worker (lc_status c) ttl' db' = Inr (Some l, db'') \<and> le_token l = lc_token c + 1)) \<and>
         (i \<in> rg_ids rg t \<and> lc_owner c = Some owner \<and> bumps ticks \<noteq> [] \<longrightarrow>
            i \<in> rg_ids rg' t \<and> cols_of db' t i = Some (c\<lparr>lc_expires := Some (last (bumps ticks) + ttl * SECOND)\<rparr>) \<and>
            (now \<le> last (bumps ticks) + ttl * SECOND \<longrightarrow> claim gc now t i worker st ttl' db' = Inr (None, db')))"
proof -
  have used: "rg_used rg" using assms(3) by (simp add: registry_active_def)
  have t: "t \<in> set LEASED_TABLES" using extended_leased [OF assms(5)] by simp
  have keys: "keys_ok db'" using extender_run_keys [OF assms(1) run] .
  note frame = extender_run_scoped [OF assms(2) used run, of i t]
  have "cols_of db' t i = Some c \<and>
       (\<exists>l db''. claim gc now t i worker (lc_status c) ttl' db' = Inr (Some l, db'') \<and> le_token l = lc_token c + 1)"
    if "i \<notin> rg_ids rg t" "lapsed now (lc_expires c)" "copy_ready gc now (wd_guards db) (copy_scope t i)"
  proof -
    have c: "cols_of db' t i = Some c" using frame that(1) assms(4) by simp
    have "claimable gc now db' t i (lc_status c) c"
      using that cols_of_Some [OF assms(4)] frame by (simp add: claimable_def)
    from claim_taken [OF keys t c this] c show ?thesis by simp
  qed
  moreover have "i \<in> rg_ids rg' t \<and> cols_of db' t i = Some (c\<lparr>lc_expires := Some (last (bumps ticks) + ttl * SECOND)\<rparr>) \<and>
       (now \<le> last (bumps ticks) + ttl * SECOND \<longrightarrow> claim gc now t i worker st ttl' db' = Inr (None, db'))"
    if "i \<in> rg_ids rg t" "lc_owner c = Some owner" "bumps ticks \<noteq> []"
    using extender_run_live [OF assms(2) used run assms(4) that(1,2) assms(5)] that(3)
      claim_refused [OF keys t, of i gc now st worker ttl'] by (auto simp: claimable_def lapsed_def)
  ultimately show ?thesis by blast
qed

section \<open>A sample state\<close>

definition sample_part :: partition_row where
  "sample_part =
     \<lparr>w_id = ''p1'', w_status = ''IN_PROGRESS'', w_owner = Some ''wA'', w_expires = Some (600 * SECOND), w_token = 4,
      pt_snapshot_id = ''s1'', pt_tenant_id = ''t1'', pt_resource_id = ''r1'', pt_job_id = ''j1'', pt_type = ''CHATS'',
      pt_index = 0, pt_drive_id = None, pt_file_ids = None, pt_payload = Some ''{}'', pt_worker_id = Some ''worker-a'',
      pt_worker_region = None, pt_retry_count = 0, pt_enqueued_at = 0, pt_started_at = Some SECOND, pt_completed_at = None,
      pt_files_uploaded = 0, pt_bytes_uploaded = 0, pt_failure_state = None, pt_requeue_count = 0\<rparr>"

definition sample_snap :: snap_row where
  "sample_snap =
     \<lparr>w_id = ''s1'', w_status = S_IN_PROGRESS, w_owner = Some ''wA'', w_expires = Some (600 * SECOND), w_token = 1,
      sn_resource_id = ''r1'', sn_job_id = Some ''j1'', sn_type = T_INCREMENTAL, sn_started_at = Some 0,
      sn_created_at = Some 0, sn_completed_at = None, sn_duration_secs = None, sn_item_count = Some 0,
      sn_bytes_total = Some 0, sn_extra = None, sn_reuse_of = None, sn_reuse_root = None, sn_overlay_base = None,
      sn_hc_drain = Some ''NOT_APPLICABLE'', sn_delta_token = None,
      sn_delta_tokens = None\<rparr>"

definition sample_job_row :: job_row where
  "sample_job_row =
     \<lparr>w_id = ''j1'', w_status = J_RUNNING, w_owner = None, w_expires = None, w_token = 0, jr_batch_id = None,
      jr_completed_at = None\<rparr>"

definition sample_work :: work_db where
  "sample_work =
     \<lparr>wd_jobs = [sample_job_row], wd_snapshots = [sample_snap],
      wd_partitions = [sample_part, sample_part\<lparr>w_id := ''p2'', pt_index := 1\<rparr>],
      wd_items = [], wd_heartbeats = [\<lparr>hb_worker_id = ''wA'', hb_replica_id = ''pod-1'', hb_last_seen_at = 0\<rparr>],
      wd_guards = empty_guards\<rparr>"

lemmas sample_work_defs = sample_work_def sample_part_def sample_snap_def sample_job_row_def

lemma sample_work_keys: "keys_ok sample_work"
  by (simp add: keys_ok_def lease_select_def sample_work_defs cols_def)

lemma sample_work_part: "cols_of sample_work ''snapshot_partitions'' ''p1'' = Some (cols id sample_part)"
  "cols_of sample_work ''snapshot_partitions'' ''p2'' = Some (cols id (sample_part\<lparr>w_id := ''p2''\<rparr>))"
  by (simp_all add: cols_of_def lease_select_def sample_work_defs cols_def)

text \<open>Only the second shard is registered; two bumps, the second one failing.\<close>

definition sample_registry :: registry where
  "sample_registry = \<lparr>rg_ids = (\<lambda>t. if t = ''snapshot_partitions'' then {''p2''} else {}), rg_used = True\<rparr>"

lemma sample_registry_canonical: "canonical sample_registry"
proof -
  have "row_key ''p2'' = ''p2''" by code_simp
  then show ?thesis by (simp add: canonical_def sample_registry_def)
qed

theorem renewal_covers_live_handlers_only_witness:
  "(\<exists>l db''. claim sweep_ctx (601 * SECOND) ''snapshot_partitions'' ''p1'' ''wB'' ''IN_PROGRESS'' 600
      (snd (snd (extender_run ''wA'' 600 6 [(120 * SECOND, Bump_ok), (240 * SECOND, Bump_undone 1), (360 * SECOND, Bump_late)]
        (\<lparr>ex_failures = 0, ex_resets = 0\<rparr>, sample_registry, sample_work)))) = Inr (Some l, db'') \<and> le_token l = 5) \<and>
   ''p2'' \<in> rg_ids (fst (snd (extender_run ''wA'' 600 6 [(120 * SECOND, Bump_ok), (240 * SECOND, Bump_undone 1), (360 * SECOND, Bump_late)]
        (\<lparr>ex_failures = 0, ex_resets = 0\<rparr>, sample_registry, sample_work)))) ''snapshot_partitions''"
proof -
  let ?run = "extender_run ''wA'' 600 6 [(120 * SECOND, Bump_ok), (240 * SECOND, Bump_undone 1), (360 * SECOND, Bump_late)]
        (\<lparr>ex_failures = 0, ex_resets = 0\<rparr>, sample_registry, sample_work)"
  have run: "?run = (fst ?run, fst (snd ?run), snd (snd ?run))" by simp
  have active: "registry_active sample_registry" by (simp add: registry_active_def sample_registry_def)
  have part: "lc_status (cols id sample_part) = ''IN_PROGRESS''" "lc_token (cols id sample_part) = 4"
    "lc_expires (cols id sample_part) = Some (600 * SECOND)"
    by (simp_all add: cols_def sample_part_def)
  have part2: "lc_status (cols id (sample_part\<lparr>w_id := ''p2''\<rparr>)) = ''IN_PROGRESS''"
    "lc_owner (cols id (sample_part\<lparr>w_id := ''p2''\<rparr>)) = Some ''wA''"
    by (simp_all add: cols_def sample_part_def)
  have ext: "(''snapshot_partitions'', ''IN_PROGRESS'') \<in> set EXTENDED_TABLES" by (simp add: EXTENDED_TABLES_def)
  have free: "lapsed (601 * SECOND) (Some (600 * SECOND))" "''p1'' \<notin> rg_ids sample_registry ''snapshot_partitions''"
    "copy_ready sweep_ctx (601 * SECOND) (wd_guards sample_work) (copy_scope ''snapshot_partitions'' ''p1'')"
    by (simp_all add: lapsed_def SECOND_def sample_registry_def copy_scope_def sample_work_def)
  have p1: "\<exists>l db''. claim sweep_ctx (601 * SECOND) ''snapshot_partitions'' ''p1'' ''wB'' ''IN_PROGRESS'' 600 (snd (snd ?run))
      = Inr (Some l, db'') \<and> le_token l = 4 + 1"
    using renewal_covers_live_handlers_only [OF sample_work_keys sample_registry_canonical active sample_work_part(1)
        ext [folded part(1)] run, of "601 * SECOND" sweep_ctx "''wB''" 600] free part by simp
  have "''p2'' \<in> rg_ids sample_registry ''snapshot_partitions''" by (simp add: sample_registry_def)
  moreover have "bumps [(120 * SECOND, Bump_ok), (240 * SECOND, Bump_undone 1), (360 * SECOND, Bump_late)] \<noteq> []" by (simp add: bumps_def took_effect_def)
  ultimately have "''p2'' \<in> rg_ids (fst (snd ?run)) ''snapshot_partitions''"
    using renewal_covers_live_handlers_only [OF sample_work_keys sample_registry_canonical active sample_work_part(2)
        ext [folded part2(1)] run, of 0 sweep_ctx "''wB''" 600] part2(2) by blast
  with p1 show ?thesis by simp
qed

end
