(* ===== verification/Shards.thy ===== *)
theory Shards
  imports Lease
begin

text \<open>
  The life of one shard of a partitioned snapshot in the backup worker
  (\<open>workers/backup-worker/main.py\<close>): claiming the row, the fence every later write carries, the
  terminal write with its release fallback, and handing the shard back for another attempt; and the
  bounded retry those writes run under (\<open>shared/db_retry.py\<close>).

  The handlers are those of an ordinary delivery: no provider continuation is being resumed
  (\<open>current_claim()\<close> is \<open>None\<close>) and no copy workflow (\<open>verify_copy_resume\<close> then returns \<open>True\<close>). A
  database round-trip may fail, transiently or not, before or after the server committed it.
\<close>

section \<open>Bounded retry\<close>

datatype db_fault =
    No_fault
  | Transient bool     \<comment> \<open>raised a transient error; the flag: had the statement been committed?\<close>
  | Fatal bool         \<comment> \<open>raised any other error; likewise\<close>

text \<open>The argument counts the attempts left; the fault of each attempt is looked up by that number.\<close>

fun retry_from :: "nat \<Rightarrow> ('s \<Rightarrow> 'r \<times> 's) \<Rightarrow> (nat \<Rightarrow> db_fault) \<Rightarrow> 's \<Rightarrow> 'r option \<times> 's" where
  "retry_from 0 op faults s = (None, s)"
| "retry_from (Suc n) op faults s =
     (case faults n of
        No_fault \<Rightarrow> (case op s of (r, s') \<Rightarrow> (Some r, s'))
      | Transient landed \<Rightarrow> retry_from n op faults (if landed then snd (op s) else s)
      | Fatal landed \<Rightarrow> (None, if landed then snd (op s) else s))"

definition run_with_db_retry :: "nat \<Rightarrow> ('s \<Rightarrow> 'r \<times> 's) \<Rightarrow> (nat \<Rightarrow> db_fault) \<Rightarrow> 's \<Rightarrow> 'r option \<times> 's" where
  "run_with_db_retry attempts op faults s = retry_from (max 1 attempts) op faults s"

section \<open>The lease of a handler\<close>

record shard_lease =
  sl_partition_id :: string
  sl_snapshot_id :: string
  sl_lease :: lease
  sl_stolen :: bool

text \<open>\<open>_bind_partition_lease\<close>: what a successful claim returned, bound to the handler task.\<close>

definition bind_partition_lease :: "string \<Rightarrow> partition_row option \<Rightarrow> shard_lease option" where
  "bind_partition_lease partition_id row =
     (case row of
        None \<Rightarrow> None
      | Some r \<Rightarrow>
          Some \<lparr>sl_partition_id = partition_id, sl_snapshot_id = pt_snapshot_id r,
                sl_lease = \<lparr>le_table = ''snapshot_partitions'', le_work_id = partition_id, le_owner_id = w_owner r,
                            le_token = w_token r\<rparr>,
                sl_stolen = False\<rparr>)"

definition partition_lease_record :: "shard_lease option \<Rightarrow> string \<Rightarrow> shard_lease option" where
  "partition_lease_record ctx partition_id =
     (case ctx of None \<Rightarrow> None | Some rec \<Rightarrow> if sl_partition_id rec = partition_id then Some rec else None)"

text \<open>The predicate \<open>_partition_lease_fence\<close> appends; none outside a claimed handler.\<close>

definition partition_lease_fence :: "shard_lease option \<Rightarrow> string \<Rightarrow> partition_row \<Rightarrow> bool" where
  "partition_lease_fence ctx partition_id r \<longleftrightarrow>
     (case partition_lease_record ctx partition_id of
        None \<Rightarrow> True
      | Some rec \<Rightarrow>
          (le_owner_id (sl_lease rec) = None \<or> w_owner r = le_owner_id (sl_lease rec)) \<and>
          w_token r = le_token (sl_lease rec))"

definition partition_lease_moved :: "string \<Rightarrow> lease \<Rightarrow> work_db \<Rightarrow> bool" where
  "partition_lease_moved partition_id l db =
     (case row_of partition_id (wd_partitions db) of
        None \<Rightarrow> True
      | Some r \<Rightarrow> w_token r \<noteq> le_token l \<or> (le_owner_id l \<noteq> None \<and> w_owner r \<noteq> le_owner_id l))"

definition note_partition_lease_stolen :: "shard_lease option \<Rightarrow> string \<Rightarrow> shard_lease option" where
  "note_partition_lease_stolen ctx partition_id =
     (case partition_lease_record ctx partition_id of
        None \<Rightarrow> ctx
      | Some rec \<Rightarrow> Some (rec\<lparr>sl_stolen := True\<rparr>))"

section \<open>Claiming a shard\<close>

definition shard_claimable :: "guard_ctx \<Rightarrow> utc \<Rightarrow> int \<Rightarrow> guard_db \<Rightarrow> string \<Rightarrow> partition_row \<Rightarrow> bool" where
  "shard_claimable gc now stale_min g partition_id r \<longleftrightarrow>
     w_id r = partition_id \<and> copy_ready gc now g (partition_scope (w_id r)) \<and>
     (w_status r = ''QUEUED'' \<or>
      (w_status r = ''IN_PROGRESS'' \<and>
       (case pt_started_at r of None \<Rightarrow> False | Some t \<Rightarrow> t < now - stale_min * 60 * SECOND) \<and>
       lapsed now (w_expires r)))"

definition shard_claim_set :: "utc \<Rightarrow> string \<Rightarrow> string \<Rightarrow> string option \<Rightarrow> int \<Rightarrow> partition_row \<Rightarrow> partition_row" where
  "shard_claim_set now worker_id region owner_uuid ttl r =
     r\<lparr>w_status := ''IN_PROGRESS'',
       w_owner := (case owner_uuid of None \<Rightarrow> w_owner r | Some u \<Rightarrow> Some u),
       w_expires := (case owner_uuid of None \<Rightarrow> w_expires r | Some _ \<Rightarrow> Some (now + ttl * SECOND)),
       w_token := w_token r + 1,
       pt_worker_id := Some worker_id, pt_worker_region := Some region, pt_started_at := Some now\<rparr>"

definition claim_partition ::
    "guard_ctx \<Rightarrow> utc \<Rightarrow> int \<Rightarrow> string \<Rightarrow> string \<Rightarrow> string \<Rightarrow> string option \<Rightarrow> registry \<times> work_db \<Rightarrow>
     partition_row option \<times> shard_lease option \<times> registry \<times> work_db" where
  "claim_partition gc now stale_min partition_id worker_id region owner_uuid st =
     (case st of (rg, db) \<Rightarrow>
        let p = shard_claimable gc now stale_min (wd_guards db) partition_id;
            f = shard_claim_set now worker_id region owner_uuid LEASE_TTL_S;
            db' = db\<lparr>wd_partitions := sql_update p f (wd_partitions db)\<rparr>
        in (case sql_returning p f (wd_partitions db) of
              [] \<Rightarrow> (None, None, rg, db')
            | r # _ \<Rightarrow>
                (Some r, bind_partition_lease partition_id (Some r),
                 (case owner_uuid of
                    None \<Rightarrow> rg
                  | Some _ \<Rightarrow> (case register ''snapshot_partitions'' partition_id rg of Inl _ \<Rightarrow> rg | Inr rg' \<Rightarrow> rg')),
                 db')))"

section \<open>The terminal write\<close>

definition shard_terminal :: "string \<Rightarrow> bool" where
  "shard_terminal st \<longleftrightarrow> st = ''COMPLETED'' \<or> st = ''FAILED''"

record shard_outcome =
  so_status :: string
  so_files :: int
  so_bytes :: int
  so_failure :: "json_obj option"      \<comment> \<open>\<open>None\<close> also for an empty dict\<close>

definition terminal_where :: "guard_ctx \<Rightarrow> utc \<Rightarrow> guard_db \<Rightarrow> shard_lease option \<Rightarrow> string \<Rightarrow> partition_row \<Rightarrow> bool" where
  "terminal_where gc now g ctx partition_id r \<longleftrightarrow>
     w_id r = partition_id \<and> \<not> shard_terminal (w_status r) \<and> copy_ready gc now g (partition_scope (w_id r)) \<and>
     partition_lease_fence ctx partition_id r"

definition terminal_set :: "utc \<Rightarrow> shard_outcome \<Rightarrow> partition_row \<Rightarrow> partition_row" where
  "terminal_set now oc r =
     r\<lparr>w_status := so_status oc, pt_completed_at := Some now, pt_files_uploaded := so_files oc,
       pt_bytes_uploaded := so_bytes oc,
       pt_failure_state := (case so_failure oc of None \<Rightarrow> pt_failure_state r | Some m \<Rightarrow> Some m)\<rparr>"

text \<open>\<open>_write_terminal\<close>: the statement, and whether a match of no row means the lease moved on.\<close>

definition write_terminal ::
    "guard_ctx \<Rightarrow> utc \<Rightarrow> shard_lease option \<Rightarrow> string \<Rightarrow> shard_outcome \<Rightarrow> work_db \<Rightarrow> bool \<times> work_db" where
  "write_terminal gc now ctx partition_id oc db =
     (let p = terminal_where gc now (wd_guards db) ctx partition_id;
          db' = db\<lparr>wd_partitions := sql_update p (terminal_set now oc) (wd_partitions db)\<rparr>;
          stolen = (case partition_lease_record ctx partition_id of
                      None \<Rightarrow> False
                    | Some rec \<Rightarrow> filter p (wd_partitions db) = [] \<and> partition_lease_moved partition_id (sl_lease rec) db')
      in (stolen, db'))"

definition release_to_queued :: "utc \<Rightarrow> shard_lease option \<Rightarrow> string \<Rightarrow> work_db \<Rightarrow> unit \<times> work_db" where
  "release_to_queued now ctx partition_id db =
     ((), db\<lparr>wd_partitions :=
            sql_update (\<lambda>r. w_id r = partition_id \<and> \<not> shard_terminal (w_status r) \<and> partition_lease_fence ctx partition_id r)
              (\<lambda>r. r\<lparr>w_status := ''QUEUED'', w_owner := None, w_expires := None, pt_enqueued_at := now\<rparr>)
              (wd_partitions db)\<rparr>)"

definition drop_registration :: "string \<Rightarrow> registry \<Rightarrow> registry" where
  "drop_registration partition_id rg =
     (case unregister ''snapshot_partitions'' partition_id rg of Inl _ \<Rightarrow> rg | Inr rg' \<Rightarrow> rg')"

text \<open>
  \<open>_mark_partition_terminal\<close>: eight attempts at the write; on exhaustion three at releasing the row, and
  the error is raised again either way (\<open>Inl\<close>). Whatever happens, the row is unregistered.
\<close>

definition mark_partition_terminal ::
    "guard_ctx \<Rightarrow> utc \<Rightarrow> (nat \<Rightarrow> db_fault) \<Rightarrow> (nat \<Rightarrow> db_fault) \<Rightarrow> shard_lease option \<Rightarrow> string \<Rightarrow> shard_outcome \<Rightarrow>
     registry \<times> work_db \<Rightarrow> bool result \<times> shard_lease option \<times> registry \<times> work_db" where
  "mark_partition_terminal gc now faults release_faults ctx partition_id oc st =
     (case st of (rg, db) \<Rightarrow>
       (case run_with_db_retry 8 (write_terminal gc now ctx partition_id oc) faults db of
          (Some stolen, db') \<Rightarrow>
            (Inr (\<not> stolen), (if stolen then note_partition_lease_stolen ctx partition_id else ctx),
             drop_registration partition_id rg, db')
        | (None, db') \<Rightarrow>
            (Inl (LibraryError ''partition terminal write''), ctx, drop_registration partition_id rg,
             snd (run_with_db_retry 3 (release_to_queued now ctx partition_id) release_faults db'))))"

section \<open>Handing a shard back\<close>

definition PARTITION_MAX_RETRIES :: int where
  "PARTITION_MAX_RETRIES = 5"

definition requeue_where :: "int \<Rightarrow> shard_lease option \<Rightarrow> string \<Rightarrow> partition_row \<Rightarrow> bool" where
  "requeue_where cap ctx partition_id r \<longleftrightarrow>
     w_id r = partition_id \<and> w_status r = ''IN_PROGRESS'' \<and> pt_retry_count r < cap \<and>
     partition_lease_fence ctx partition_id r"

text \<open>\<open>NOW()\<close> inside the JSON object is rendered by the server: the parameter \<open>ts_text\<close>.\<close>

definition requeue_set :: "(utc \<Rightarrow> string) \<Rightarrow> utc \<Rightarrow> string \<Rightarrow> string \<Rightarrow> partition_row \<Rightarrow> partition_row" where
  "requeue_set ts_text now reason msg r =
     r\<lparr>w_status := ''QUEUED'', w_owner := None, w_expires := None, w_token := w_token r + 1,
       pt_retry_count := pt_retry_count r + 1, pt_enqueued_at := now,
       pt_failure_state := json_merge (pt_failure_state r)
         [''last_retry_reason'' \<mapsto> JString reason,
          ''last_retry_message'' \<mapsto> JString (filter (\<lambda>c. c \<noteq> char_of (0 :: nat)) (take 500 msg)),
          ''last_retry_at'' \<mapsto> JString (ts_text now)]\<rparr>"

definition write_requeue ::
    "(utc \<Rightarrow> string) \<Rightarrow> utc \<Rightarrow> int \<Rightarrow> shard_lease option \<Rightarrow> string \<Rightarrow> string \<Rightarrow> string \<Rightarrow> work_db \<Rightarrow> int option \<times> work_db" where
  "write_requeue ts_text now cap ctx partition_id reason msg db =
     (let p = requeue_where cap ctx partition_id; f = requeue_set ts_text now reason msg
      in (case sql_returning p f (wd_partitions db) of [] \<Rightarrow> None | r # _ \<Rightarrow> Some (pt_retry_count r),
          db\<lparr>wd_partitions := sql_update p f (wd_partitions db)\<rparr>))"

definition write_retry_release :: "utc \<Rightarrow> int \<Rightarrow> shard_lease option \<Rightarrow> string \<Rightarrow> work_db \<Rightarrow> int option \<times> work_db" where
  "write_retry_release now cap ctx partition_id db =
     (let p = (\<lambda>r. w_id r = partition_id \<and> \<not> shard_terminal (w_status r) \<and> pt_retry_count r < cap \<and>
                   partition_lease_fence ctx partition_id r);
          f = (\<lambda>r. r\<lparr>w_status := ''QUEUED'', w_owner := None, w_expires := None,
                     pt_retry_count := pt_retry_count r + 1, pt_enqueued_at := now\<rparr>)
      in (case sql_returning p f (wd_partitions db) of [] \<Rightarrow> None | r # _ \<Rightarrow> Some (pt_retry_count r),
          db\<lparr>wd_partitions := sql_update p f (wd_partitions db)\<rparr>))"

definition requeue_partition_for_retry ::
    "(utc \<Rightarrow> string) \<Rightarrow> utc \<Rightarrow> int \<Rightarrow> (nat \<Rightarrow> db_fault) \<Rightarrow> (nat \<Rightarrow> db_fault) \<Rightarrow> shard_lease option \<Rightarrow> string \<Rightarrow> string \<Rightarrow> string \<Rightarrow>
     registry \<times> work_db \<Rightarrow> int option result \<times> registry \<times> work_db" where
  "requeue_partition_for_retry ts_text now cap faults release_faults ctx partition_id reason msg st =
     (case st of (rg, db) \<Rightarrow>
       (case run_with_db_retry 8 (write_requeue ts_text now cap ctx partition_id reason msg) faults db of
          (Some n, db') \<Rightarrow> (Inr n, drop_registration partition_id rg, db')
        | (None, db') \<Rightarrow>
            (case run_with_db_retry 8 (write_retry_release now cap ctx partition_id) release_faults db' of
               (Some n, db'') \<Rightarrow> (Inr n, drop_registration partition_id rg, db'')
             | (None, db'') \<Rightarrow>
                 (Inl (LibraryError ''partition release''), drop_registration partition_id rg, db''))))"

text \<open>
  \<open>_partition_retry_or_fail\<close> without its audit events: a transient database error requeues the shard
  while its retry budget lasts; everything else is terminal. The result is what it returns, or the
  raise that leaves it.
\<close>

definition partition_retry_or_fail ::
    "guard_ctx \<Rightarrow> (utc \<Rightarrow> string) \<Rightarrow> utc \<Rightarrow> bool \<Rightarrow> string \<Rightarrow> string \<Rightarrow> string \<Rightarrow> string \<Rightarrow>
     (nat \<Rightarrow> db_fault) \<Rightarrow> (nat \<Rightarrow> db_fault) \<Rightarrow> (nat \<Rightarrow> db_fault) \<Rightarrow> (nat \<Rightarrow> db_fault) \<Rightarrow> shard_lease option \<Rightarrow> string \<Rightarrow>
     registry \<times> work_db \<Rightarrow> string result \<times> shard_lease option \<times> registry \<times> work_db" where
  "partition_retry_or_fail gc ts_text now transient exc_name exc_text label phase f1 f2 f3 f4 ctx partition_id st =
     (let fail = (\<lambda>st'.
            let oc = \<lparr>so_status = ''FAILED'', so_files = 0, so_bytes = 0,
                      so_failure = Some [''reason'' \<mapsto> JString exc_name, ''message'' \<mapsto> JString (take 500 exc_text)]\<rparr>
            in case mark_partition_terminal gc now f3 f4 ctx partition_id oc st' of
                 (Inl e, ctx', st'') \<Rightarrow> (Inl e, ctx', st'')
               | (Inr _, ctx', st'') \<Rightarrow> (Inr ''FAILED'', ctx', st''))
      in if transient
         then (case requeue_partition_for_retry ts_text now PARTITION_MAX_RETRIES f1 f2 ctx partition_id
                      (''transient_db_error_'' @ phase) label st of
                 (Inl e, st') \<Rightarrow> (Inl e, ctx, st')
               | (Inr (Some n), st') \<Rightarrow> (Inr ''QUEUED'', ctx, st')
               | (Inr None, st') \<Rightarrow> fail st')
         else fail st)"

section \<open>Tokens by table\<close>

lemma find_map_cols: "find (\<lambda>c. lc_id c = i) (map (cols txt) rows) = map_option (cols txt) (row_of i rows)"
  by (induction rows) (auto simp: row_of_def cols_def)

lemma token_of_tables:
  "token_of db (''jobs'', i) = map_option w_token (row_of i (wd_jobs db))"
  "token_of db (''snapshots'', i) = map_option w_token (row_of i (wd_snapshots db))"
  "token_of db (''snapshot_partitions'', i) = map_option w_token (row_of i (wd_partitions db))"
  by (simp_all add: token_of_def cols_of_def lease_select_def find_map_cols cols_def option.map_comp comp_def)

lemma token_of_other: "t \<notin> set LEASED_TABLES \<Longrightarrow> token_of db (t, i) = None"
  by (simp add: token_of_def cols_of_def lease_select_def LEASED_TABLES_def)

lemma map_id_cols: "map lc_id (map (cols txt) rows) = ids rows"
  by (simp add: ids_def cols_def comp_def)

lemma keys_ok_tables:
  "keys_ok db \<longleftrightarrow> distinct (ids (wd_jobs db)) \<and> distinct (ids (wd_snapshots db)) \<and> distinct (ids (wd_partitions db))"
  (is "_ \<longleftrightarrow> ?d")
proof
  assume "keys_ok db"
  then have "distinct (map lc_id (lease_select db ''jobs''))" "distinct (map lc_id (lease_select db ''snapshots''))"
    "distinct (map lc_id (lease_select db ''snapshot_partitions''))" unfolding keys_ok_def by blast+
  then show ?d by (simp add: lease_select_def map_id_cols del: map_map)
next
  assume ?d
  then show "keys_ok db" by (simp add: keys_ok_def lease_select_def map_id_cols del: map_map)
qed

text \<open>Statements on whole rows: they keep identifiers and lower no token, or delete rows.\<close>

definition advances :: "(('st, 'a) work_row_scheme \<Rightarrow> ('st, 'a) work_row_scheme) \<Rightarrow> bool" where
  "advances f \<longleftrightarrow> (\<forall>r. w_id (f r) = w_id r \<and> w_token r \<le> w_token (f r))"

definition rows_le :: "('st, 'a) work_row_scheme list \<Rightarrow> ('st, 'a) work_row_scheme list \<Rightarrow> bool" where
  "rows_le rows rows' \<longleftrightarrow>
     (distinct (ids rows) \<longrightarrow> distinct (ids rows')) \<and>
     (\<forall>i. (row_of i rows = None \<longrightarrow> row_of i rows' = None) \<and>
          (\<forall>r r'. row_of i rows = Some r \<longrightarrow> row_of i rows' = Some r' \<longrightarrow> w_token r \<le> w_token r'))"

lemma rows_le_refl [simp]: "rows_le rows rows"
  by (simp add: rows_le_def)

lemma rows_le_update: "advances f \<Longrightarrow> rows_le rows (sql_update p f rows)"
  by (auto simp: rows_le_def advances_def row_of_sql_update split: if_splits)

lemma fence_le_rows:
  assumes "rows_le (wd_jobs db) (wd_jobs db')" "rows_le (wd_snapshots db) (wd_snapshots db')"
    "rows_le (wd_partitions db) (wd_partitions db')"
  shows "fence_le db db'"
proof -
  have "(token_of db (t, i) = None \<longrightarrow> token_of db' (t, i) = None) \<and>
        (\<forall>n m. token_of db (t, i) = Some n \<longrightarrow> token_of db' (t, i) = Some m \<longrightarrow> n \<le> m)" for t i
  proof (cases "t \<in> set LEASED_TABLES")
    case True
    then consider "t = ''jobs''" | "t = ''snapshots''" | "t = ''snapshot_partitions''" by (auto simp: LEASED_TABLES_def)
    then show ?thesis
      using assms by cases (auto simp: token_of_tables rows_le_def)
  qed (simp add: token_of_other)
  moreover have "keys_ok db \<longrightarrow> keys_ok db'" using assms by (simp add: keys_ok_tables rows_le_def)
  ultimately show ?thesis by (simp add: fence_le_def)
qed

lemma fence_le_partitions: "advances f \<Longrightarrow> fence_le db (db\<lparr>wd_partitions := sql_update p f (wd_partitions db)\<rparr>)"
  by (intro fence_le_rows) (simp_all add: rows_le_update)

section \<open>Shard operations respect the fence\<close>

lemma advances_sets:
  "advances (shard_claim_set now w region u ttl)" "advances (terminal_set now oc)" "advances (requeue_set ts_text now reason msg)"
  "advances (\<lambda>r. r\<lparr>w_status := st, w_owner := None, w_expires := None, pt_enqueued_at := now\<rparr>)"
  "advances (\<lambda>r. r\<lparr>w_status := st, w_owner := None, w_expires := None, pt_retry_count := pt_retry_count r + 1, pt_enqueued_at := now\<rparr>)"
  by (simp_all add: advances_def shard_claim_set_def terminal_set_def requeue_set_def)

lemma retry_fence_le:
  assumes "\<And>s. fence_le s (snd (op s))"
  shows "fence_le s (snd (run_with_db_retry n op faults s))"
proof -
  have "fence_le s (snd (retry_from k op faults s))" for k s
  proof (induction k arbitrary: s)
    case (Suc k)
    show ?case
    proof (cases "faults k")
      case No_fault
      then show ?thesis using assms [of s] by (auto split: prod.splits)
    next
      case (Transient landed)
      then show ?thesis using Suc.IH assms fence_le_trans by (cases landed) (simp, blast, simp)
    qed (use assms in simp)
  qed simp
  then show ?thesis by (simp add: run_with_db_retry_def)
qed

lemma write_fence_le:
  "fence_le db (snd (write_terminal gc now ctx pid oc db))"
  "fence_le db (snd (release_to_queued now ctx pid db))"
  "fence_le db (snd (write_requeue ts_text now cap ctx pid reason msg db))"
  "fence_le db (snd (write_retry_release now cap ctx pid db))"
  by (simp_all add: write_terminal_def release_to_queued_def write_requeue_def write_retry_release_def Let_def
      fence_le_partitions advances_sets)

inductive shard_step :: "work_db \<Rightarrow> work_db \<Rightarrow> bool" where
  s_claim: "claim_partition gc now stale pid w region u (rg, db) = (r, ctx, rg', db') \<Longrightarrow> shard_step db db'"
| s_terminal: "mark_partition_terminal gc now f1 f2 ctx pid oc (rg, db) = (b, ctx', rg', db') \<Longrightarrow> shard_step db db'"
| s_requeue: "requeue_partition_for_retry ts_text now cap f1 f2 ctx pid reason msg (rg, db) = (b, rg', db') \<Longrightarrow> shard_step db db'"

lemma fence_le_shard_step: "shard_step db db' \<Longrightarrow> fence_le db db'"
proof (induction rule: shard_step.induct)
  case (s_claim gc now stale pid w region u rg db r ctx rg' db')
  have "db' = db\<lparr>wd_partitions := sql_update (shard_claimable gc now stale (wd_guards db) pid)
      (shard_claim_set now w region u LEASE_TTL_S) (wd_partitions db)\<rparr>"
    using s_claim by (auto simp: claim_partition_def Let_def split: list.splits)
  then show ?case by (simp add: fence_le_partitions advances_sets)
next
  case (s_terminal gc now f1 f2 ctx pid oc rg db b ctx' rg' db')
  obtain o' db1 where w: "run_with_db_retry 8 (write_terminal gc now ctx pid oc) f1 db = (o', db1)" by fastforce
  have 1: "fence_le db db1"
    using retry_fence_le [of "write_terminal gc now ctx pid oc" db 8 f1] write_fence_le(1) w by simp
  have 2: "fence_le db1 (snd (run_with_db_retry 3 (release_to_queued now ctx pid) f2 db1))"
    by (intro retry_fence_le write_fence_le)
  show ?case using s_terminal w 1 fence_le_trans [OF 1 2]
    by (cases o') (auto simp: mark_partition_terminal_def)
next
  case (s_requeue ts_text now cap f1 f2 ctx pid reason msg rg db b rg' db')
  obtain o1 db1 where w: "run_with_db_retry 8 (write_requeue ts_text now cap ctx pid reason msg) f1 db = (o1, db1)" by fastforce
  obtain o2 db2 where v: "run_with_db_retry 8 (write_retry_release now cap ctx pid) f2 db1 = (o2, db2)" by fastforce
  have 1: "fence_le db db1"
    using retry_fence_le [of "write_requeue ts_text now cap ctx pid reason msg" db 8 f1] write_fence_le(3) w by simp
  have 2: "fence_le db1 db2"
    using retry_fence_le [of "write_retry_release now cap ctx pid" db1 8 f2] write_fence_le(4) v by simp
  show ?case using s_requeue w v 1 fence_le_trans [OF 1 2]
    by (cases o1; cases o2) (auto simp: requeue_partition_for_retry_def)
qed

interpretation shards: fenced token_of shard_step keys_ok
  by unfold_locales (use fence_le_shard_step in \<open>auto simp: fence_le_def\<close>)

section \<open>A stale handler\<close>

text \<open>The handler's lease has been superseded: the row's token is not the one it was given.\<close>

definition stale_lease :: "shard_lease \<Rightarrow> work_db \<Rightarrow> bool" where
  "stale_lease rec db \<longleftrightarrow>
     (\<forall>r \<in> set (wd_partitions db). w_id r = sl_partition_id rec \<longrightarrow> w_token r \<noteq> le_token (sl_lease rec))"

lemma stale_no_match:
  "stale_lease rec db \<Longrightarrow> r \<in> set (wd_partitions db) \<Longrightarrow> w_id r = sl_partition_id rec \<Longrightarrow>
   \<not> partition_lease_fence (Some rec) (sl_partition_id rec) r"
  by (simp add: stale_lease_def partition_lease_fence_def partition_lease_record_def)

lemma stale_writes_nothing:
  assumes "stale_lease rec db"
  shows "write_terminal gc now (Some rec) (sl_partition_id rec) oc db = (True, db)"
    and "release_to_queued now (Some rec) (sl_partition_id rec) db = ((), db)"
    and "write_requeue ts_text now cap (Some rec) (sl_partition_id rec) reason msg db = (None, db)"
    and "write_retry_release now cap (Some rec) (sl_partition_id rec) db = (None, db)"
proof -
  note no = stale_no_match [OF assms]
  have moved: "partition_lease_moved (sl_partition_id rec) (sl_lease rec) db"
    using assms row_of_Some by (fastforce simp: partition_lease_moved_def stale_lease_def split: option.splits)
  have "sql_update (terminal_where gc now g (Some rec) (sl_partition_id rec)) f (wd_partitions db) = wd_partitions db"
    "filter (terminal_where gc now g (Some rec) (sl_partition_id rec)) (wd_partitions db) = []" for g f
    using no by (auto intro!: sql_update_none simp: terminal_where_def filter_empty_conv)
  then show "write_terminal gc now (Some rec) (sl_partition_id rec) oc db = (True, db)"
    using moved by (simp add: write_terminal_def partition_lease_record_def Let_def)
  show "release_to_queued now (Some rec) (sl_partition_id rec) db = ((), db)"
    using no by (simp add: release_to_queued_def) (subst sql_update_none; auto)
  have "sql_update (requeue_where cap (Some rec) (sl_partition_id rec)) f (wd_partitions db) = wd_partitions db"
    "sql_returning (requeue_where cap (Some rec) (sl_partition_id rec)) f (wd_partitions db) = []" for f
    using no by (auto intro!: sql_update_none simp: requeue_where_def sql_returning_Nil_iff)
  then show "write_requeue ts_text now cap (Some rec) (sl_partition_id rec) reason msg db = (None, db)"
    by (simp add: write_requeue_def Let_def)
  define p where "p = (\<lambda>r. w_id r = sl_partition_id rec \<and> \<not> shard_terminal (w_status r) \<and> pt_retry_count r < cap \<and>
                   partition_lease_fence (Some rec) (sl_partition_id rec) r)"
  have "sql_update p f (wd_partitions db) = wd_partitions db" "sql_returning p f (wd_partitions db) = []" for f
    using no by (auto intro!: sql_update_none simp: p_def sql_returning_Nil_iff)
  then show "write_retry_release now cap (Some rec) (sl_partition_id rec) db = (None, db)"
    unfolding write_retry_release_def p_def [symmetric] Let_def by simp
qed

text \<open>Under any pattern of faults, a write that changes nothing leaves the database alone.\<close>

lemma retry_idle:
  assumes "op s = (r, s)"
  shows "run_with_db_retry n op faults s = (Some r, s) \<or> run_with_db_retry n op faults s = (None, s)"
proof -
  have "retry_from k op faults s = (Some r, s) \<or> retry_from k op faults s = (None, s)" for k
    using assms by (induction k) (auto split: db_fault.splits)
  then show ?thesis by (simp add: run_with_db_retry_def)
qed

lemma stale_handler_idle:
  assumes "stale_lease rec db"
  shows "mark_partition_terminal gc now f1 f2 (Some rec) (sl_partition_id rec) oc (rg, db) = (b, ctx, rg', db') \<Longrightarrow>
           db' = db \<and> b \<noteq> Inr True \<and> (b = Inr False \<longrightarrow> ctx = Some (rec\<lparr>sl_stolen := True\<rparr>))"
    and "requeue_partition_for_retry ts_text now cap f1 f2 (Some rec) (sl_partition_id rec) reason msg (rg, db) = (n, rg', db') \<Longrightarrow>
           db' = db \<and> (\<forall>k. n \<noteq> Inr (Some k))"
  using retry_idle [of "write_terminal gc now (Some rec) (sl_partition_id rec) oc" db, OF stale_writes_nothing(1) [OF assms], of 8 f1]
    retry_idle [of "release_to_queued now (Some rec) (sl_partition_id rec)" db, OF stale_writes_nothing(2) [OF assms], of 3 f2]
    retry_idle [of "write_requeue ts_text now cap (Some rec) (sl_partition_id rec) reason msg" db, OF stale_writes_nothing(3) [OF assms], of 8 f1]
    retry_idle [of "write_retry_release now cap (Some rec) (sl_partition_id rec)" db, OF stale_writes_nothing(4) [OF assms], of 8 f2]
  by (auto simp: mark_partition_terminal_def requeue_partition_for_retry_def note_partition_lease_stolen_def
      partition_lease_record_def)

end
