(* ===== verification/Reconciler.thy ===== *)
theory Reconciler
  imports Shards
begin

text \<open>
  The orphan sweep (\<open>shared/reconciler.py\<close>): one transaction that walks the work rows bottom-up,
  requeues or fails the shards of dead workers (step A), settles snapshots with no shard left in flight
  (step B), settles their jobs (step C), and re-derives the status of settled snapshots from their
  shards (step D); and the republish of the requeued shards' messages.

  Every SQL statement of the sweep is one definition, a WHERE predicate and a SET function; the
  statements run in the order of the source, each on the rows the previous one left. \<open>ts_text\<close> is the
  server's rendering of a timestamp in a JSON value, \<open>locked\<close> the rows \<open>SKIP LOCKED\<close> passes over.
\<close>

section \<open>Configuration and state\<close>

record recon_config =
  rc_batch :: nat                     \<comment> \<open>\<open>RECONCILER_BATCH\<close>\<close>
  rc_max_requeue :: int               \<comment> \<open>\<open>RECONCILER_MAX_REQUEUE\<close>\<close>
  rc_heartbeat_stale_s :: int         \<comment> \<open>\<open>HEARTBEAT_STALE_S\<close>\<close>
  rc_part_stale_min :: int            \<comment> \<open>\<open>RECONCILER_PART_STALE_MIN\<close>\<close>
  rc_unclaimed_stale_min :: int       \<comment> \<open>\<open>RECONCILER_PART_UNCLAIMED_STALE_MIN\<close>\<close>
  rc_unclaimed_max :: int             \<comment> \<open>\<open>RECONCILER_PART_UNCLAIMED_MAX_REPUBLISH\<close>\<close>
  rc_replay_max :: int                \<comment> \<open>\<open>RECONCILER_DLQ_REPLAY_MAX\<close>\<close>
  rc_snap_legacy_s :: int             \<comment> \<open>\<open>SNAP_LEGACY_AGE_S\<close>\<close>
  rc_reap_grace_s :: int              \<comment> \<open>\<open>SNAP_REAP_LEASE_GRACE_S\<close>\<close>
  rc_progress_grace_s :: int          \<comment> \<open>\<open>SNAP_REAP_PROGRESS_GRACE_S\<close>\<close>
  rc_dry_run :: bool                  \<comment> \<open>\<open>DRY_RUN\<close>\<close>

definition default_recon :: recon_config where
  "default_recon =
     \<lparr>rc_batch = 200, rc_max_requeue = 3, rc_heartbeat_stale_s = 60, rc_part_stale_min = 15,
      rc_unclaimed_stale_min = 60, rc_unclaimed_max = 5, rc_replay_max = 1, rc_snap_legacy_s = 900,
      rc_reap_grace_s = 900, rc_progress_grace_s = 9000, rc_dry_run = False\<rparr>"

record shard_envelope =
  pe_id :: string
  pe_snapshot_id :: string
  pe_type :: string
  pe_index :: int
  pe_drive_id :: "string option"
  pe_file_ids :: "string option"
  pe_payload :: "string option"

definition partition_envelope :: "partition_row \<Rightarrow> shard_envelope" where
  "partition_envelope r =
     \<lparr>pe_id = w_id r, pe_snapshot_id = pt_snapshot_id r, pe_type = pt_type r, pe_index = pt_index r,
      pe_drive_id = pt_drive_id r, pe_file_ids = pt_file_ids r, pe_payload = pt_payload r\<rparr>"

record dead_letter =
  dl_work_kind :: string
  dl_work_id :: string
  dl_reason :: string
  dl_payload :: shard_envelope    \<comment> \<open>\<open>last_payload\<close>; the reason rides along in it\<close>

record work_alert =
  wa_tenant_id :: "string option"
  wa_resource_id :: string
  wa_envelope :: shard_envelope
  wa_reason :: string

record recon_state =
  rs_db :: work_db
  rs_dead_letters :: "dead_letter list"
  rs_alerts :: "work_alert list"
  rs_tenants :: "string list"

record sweep_stats =
  ss_requeued :: nat
  ss_dlq :: nat
  ss_snapshots :: nat
  ss_jobs :: nat
  ss_payloads :: "shard_envelope list"
  ss_unclaimed_requeued :: nat
  ss_unclaimed_expired :: nat

definition stats_total :: "sweep_stats \<Rightarrow> nat" where
  "stats_total s = ss_requeued s + ss_dlq s + ss_snapshots s + ss_jobs s"

section \<open>Step A: shards\<close>

text \<open>A heartbeat of the owner within the staleness window; no owner, no heartbeat.\<close>

definition live_owner :: "recon_config \<Rightarrow> utc \<Rightarrow> work_db \<Rightarrow> string option \<Rightarrow> bool" where
  "live_owner cfg now db owner \<longleftrightarrow>
     (\<exists>h \<in> set (wd_heartbeats db). owner = Some (hb_worker_id h) \<and>
        now - rc_heartbeat_stale_s cfg * SECOND < hb_last_seen_at h)"

definition in_flight :: "string \<Rightarrow> bool" where
  "in_flight st \<longleftrightarrow> st = ''QUEUED'' \<or> st = ''IN_PROGRESS''"

text \<open>Evidence that some worker once took the shard.\<close>

definition claim_evidence :: "partition_row \<Rightarrow> bool" where
  "claim_evidence r \<longleftrightarrow>
     w_status r = ''IN_PROGRESS'' \<or> pt_worker_id r \<noteq> None \<or> pt_started_at r \<noteq> None \<or> w_owner r \<noteq> None \<or>
     0 < pt_retry_count r"

definition never_claimed :: "partition_row \<Rightarrow> bool" where
  "never_claimed r \<longleftrightarrow>
     w_status r = ''QUEUED'' \<and> pt_worker_id r = None \<and> pt_started_at r = None \<and> w_owner r = None \<and>
     pt_retry_count r = 0"

definition unclaimed_rq :: "partition_row \<Rightarrow> int" where
  "unclaimed_rq r = json_counter (pt_failure_state r) ''unclaimed_republish_count''"

definition dlq_replays :: "partition_row \<Rightarrow> int" where
  "dlq_replays r = json_counter (pt_failure_state r) ''dlq_replay_count''"

definition part_ready :: "guard_ctx \<Rightarrow> utc \<Rightarrow> work_db \<Rightarrow> partition_row \<Rightarrow> bool" where
  "part_ready gc now db r \<longleftrightarrow> copy_ready gc now (wd_guards db) (partition_scope (w_id r))"

text \<open>\<open>SELECT ... ORDER BY enqueued_at LIMIT :batch FOR UPDATE SKIP LOCKED\<close>: the identifiers it returns.\<close>

definition sweep_pick :: "nat \<Rightarrow> (string \<Rightarrow> bool) \<Rightarrow> (partition_row \<Rightarrow> bool) \<Rightarrow> partition_row list \<Rightarrow> string list" where
  "sweep_pick n locked p rows =
     map w_id (take n (sort_key pt_enqueued_at (filter (\<lambda>r. p r \<and> \<not> locked (w_id r)) rows)))"

definition requeue_stale :: "recon_config \<Rightarrow> guard_ctx \<Rightarrow> utc \<Rightarrow> work_db \<Rightarrow> partition_row \<Rightarrow> bool" where
  "requeue_stale cfg gc now db r \<longleftrightarrow>
     in_flight (w_status r) \<and> part_ready gc now db r \<and> \<not> live_owner cfg now db (w_owner r) \<and>
     lapsed now (w_expires r) \<and> claim_evidence r \<and>
     pt_enqueued_at r < now - rc_part_stale_min cfg * 60 * SECOND \<and> pt_requeue_count r < rc_max_requeue cfg"

definition requeue_row :: "utc \<Rightarrow> partition_row \<Rightarrow> partition_row" where
  "requeue_row now r =
     r\<lparr>w_status := ''QUEUED'', w_owner := None, w_expires := None, w_token := w_token r + 1,
       pt_requeue_count := pt_requeue_count r + 1, pt_enqueued_at := now\<rparr>"

definition unclaimed_stale :: "recon_config \<Rightarrow> guard_ctx \<Rightarrow> utc \<Rightarrow> work_db \<Rightarrow> partition_row \<Rightarrow> bool" where
  "unclaimed_stale cfg gc now db r \<longleftrightarrow>
     never_claimed r \<and> part_ready gc now db r \<and> \<not> live_owner cfg now db (w_owner r) \<and> w_expires r = None \<and>
     pt_enqueued_at r < now - rc_unclaimed_stale_min cfg * 60 * SECOND \<and> unclaimed_rq r < rc_unclaimed_max cfg"

definition republish_row :: "(utc \<Rightarrow> string) \<Rightarrow> utc \<Rightarrow> partition_row \<Rightarrow> partition_row" where
  "republish_row ts_text now r =
     r\<lparr>w_token := w_token r + 1, pt_enqueued_at := now,
       pt_failure_state := json_merge (pt_failure_state r)
         [''unclaimed_republish_count'' \<mapsto> JInt (unclaimed_rq r + 1),
          ''unclaimed_last_republish_at'' \<mapsto> JString (ts_text now)]\<rparr>"

definition poisoned :: "recon_config \<Rightarrow> guard_ctx \<Rightarrow> utc \<Rightarrow> work_db \<Rightarrow> partition_row \<Rightarrow> bool" where
  "poisoned cfg gc now db r \<longleftrightarrow>
     in_flight (w_status r) \<and> part_ready gc now db r \<and> rc_max_requeue cfg \<le> pt_requeue_count r \<and>
     lapsed now (w_expires r) \<and> claim_evidence r"

definition replay_where :: "recon_config \<Rightarrow> guard_ctx \<Rightarrow> utc \<Rightarrow> work_db \<Rightarrow> partition_row \<Rightarrow> bool" where
  "replay_where cfg gc now db r \<longleftrightarrow> poisoned cfg gc now db r \<and> dlq_replays r < rc_replay_max cfg"

definition replay_row :: "(utc \<Rightarrow> string) \<Rightarrow> utc \<Rightarrow> partition_row \<Rightarrow> partition_row" where
  "replay_row ts_text now r =
     r\<lparr>w_status := ''QUEUED'', w_owner := None, w_expires := None, w_token := w_token r + 1,
       pt_requeue_count := 0, pt_enqueued_at := now,
       pt_failure_state := json_merge (pt_failure_state r)
         [''dlq_replay_count'' \<mapsto> JInt (dlq_replays r + 1), ''dlq_replayed_at'' \<mapsto> JString (ts_text now)]\<rparr>"

definition poison_where :: "recon_config \<Rightarrow> guard_ctx \<Rightarrow> utc \<Rightarrow> work_db \<Rightarrow> partition_row \<Rightarrow> bool" where
  "poison_where cfg gc now db r \<longleftrightarrow> poisoned cfg gc now db r \<and> rc_replay_max cfg \<le> dlq_replays r"

definition fail_row :: "partition_row \<Rightarrow> partition_row" where
  "fail_row r = r\<lparr>w_status := ''FAILED'', w_owner := None, w_expires := None, w_token := w_token r + 1\<rparr>"

definition expired_where :: "recon_config \<Rightarrow> guard_ctx \<Rightarrow> utc \<Rightarrow> work_db \<Rightarrow> partition_row \<Rightarrow> bool" where
  "expired_where cfg gc now db r \<longleftrightarrow>
     never_claimed r \<and> part_ready gc now db r \<and> w_expires r = None \<and>
     pt_enqueued_at r < now - rc_unclaimed_stale_min cfg * 60 * SECOND \<and> rc_unclaimed_max cfg \<le> unclaimed_rq r"

definition expire_row :: "(utc \<Rightarrow> string) \<Rightarrow> utc \<Rightarrow> partition_row \<Rightarrow> partition_row" where
  "expire_row ts_text now r =
     (fail_row r)\<lparr>pt_failure_state := json_merge (pt_failure_state r)
        [''unclaimed_expired'' \<mapsto> JBool True, ''unclaimed_expired_at'' \<mapsto> JString (ts_text now)]\<rparr>"

text \<open>
  \<open>_dead_letter_partition\<close>: the replayable record and the alert, whose tenant is looked up so that a
  deleted tenant reads NULL. (A failure of the alert insert is swallowed there; it is taken to succeed.)
\<close>

definition dead_letter_partition :: "string \<Rightarrow> partition_row \<Rightarrow> recon_state \<Rightarrow> recon_state" where
  "dead_letter_partition reason r st =
     st\<lparr>rs_dead_letters := rs_dead_letters st @
          [\<lparr>dl_work_kind = ''partition'', dl_work_id = w_id r, dl_reason = reason, dl_payload = partition_envelope r\<rparr>],
        rs_alerts := rs_alerts st @
          [\<lparr>wa_tenant_id = (if pt_tenant_id r \<in> set (rs_tenants st) then Some (pt_tenant_id r) else None),
            wa_resource_id = pt_resource_id r, wa_envelope = partition_envelope r, wa_reason = reason\<rparr>]\<rparr>"

definition update_parts :: "(partition_row \<Rightarrow> bool) \<Rightarrow> (partition_row \<Rightarrow> partition_row) \<Rightarrow> work_db \<Rightarrow> work_db" where
  "update_parts p f db = db\<lparr>wd_partitions := sql_update p f (wd_partitions db)\<rparr>"

text \<open>
  The two requeue statements: the CTE picks the rows, the UPDATE joins on their identifiers. The result
  is the messages to publish and the database.
\<close>

definition step_a_requeue ::
    "recon_config \<Rightarrow> guard_ctx \<Rightarrow> utc \<Rightarrow> (string \<Rightarrow> bool) \<Rightarrow> work_db \<Rightarrow> shard_envelope list \<times> work_db" where
  "step_a_requeue cfg gc now locked db =
     (let picked = sweep_pick (rc_batch cfg) locked (requeue_stale cfg gc now db) (wd_partitions db);
          p = (\<lambda>r. w_id r \<in> set picked)
      in (map partition_envelope (sql_returning p (requeue_row now) (wd_partitions db)), update_parts p (requeue_row now) db))"

definition step_a_unclaimed ::
    "recon_config \<Rightarrow> guard_ctx \<Rightarrow> (utc \<Rightarrow> string) \<Rightarrow> utc \<Rightarrow> (string \<Rightarrow> bool) \<Rightarrow> work_db \<Rightarrow>
     shard_envelope list \<times> work_db" where
  "step_a_unclaimed cfg gc ts_text now locked db =
     (let picked = sweep_pick (rc_batch cfg) locked (unclaimed_stale cfg gc now db) (wd_partitions db);
          p = (\<lambda>r. w_id r \<in> set picked)
      in (map partition_envelope (sql_returning p (republish_row ts_text now) (wd_partitions db)),
          update_parts p (republish_row ts_text now) db))"

definition step_a_replay :: "recon_config \<Rightarrow> guard_ctx \<Rightarrow> (utc \<Rightarrow> string) \<Rightarrow> utc \<Rightarrow> work_db \<Rightarrow> work_db" where
  "step_a_replay cfg gc ts_text now db = update_parts (replay_where cfg gc now db) (replay_row ts_text now) db"

definition step_a_poison :: "recon_config \<Rightarrow> guard_ctx \<Rightarrow> utc \<Rightarrow> recon_state \<Rightarrow> nat \<times> recon_state" where
  "step_a_poison cfg gc now st =
     (let db = rs_db st;
          rows = sql_returning (poison_where cfg gc now db) fail_row (wd_partitions db)
      in (length rows,
          fold (dead_letter_partition ''poison_pill'') rows
            (st\<lparr>rs_db := update_parts (poison_where cfg gc now db) fail_row db\<rparr>)))"

definition step_a_expire :: "recon_config \<Rightarrow> guard_ctx \<Rightarrow> (utc \<Rightarrow> string) \<Rightarrow> utc \<Rightarrow> recon_state \<Rightarrow> nat \<times> recon_state" where
  "step_a_expire cfg gc ts_text now st =
     (let db = rs_db st;
          rows = sql_returning (expired_where cfg gc now db) (expire_row ts_text now) (wd_partitions db)
      in (length rows,
          fold (dead_letter_partition ''unclaimed_expired'') rows
            (st\<lparr>rs_db := update_parts (expired_where cfg gc now db) (expire_row ts_text now) db\<rparr>)))"

section \<open>Step B: snapshots\<close>

definition shards_of :: "string \<Rightarrow> work_db \<Rightarrow> partition_row list" where
  "shards_of sid db = filter (\<lambda>r. pt_snapshot_id r = sid) (wd_partitions db)"

definition lossy :: "partition_row \<Rightarrow> bool" where
  "lossy r = json_positive_number (pt_failure_state r) ''files_failed''"

definition degraded :: "snap_row \<Rightarrow> bool" where
  "degraded s \<longleftrightarrow> (case json_get (sn_extra s) ''degraded_reason'' of None \<Rightarrow> False | Some t \<Rightarrow> t \<noteq> [])"

definition orphan_status :: "partition_row list \<Rightarrow> snap_row \<Rightarrow> snapshot_status" where
  "orphan_status parts s =
     (if parts = [] then S_FAILED
      else if \<exists>r \<in> set parts. lossy r then S_PARTIAL
      else if degraded s then S_PARTIAL
      else if \<forall>r \<in> set parts. w_status r = ''COMPLETED'' then S_COMPLETED
      else if \<forall>r \<in> set parts. w_status r = ''FAILED'' then S_FAILED
      else if \<exists>r \<in> set parts. w_status r = ''FAILED'' then S_PARTIAL
      else S_FAILED)"

definition items_of :: "string \<Rightarrow> work_db \<Rightarrow> item_row list" where
  "items_of sid db = filter (\<lambda>it. it_snapshot_id it = sid) (wd_items db)"

definition items_bytes :: "item_row list \<Rightarrow> int" where
  "items_bytes its = sum_list (map (\<lambda>it. case it_size it of None \<Rightarrow> 0 | Some n \<Rightarrow> n) its)"

definition restate_counters :: "work_db \<Rightarrow> snap_row \<Rightarrow> snap_row" where
  "restate_counters db s =
     s\<lparr>sn_item_count := Some (max (or_zero (sn_item_count s)) (int (length (items_of (w_id s) db)))),
       sn_bytes_total := Some (max (or_zero (sn_bytes_total s)) (items_bytes (items_of (w_id s) db)))\<rparr>"

text \<open>\<open>EXTRACT(EPOCH FROM (NOW() - t))::int\<close>: seconds, rounded half away from zero.\<close>

definition epoch_seconds :: "int \<Rightarrow> int" where
  "epoch_seconds us =
     (if 0 \<le> us then (us + SECOND div 2) div SECOND else - ((- us + SECOND div 2) div SECOND))"

text \<open>The dash in the first message is a long one in the source.\<close>

definition settle_reason :: "partition_row list \<Rightarrow> string" where
  "settle_reason parts =
     (if parts = []
      then ''reconciler: orphaned non-partitioned snapshot - lease expired with no live worker heartbeat and no handler ever finalized it''
      else ''reconciler: status derived from partition outcomes (no shard left in flight)'')"

definition settle_snapshot :: "utc \<Rightarrow> work_db \<Rightarrow> snap_row \<Rightarrow> snap_row" where
  "settle_snapshot now db s =
     (let parts = shards_of (w_id s) db
      in (restate_counters db s)
           \<lparr>w_status := orphan_status parts s,
            sn_completed_at := Some now,
            sn_extra := Some ([''failure_reason'' \<mapsto> JString (settle_reason parts), ''reconciler_settled'' \<mapsto> JBool True]
                              ++ (case sn_extra s of None \<Rightarrow> Map.empty | Some m \<Rightarrow> m)),
            sn_duration_secs := (case sn_started_at s of None \<Rightarrow> sn_duration_secs s | Some t \<Rightarrow> Some (epoch_seconds (now - t))),
            w_owner := None, w_expires := None, w_token := w_token s + 1\<rparr>)"

definition unowned_too_long :: "recon_config \<Rightarrow> utc \<Rightarrow> work_db \<Rightarrow> snap_row \<Rightarrow> bool" where
  "unowned_too_long cfg now db s \<longleftrightarrow>
     ((case w_expires s of None \<Rightarrow> False | Some t \<Rightarrow> t < now - rc_reap_grace_s cfg * SECOND) \<or>
      (w_owner s = None \<and>
       (case sn_started_at s of None \<Rightarrow> False | Some t \<Rightarrow> t < now - rc_snap_legacy_s cfg * SECOND))) \<and>
     \<not> live_owner cfg now db (w_owner s) \<and>
     \<not> (\<exists>it \<in> set (items_of (w_id s) db). now - rc_progress_grace_s cfg * SECOND < it_created_at it)"

definition orphan_snapshot :: "recon_config \<Rightarrow> guard_ctx \<Rightarrow> utc \<Rightarrow> work_db \<Rightarrow> snap_row \<Rightarrow> bool" where
  "orphan_snapshot cfg gc now db s \<longleftrightarrow>
     w_status s = S_IN_PROGRESS \<and> copy_ready gc now (wd_guards db) (snapshot_scope (w_id s)) \<and>
     \<not> (\<exists>r \<in> set (shards_of (w_id s) db). in_flight (w_status r)) \<and>
     (shards_of (w_id s) db \<noteq> [] \<or> unowned_too_long cfg now db s)"

definition step_b :: "recon_config \<Rightarrow> guard_ctx \<Rightarrow> utc \<Rightarrow> work_db \<Rightarrow> nat \<times> work_db" where
  "step_b cfg gc now db =
     (length (filter (orphan_snapshot cfg gc now db) (wd_snapshots db)),
      db\<lparr>wd_snapshots := sql_update (orphan_snapshot cfg gc now db) (settle_snapshot now db) (wd_snapshots db)\<rparr>)"

section \<open>Step C: jobs\<close>

definition snapshots_of :: "string \<Rightarrow> work_db \<Rightarrow> snap_row list" where
  "snapshots_of jid db = filter (\<lambda>s. sn_job_id s = Some jid) (wd_snapshots db)"

text \<open>\<open>job_partial_sql\<close> of \<open>shared/batch_rollup.py\<close>.\<close>

definition job_partial :: "snap_row list \<Rightarrow> bool" where
  "job_partial snaps \<longleftrightarrow> (\<exists>s \<in> set snaps. w_status s \<in> {S_PARTIAL, S_FAILED})"

definition job_rollup :: "snap_row list \<Rightarrow> job_status" where
  "job_rollup snaps =
     (if \<not> (\<exists>s \<in> set snaps. w_status s \<in> {S_COMPLETED, S_PARTIAL, S_SKIPPED}) then J_FAILED
      else if job_partial snaps then J_PARTIAL else J_COMPLETED)"

definition orphan_job :: "guard_ctx \<Rightarrow> utc \<Rightarrow> work_db \<Rightarrow> job_row \<Rightarrow> bool" where
  "orphan_job gc now db j \<longleftrightarrow>
     w_status j = J_RUNNING \<and> copy_ready gc now (wd_guards db) (job_scope (w_id j)) \<and>
     \<not> (\<exists>s \<in> set (snapshots_of (w_id j) db). w_status s = S_IN_PROGRESS) \<and> snapshots_of (w_id j) db \<noteq> []"

definition settle_job :: "utc \<Rightarrow> work_db \<Rightarrow> job_row \<Rightarrow> job_row" where
  "settle_job now db j =
     j\<lparr>w_status := job_rollup (snapshots_of (w_id j) db), jr_completed_at := Some now,
       w_owner := None, w_expires := None, w_token := w_token j + 1\<rparr>"

definition step_c :: "guard_ctx \<Rightarrow> utc \<Rightarrow> work_db \<Rightarrow> nat \<times> work_db" where
  "step_c gc now db =
     (length (filter (orphan_job gc now db) (wd_jobs db)),
      db\<lparr>wd_jobs := sql_update (orphan_job gc now db) (settle_job now db) (wd_jobs db)\<rparr>)"

section \<open>Step D: integrity\<close>

definition integrity_status :: "partition_row list \<Rightarrow> snap_row \<Rightarrow> snapshot_status" where
  "integrity_status parts s =
     (if \<forall>r \<in> set parts. w_status r = ''FAILED'' then S_FAILED
      else if (\<exists>r \<in> set parts. w_status r = ''FAILED'') \<or> (\<exists>r \<in> set parts. lossy r) \<or> degraded s then S_PARTIAL
      else if \<forall>r \<in> set parts. w_status r = ''COMPLETED'' then S_COMPLETED
      else w_status s)"

definition lying_snapshot :: "guard_ctx \<Rightarrow> utc \<Rightarrow> work_db \<Rightarrow> snap_row \<Rightarrow> bool" where
  "lying_snapshot gc now db s \<longleftrightarrow>
     shards_of (w_id s) db \<noteq> [] \<and> copy_ready gc now (wd_guards db) (snapshot_scope (w_id s)) \<and>
     \<not> (\<exists>r \<in> set (shards_of (w_id s) db). in_flight (w_status r)) \<and>
     w_status s \<in> {S_COMPLETED, S_PARTIAL, S_FAILED} \<and> w_status s \<noteq> integrity_status (shards_of (w_id s) db) s"

definition correct_snapshot :: "work_db \<Rightarrow> snap_row \<Rightarrow> snap_row" where
  "correct_snapshot db s =
     (restate_counters db s)
       \<lparr>w_status := integrity_status (shards_of (w_id s) db) s, w_owner := None, w_expires := None,
        w_token := w_token s + 1\<rparr>"

definition step_d :: "guard_ctx \<Rightarrow> utc \<Rightarrow> work_db \<Rightarrow> nat \<times> work_db" where
  "step_d gc now db =
     (length (filter (lying_snapshot gc now db) (wd_snapshots db)),
      db\<lparr>wd_snapshots := sql_update (lying_snapshot gc now db) (correct_snapshot db) (wd_snapshots db)\<rparr>)"

section \<open>The sweep\<close>

definition sweep_body ::
    "recon_config \<Rightarrow> guard_ctx \<Rightarrow> (utc \<Rightarrow> string) \<Rightarrow> utc \<Rightarrow> (string \<Rightarrow> bool) \<Rightarrow> recon_state \<Rightarrow> sweep_stats \<times> recon_state" where
  "sweep_body cfg gc ts_text now locked st =
     (case step_a_requeue cfg gc now locked (rs_db st) of (requeued, db1) \<Rightarrow>
      case step_a_unclaimed cfg gc ts_text now locked db1 of (unclaimed, db2) \<Rightarrow>
      case step_a_poison cfg gc now (st\<lparr>rs_db := step_a_replay cfg gc ts_text now db2\<rparr>) of (n_poison, st3) \<Rightarrow>
      case step_a_expire cfg gc ts_text now st3 of (n_expired, st4) \<Rightarrow>
      case step_b cfg gc now (rs_db st4) of (n_snaps, db5) \<Rightarrow>
      case step_c gc now db5 of (n_jobs, db6) \<Rightarrow>
      case step_d gc now db6 of (n_corrected, db7) \<Rightarrow>
        (\<lparr>ss_requeued = length requeued + length unclaimed, ss_dlq = n_poison + n_expired, ss_snapshots = n_snaps,
          ss_jobs = n_jobs, ss_payloads = requeued @ unclaimed, ss_unclaimed_requeued = length unclaimed,
          ss_unclaimed_expired = n_expired\<rparr>,
         st4\<lparr>rs_db := db7\<rparr>))"

text \<open>A dry run rolls the transaction back and still returns the statistics.\<close>

definition sweep_orphans ::
    "recon_config \<Rightarrow> guard_ctx \<Rightarrow> (utc \<Rightarrow> string) \<Rightarrow> utc \<Rightarrow> (string \<Rightarrow> bool) \<Rightarrow> recon_state \<Rightarrow> sweep_stats \<times> recon_state" where
  "sweep_orphans cfg gc ts_text now locked st =
     (case sweep_body cfg gc ts_text now locked st of
        (stats, st') \<Rightarrow> (stats, if rc_dry_run cfg then st else st'))"

section \<open>Republishing\<close>

definition PARTITION_QUEUE_BY_TYPE :: "string \<rightharpoonup> string" where
  "PARTITION_QUEUE_BY_TYPE = map_of
     [(''ONEDRIVE_FILES'', ''backup.onedrive_partition''), (''CHATS'', ''backup.chats_partition''),
      (''MAIL_FOLDERS'', ''backup.mail_partition''), (''SHAREPOINT_DRIVES'', ''backup.sharepoint_partition''),
      (''GROUPS_CHANNELS'', ''backup.groups_partition''), (''ENTRA_CATEGORIES'', ''backup.entra_partition'')]"

definition MESSAGE_TYPE_BY_PARTITION_TYPE :: "string \<rightharpoonup> string" where
  "MESSAGE_TYPE_BY_PARTITION_TYPE = map_of
     [(''ONEDRIVE_FILES'', ''BACKUP_ONEDRIVE_PARTITION''), (''CHATS'', ''BACKUP_CHATS_PARTITION''),
      (''MAIL_FOLDERS'', ''BACKUP_MAIL_PARTITION''), (''SHAREPOINT_DRIVES'', ''BACKUP_SHAREPOINT_PARTITION''),
      (''GROUPS_CHANNELS'', ''BACKUP_GROUPS_PARTITION''), (''ENTRA_CATEGORIES'', ''BACKUP_ENTRA_PARTITION'')]"

definition queue_for_partition_type :: "string \<Rightarrow> string option" where
  "queue_for_partition_type ptype = (if ptype = [] then None else PARTITION_QUEUE_BY_TYPE ptype)"

definition message_type_for_partition_type :: "string \<Rightarrow> string option" where
  "message_type_for_partition_type ptype = (if ptype = [] then None else MESSAGE_TYPE_BY_PARTITION_TYPE ptype)"

record partition_message =
  pm_queue :: string
  pm_message_type :: string
  pm_envelope :: shard_envelope
  pm_reconciler_requeue :: bool

text \<open>\<open>publishes m\<close> says whether the broker took the message; a raise is logged and the loop goes on.\<close>

fun republish_partition_messages ::
    "(partition_message \<Rightarrow> bool) \<Rightarrow> shard_envelope list \<Rightarrow> nat \<times> partition_message list" where
  "republish_partition_messages publishes [] = (0, [])"
| "republish_partition_messages publishes (p # ps) =
     (case republish_partition_messages publishes ps of (n, ms) \<Rightarrow>
        (case (queue_for_partition_type (pe_type p), message_type_for_partition_type (pe_type p)) of
           (Some queue, Some msg_type) \<Rightarrow>
             let m = \<lparr>pm_queue = queue, pm_message_type = msg_type, pm_envelope = p, pm_reconciler_requeue = True\<rparr>
             in if publishes m then (n + 1, m # ms) else (n, ms)
         | _ \<Rightarrow> (n, ms)))"

text \<open>
  \<open>_sweep_tick\<close> of the scheduler, up to the cascade into the batch finalizer: the messages published
  and the state.
\<close>

definition sweep_tick ::
    "recon_config \<Rightarrow> guard_ctx \<Rightarrow> (utc \<Rightarrow> string) \<Rightarrow> utc \<Rightarrow> (string \<Rightarrow> bool) \<Rightarrow> (partition_message \<Rightarrow> bool) \<Rightarrow> recon_state \<Rightarrow>
     partition_message list \<times> recon_state" where
  "sweep_tick cfg gc ts_text now locked publishes st =
     (case sweep_orphans cfg gc ts_text now locked st of
        (stats, st') \<Rightarrow>
          ((if ss_payloads stats = [] then [] else snd (republish_partition_messages publishes (ss_payloads stats))), st'))"

section \<open>The sweep respects the fence\<close>

lemma advances_sweep:
  "advances (requeue_row now)" "advances (republish_row ts_text now)" "advances (replay_row ts_text now)"
  "advances fail_row" "advances (expire_row ts_text now)" "advances (settle_snapshot now db)"
  "advances (settle_job now db)" "advances (correct_snapshot db)"
  by (simp_all add: advances_def requeue_row_def republish_row_def replay_row_def fail_row_def expire_row_def
      settle_snapshot_def settle_job_def correct_snapshot_def restate_counters_def Let_def)

lemma dead_letters_db [simp]: "rs_db (fold (dead_letter_partition reason) rows st) = rs_db st"
  by (induction rows arbitrary: st) (simp_all add: dead_letter_partition_def)

lemma fence_le_update_parts: "advances f \<Longrightarrow> fence_le db (update_parts p f db)"
  by (simp add: update_parts_def fence_le_partitions)

text \<open>The databases between the statements.\<close>

definition after_requeue where
  "after_requeue cfg gc now locked db = snd (step_a_requeue cfg gc now locked db)"

definition after_unclaimed where
  "after_unclaimed cfg gc ts_text now locked db = snd (step_a_unclaimed cfg gc ts_text now locked (after_requeue cfg gc now locked db))"

definition after_replay where
  "after_replay cfg gc ts_text now locked db = step_a_replay cfg gc ts_text now (after_unclaimed cfg gc ts_text now locked db)"

definition after_poison where
  "after_poison cfg gc ts_text now locked db =
     (let d = after_replay cfg gc ts_text now locked db in update_parts (poison_where cfg gc now d) fail_row d)"

definition after_a where
  "after_a cfg gc ts_text now locked db =
     (let d = after_poison cfg gc ts_text now locked db
      in update_parts (expired_where cfg gc now d) (expire_row ts_text now) d)"

definition after_b where
  "after_b cfg gc ts_text now locked db = snd (step_b cfg gc now (after_a cfg gc ts_text now locked db))"

definition after_c where
  "after_c cfg gc ts_text now locked db = snd (step_c gc now (after_b cfg gc ts_text now locked db))"

definition after_d where
  "after_d cfg gc ts_text now locked db = snd (step_d gc now (after_c cfg gc ts_text now locked db))"

lemma sweep_body_db: "rs_db (snd (sweep_body cfg gc ts_text now locked st)) = after_d cfg gc ts_text now locked (rs_db st)"
  by (simp add: sweep_body_def after_d_def after_c_def after_b_def after_a_def after_poison_def after_replay_def
      after_unclaimed_def after_requeue_def step_a_poison_def step_a_expire_def Let_def split: prod.splits)

lemma fence_le_after_a: "fence_le db (after_a cfg gc ts_text now locked db)"
proof -
  have "fence_le db (after_requeue cfg gc now locked db)"
    by (simp add: after_requeue_def step_a_requeue_def Let_def fence_le_update_parts advances_sweep)
  also have "fence_le \<dots> (after_unclaimed cfg gc ts_text now locked db)"
    by (simp add: after_unclaimed_def step_a_unclaimed_def Let_def fence_le_update_parts advances_sweep)
  also have "fence_le \<dots> (after_replay cfg gc ts_text now locked db)"
    by (simp add: after_replay_def step_a_replay_def fence_le_update_parts advances_sweep)
  also have "fence_le \<dots> (after_poison cfg gc ts_text now locked db)"
    by (simp add: after_poison_def Let_def fence_le_update_parts advances_sweep)
  also have "fence_le \<dots> (after_a cfg gc ts_text now locked db)"
    by (simp add: after_a_def Let_def fence_le_update_parts advances_sweep)
  finally show ?thesis .
qed

lemma fence_le_sweep: "fence_le (rs_db st) (rs_db (snd (sweep_orphans cfg gc ts_text now locked st)))"
proof -
  let ?db = "rs_db st"
  have "fence_le ?db (after_a cfg gc ts_text now locked ?db)" by (rule fence_le_after_a)
  also have "fence_le \<dots> (after_b cfg gc ts_text now locked ?db)"
    unfolding after_b_def step_b_def by (intro fence_le_rows) (simp_all add: rows_le_update advances_sweep)
  also have "fence_le \<dots> (after_c cfg gc ts_text now locked ?db)"
    unfolding after_c_def step_c_def by (intro fence_le_rows) (simp_all add: rows_le_update advances_sweep)
  also have "fence_le \<dots> (after_d cfg gc ts_text now locked ?db)"
    unfolding after_d_def step_d_def by (intro fence_le_rows) (simp_all add: rows_le_update advances_sweep)
  finally have "fence_le ?db (after_d cfg gc ts_text now locked ?db)" .
  then show ?thesis
    using sweep_body_db [of cfg gc ts_text now locked st]
    by (auto simp: sweep_orphans_def split: prod.splits)
qed

text \<open>Everything that can happen to the work rows: lease calls, shard handlers, sweeps, in any order.\<close>

inductive work_step :: "work_db \<Rightarrow> work_db \<Rightarrow> bool" where
  w_lease: "lease_step db db' \<Longrightarrow> work_step db db'"
| w_shard: "shard_step db db' \<Longrightarrow> work_step db db'"
| w_sweep: "sweep_orphans cfg gc ts_text now locked st = (stats, st') \<Longrightarrow> work_step (rs_db st) (rs_db st')"

lemma fence_le_work_step: "work_step db db' \<Longrightarrow> fence_le db db'"
proof (induction rule: work_step.induct)
  case (w_sweep cfg gc ts_text now locked st stats st')
  with fence_le_sweep [of st cfg gc ts_text now locked] show ?case by simp
qed (auto intro: fence_le_lease_step fence_le_shard_step)

interpretation work: fenced token_of work_step keys_ok
  by unfold_locales (use fence_le_work_step in \<open>auto simp: fence_le_def\<close>)

section \<open>Superseded leases\<close>

lemma filter_row_unique:
  assumes "distinct (ids rows)" "r \<in> set rows" "p r" and p: "\<And>r'. p r' \<Longrightarrow> w_id r' = i"
  shows "filter p rows = [r]"
proof -
  obtain xs ys where rows: "rows = xs @ r # ys" using assms(2) by (meson split_list)
  have "w_id r \<notin> w_id ` set xs" "w_id r \<notin> w_id ` set ys" using assms(1) rows by (auto simp: ids_def)
  then have "\<not> p x" if "x \<in> set xs \<union> set ys" for x
    using that p [of x] p [OF assms(3)] by (metis UnE imageI)
  then have "filter p xs = []" "filter p ys = []" by (simp_all add: filter_empty_conv)
  with rows assms(3) show ?thesis by simp
qed

lemma claim_partition_token:
  assumes "keys_ok db" "claim_partition gc now stale pid w region owner (rg, db) = (Some r, Some rec, rg', db')"
  shows "sl_partition_id rec = pid \<and> le_table (sl_lease rec) = ''snapshot_partitions'' \<and> le_work_id (sl_lease rec) = pid
         \<and> keys_ok db' \<and> token_of db' (''snapshot_partitions'', pid) = Some (le_token (sl_lease rec))
         \<and> token_of db (''snapshot_partitions'', pid) = Some (le_token (sl_lease rec) - 1)"
proof -
  let ?p = "shard_claimable gc now stale (wd_guards db) pid"
  let ?f = "shard_claim_set now w region owner LEASE_TTL_S"
  have dist: "distinct (ids (wd_partitions db))" using assms(1) by (simp add: keys_ok_tables)
  have db': "db' = db\<lparr>wd_partitions := sql_update ?p ?f (wd_partitions db)\<rparr>"
    and rec: "bind_partition_lease pid (Some r) = Some rec"
    and ne: "sql_returning ?p ?f (wd_partitions db) \<noteq> []" "hd (sql_returning ?p ?f (wd_partitions db)) = r"
    using assms(2) by (auto simp: claim_partition_def Let_def split: list.splits)
  then obtain r0 where r0: "r0 \<in> set (wd_partitions db)" "?p r0"
    by (auto simp: sql_returning_Nil_iff)
  have pid: "w_id r0 = pid" using r0 by (simp add: shard_claimable_def)
  have "filter ?p (wd_partitions db) = [r0]"
    by (rule filter_row_unique [OF dist, where i = pid]) (use r0 in \<open>auto simp: shard_claimable_def\<close>)
  then have r: "r = ?f r0" using ne by (simp add: sql_returning_def)
  have row: "row_of pid (wd_partitions db) = Some r0" using row_of_distinct [OF dist r0(1)] pid by simp
  have f_id: "w_id (?f r) = w_id r" "w_token (?f r) = w_token r + 1" for r by (simp_all add: shard_claim_set_def)
  have "keys_ok db'" using assms(1) by (simp add: db' keys_ok_tables f_id)
  then show ?thesis
    using rec row r r0(2) by (auto simp: bind_partition_lease_def token_of_tables db' row_of_sql_update f_id)
qed

lemma token_moved_stale:
  assumes "keys_ok db" "token_of db (''snapshot_partitions'', sl_partition_id rec) \<noteq> Some (le_token (sl_lease rec))"
  shows "stale_lease rec db"
proof -
  have dist: "distinct (ids (wd_partitions db))" using assms(1) by (simp add: keys_ok_tables)
  show ?thesis using assms(2) row_of_distinct [OF dist] by (force simp: stale_lease_def token_of_tables)
qed

text \<open>
  C6. The fence holds under every interleaving. A handler claims a shard and is given a lease. Any number of
  claims, renewals, releases, reclaims, heartbeats, shard handlers and sweeps of any processes follow,
  and at some moment the row no longer carries the handler's token. From then on, whatever else happens:
  a later claim has a larger token; the handler's terminal write and its requeue, under any pattern of
  database faults and lost acknowledgements, change nothing and report no success; renewing the lease
  is refused; and releasing it changes nothing.
\<close>

theorem superseded_lease_is_inert:
  assumes "keys_ok db0"
    and claimed: "claim_partition gc now stale pid w region owner (rg, db0) = (Some r, Some rec, rg1, db1)"
    and "work_step\<^sup>*\<^sup>* db1 db2"
    and "token_of db2 (''snapshot_partitions'', pid) \<noteq> Some (le_token (sl_lease rec))"
    and "work_step\<^sup>*\<^sup>* db2 db3"
  shows
    "(\<forall>gc' now' stale' w' region' owner' rg2 r' rec' rg3 db4.
        claim_partition gc' now' stale' pid w' region' owner' (rg2, db3) = (Some r', Some rec', rg3, db4) \<longrightarrow>
          le_token (sl_lease rec) < le_token (sl_lease rec')) \<and>
     (\<forall>gc' now' f1 f2 oc rg2 b ctx rg3 db4.
        mark_partition_terminal gc' now' f1 f2 (Some rec) pid oc (rg2, db3) = (b, ctx, rg3, db4) \<longrightarrow>
          db4 = db3 \<and> b \<noteq> Inr True) \<and>
     (\<forall>ts_text now' cap f1 f2 reason msg rg2 n rg3 db4.
        requeue_partition_for_retry ts_text now' cap f1 f2 (Some rec) pid reason msg (rg2, db3) = (n, rg3, db4) \<longrightarrow>
          db4 = db3 \<and> (\<forall>k. n \<noteq> Inr (Some k))) \<and>
     (\<forall>now' ttl. renew now' ttl (sl_lease rec) db3 = Inr (False, db3)) \<and>
     release (sl_lease rec) db3 = Inr db3"
proof -
  let ?k = "(''snapshot_partitions'', pid)"
  note c = claim_partition_token [OF assms(1) claimed]
  have ok: "keys_ok db1" "keys_ok db2" "keys_ok db3"
    using c assms(3,5) work.ok_steps by blast+
  have moved: "token_of db3 ?k \<noteq> Some (le_token (sl_lease rec))
      \<and> (\<forall>m. token_of db3 ?k = Some m \<longrightarrow> le_token (sl_lease rec) < m)"
  proof (cases "token_of db2 ?k")
    case None
    then show ?thesis using work.gone_steps [OF assms(5) ok(2)] by simp
  next
    case (Some m)
    have "le_token (sl_lease rec) \<le> m" using work.grow_steps [OF assms(3) ok(1) _ Some] c by blast
    with assms(4) Some have less: "le_token (sl_lease rec) < m" by simp
    then show ?thesis
      using work.superseded [OF assms(5) ok(2) Some less] work.grow_steps [OF assms(5) ok(2) Some] by force
  qed
  have pid: "sl_partition_id rec = pid" "le_table (sl_lease rec) = ''snapshot_partitions''" "le_work_id (sl_lease rec) = pid"
    using c by simp_all
  have st: "stale_lease rec db3" using token_moved_stale [OF ok(3)] moved pid by simp
  have 1: "le_token (sl_lease rec) < le_token (sl_lease rec')"
    if "claim_partition gc' now' stale' pid w' region' owner' (rg2, db3) = (Some r', Some rec', rg3, db4)"
    for gc' now' stale' w' region' owner' rg2 r' rec' rg3 db4
    using claim_partition_token [OF ok(3) that] moved by force
  have out: "\<not> held_by (sl_lease rec) c" "\<not> fence (sl_lease rec) c" if "c \<in> set (lease_select db3 ''snapshot_partitions'')" for c
    using cols_of_unique [OF ok(3) that] moved pid
    by (auto simp: held_by_def fence_def token_of_def)
  have table: "check_table ''snapshot_partitions'' = Inr ()" by (simp add: check_table_def LEASED_TABLES_def)
  have "update_cols id (fence (sl_lease rec)) f (wd_partitions db3) = wd_partitions db3" for f
    unfolding update_cols_def using out(2) by (intro sql_update_none) (simp add: lease_select_def)
  then have idle: "lease_update ''snapshot_partitions'' (fence (sl_lease rec)) f db3 = db3" for f
    by (simp add: lease_update_def)
  have 4: "renew now' ttl (sl_lease rec) db3 = Inr (False, db3)" for now' ttl
    using out(1) pid table by (auto simp: renew_def)
  have 5: "release (sl_lease rec) db3 = Inr db3" using idle pid table by (simp add: release_def)
  have 2: "db4 = db3 \<and> b \<noteq> Inr True"
    if "mark_partition_terminal gc' now' f1 f2 (Some rec) pid oc (rg2, db3) = (b, ctx, rg3, db4)"
    for gc' now' f1 f2 oc rg2 b ctx rg3 db4
    using stale_handler_idle(1) [OF st, unfolded pid, OF that] by blast
  note 3 = stale_handler_idle(2) [OF st, unfolded pid]
  show ?thesis
    by (intro conjI; (intro allI)?; (intro impI)?) (fact 1 2 3 4 5)+
qed

text \<open>
  A sample run: worker A claims the first shard at time zero and stalls; 2000 seconds later its lease has
  lapsed and worker B claims the shard again.
\<close>

definition sample_queued :: work_db where
  "sample_queued =
     sample_work\<lparr>wd_partitions :=
       [sample_part\<lparr>w_status := ''QUEUED'', w_owner := None, w_expires := None, pt_enqueued_at := - 60 * SECOND\<rparr>]\<rparr>"

definition sample_claim where
  "sample_claim = claim_partition sweep_ctx 0 30 ''p1'' ''worker-a'' ''default'' (Some ''wA'') (empty_registry, sample_queued)"

definition sample_reclaimed :: work_db where
  "sample_reclaimed =
     snd (snd (snd (claim_partition sweep_ctx (2000 * SECOND) 30 ''p1'' ''worker-b'' ''default'' (Some ''wB'')
       (empty_registry, snd (snd (snd sample_claim))))))"

lemma sample_queued_keys: "keys_ok sample_queued"
  by (simp add: keys_ok_tables sample_queued_def sample_work_defs ids_def)

lemma sample_claim_taken: "fst sample_claim \<noteq> None" "fst (snd sample_claim) \<noteq> None"
  "le_token (sl_lease (the (fst (snd sample_claim)))) = 5"
  by code_simp+

lemma sample_reclaimed_token: "token_of sample_reclaimed (''snapshot_partitions'', ''p1'') = Some 6"
  by code_simp

theorem superseded_lease_is_inert_witness:
  "snd (snd (snd (mark_partition_terminal sweep_ctx (2001 * SECOND) (\<lambda>_. No_fault) (\<lambda>_. No_fault)
     (fst (snd sample_claim)) ''p1'' \<lparr>so_status = ''COMPLETED'', so_files = 3, so_bytes = 9, so_failure = None\<rparr>
     (empty_registry, sample_reclaimed)))) = sample_reclaimed \<and>
   fst (mark_partition_terminal sweep_ctx (2001 * SECOND) (\<lambda>_. No_fault) (\<lambda>_. No_fault)
     (fst (snd sample_claim)) ''p1'' \<lparr>so_status = ''COMPLETED'', so_files = 3, so_bytes = 9, so_failure = None\<rparr>
     (empty_registry, sample_reclaimed)) \<noteq> Inr True"
proof -
  obtain r rec rg1 db1 where c: "sample_claim = (Some r, Some rec, rg1, db1)"
    using sample_claim_taken(1,2) by (metis option.exhaust prod.exhaust_sel)
  have swept: "work_step\<^sup>*\<^sup>* db1 sample_reclaimed"
    using w_shard [OF s_claim, of sweep_ctx "2000 * SECOND" 30 "''p1''" "''worker-b''" "''default''" "Some ''wB''" empty_registry db1] c
    by (intro r_into_rtranclp) (simp add: sample_reclaimed_def prod_eq_iff)
  have token: "token_of sample_reclaimed (''snapshot_partitions'', ''p1'') \<noteq> Some (le_token (sl_lease rec))"
    using sample_reclaimed_token sample_claim_taken(3) [unfolded c] by simp
  note inert = superseded_lease_is_inert [OF sample_queued_keys c [unfolded sample_claim_def] swept token rtranclp.rtrancl_refl]
  define out where "out = mark_partition_terminal sweep_ctx (2001 * SECOND) (\<lambda>_. No_fault) (\<lambda>_. No_fault) (Some rec) ''p1''
      \<lparr>so_status = ''COMPLETED'', so_files = 3, so_bytes = 9, so_failure = None\<rparr> (empty_registry, sample_reclaimed)"
  obtain b ctx rg3 db4 where out: "out = (b, ctx, rg3, db4)" by (cases out)
  from inert [THEN conjunct2, THEN conjunct1, rule_format, OF out [unfolded out_def]] out
  have "snd (snd (snd out)) = sample_reclaimed \<and> fst out \<noteq> Inr True" by simp
  then show ?thesis by (simp add: out_def c)
qed

section \<open>What the sweep spares\<close>

text \<open>A shard whose lease is live, or that is already terminal.\<close>

definition spared :: "utc \<Rightarrow> partition_row \<Rightarrow> bool" where
  "spared now r \<longleftrightarrow> (\<exists>e. w_expires r = Some e \<and> now \<le> e) \<or> \<not> in_flight (w_status r)"

lemma sweep_pick_sound:
  assumes "distinct (ids rows)" "r \<in> set rows" "w_id r \<in> set (sweep_pick n locked p rows)"
  shows "p r"
proof -
  have "w_id r \<in> w_id ` set (take n (sort_key pt_enqueued_at (filter (\<lambda>r. p r \<and> \<not> locked (w_id r)) rows)))"
    using assms(3) unfolding sweep_pick_def set_map .
  then obtain r' where id: "w_id r = w_id r'"
    and "r' \<in> set (take n (sort_key pt_enqueued_at (filter (\<lambda>r. p r \<and> \<not> locked (w_id r)) rows)))" by (rule imageE)
  from in_set_takeD [OF this(2)]
  have "r' \<in> set (sort_key pt_enqueued_at (filter (\<lambda>r. p r \<and> \<not> locked (w_id r)) rows))" .
  with id have r': "r' \<in> set rows" "w_id r' = w_id r" "p r'" by simp_all
  have "row_of (w_id r) rows = Some r'" using row_of_distinct [OF assms(1) r'(1)] unfolding r'(2) .
  then have "r' = r" using row_of_distinct [OF assms(1,2)] by (metis option.inject)
  with r'(3) show ?thesis by (simp only:)
qed

lemma not_spared:
  "requeue_stale cfg gc now db r \<Longrightarrow> \<not> spared now r" "unclaimed_stale cfg gc now db r \<Longrightarrow> \<not> spared now r"
  "replay_where cfg gc now db r \<Longrightarrow> \<not> spared now r" "poison_where cfg gc now db r \<Longrightarrow> \<not> spared now r"
  "expired_where cfg gc now db r \<Longrightarrow> \<not> spared now r"
  by (auto simp: requeue_stale_def unclaimed_stale_def never_claimed_def replay_where_def poison_where_def poisoned_def
      expired_where_def spared_def lapsed_def in_flight_def)

lemma spared_update:
  assumes "r \<in> set (wd_partitions db)" "\<not> p r"
  shows "r \<in> set (wd_partitions (update_parts p f db))"
  using assms by (force simp: update_parts_def in_sql_update)

lemma update_parts_frame [simp]:
  "wd_guards (update_parts p f db) = wd_guards db" "wd_items (update_parts p f db) = wd_items db"
  "wd_snapshots (update_parts p f db) = wd_snapshots db" "wd_jobs (update_parts p f db) = wd_jobs db"
  "wd_heartbeats (update_parts p f db) = wd_heartbeats db"
  by (simp_all add: update_parts_def)

lemma spared_after_a:
  assumes "keys_ok db" "r \<in> set (wd_partitions db)" "spared now r"
  shows "r \<in> set (wd_partitions (after_a cfg gc ts_text now locked db))"
proof -
  have ok1: "keys_ok (after_requeue cfg gc now locked db)"
    using assms(1) fence_le_update_parts [OF advances_sweep(1)]
    by (auto simp: after_requeue_def step_a_requeue_def Let_def fence_le_def)
  have "\<not> w_id r \<in> set (sweep_pick (rc_batch cfg) locked (requeue_stale cfg gc now db) (wd_partitions db))"
    using sweep_pick_sound [of "wd_partitions db" r] assms not_spared(1) unfolding keys_ok_tables by blast
  then have 1: "r \<in> set (wd_partitions (after_requeue cfg gc now locked db))"
    using assms(2) by (auto simp: after_requeue_def step_a_requeue_def Let_def intro!: spared_update)
  define d where "d = after_requeue cfg gc now locked db"
  have "\<not> w_id r \<in> set (sweep_pick (rc_batch cfg) locked (unclaimed_stale cfg gc now d) (wd_partitions d))"
    using sweep_pick_sound [of "wd_partitions d" r] 1 ok1 assms(3) not_spared(2)
    unfolding keys_ok_tables d_def by blast
  then have 2: "r \<in> set (wd_partitions (after_unclaimed cfg gc ts_text now locked db))"
    using 1 by (auto simp: after_unclaimed_def step_a_unclaimed_def Let_def d_def intro!: spared_update)
  then have 3: "r \<in> set (wd_partitions (after_replay cfg gc ts_text now locked db))"
    using not_spared(3) assms(3) by (auto simp: after_replay_def step_a_replay_def intro!: spared_update)
  then have "r \<in> set (wd_partitions (after_poison cfg gc ts_text now locked db))"
    using not_spared(4) assms(3) by (auto simp: after_poison_def Let_def intro!: spared_update)
  then show ?thesis
    using not_spared(5) assms(3) by (auto simp: after_a_def Let_def intro!: spared_update)
qed

lemma after_a_frame [simp]:
  "wd_guards (after_a cfg gc ts_text now locked db) = wd_guards db"
  "wd_items (after_a cfg gc ts_text now locked db) = wd_items db"
  "wd_snapshots (after_a cfg gc ts_text now locked db) = wd_snapshots db"
  "wd_jobs (after_a cfg gc ts_text now locked db) = wd_jobs db"
  "wd_heartbeats (after_a cfg gc ts_text now locked db) = wd_heartbeats db"
  by (simp_all add: after_a_def after_poison_def after_replay_def after_unclaimed_def after_requeue_def
      step_a_replay_def step_a_unclaimed_def step_a_requeue_def Let_def)

lemma after_bcd_frame [simp]:
  "wd_partitions (after_d cfg gc ts_text now locked db) = wd_partitions (after_a cfg gc ts_text now locked db)"
  "wd_partitions (after_c cfg gc ts_text now locked db) = wd_partitions (after_a cfg gc ts_text now locked db)"
  "wd_partitions (after_b cfg gc ts_text now locked db) = wd_partitions (after_a cfg gc ts_text now locked db)"
  "wd_guards (after_d cfg gc ts_text now locked db) = wd_guards db"
  "wd_guards (after_c cfg gc ts_text now locked db) = wd_guards db"
  "wd_guards (after_b cfg gc ts_text now locked db) = wd_guards db"
  "wd_jobs (after_d cfg gc ts_text now locked db) = wd_jobs (after_c cfg gc ts_text now locked db)"
  "wd_snapshots (after_c cfg gc ts_text now locked db) = wd_snapshots (after_b cfg gc ts_text now locked db)"
  "wd_jobs (after_b cfg gc ts_text now locked db) = wd_jobs db"
  by (simp_all add: after_d_def after_c_def after_b_def step_b_def step_c_def step_d_def)

lemma shards_of_after [simp]:
  "shards_of i (after_b cfg gc ts_text now locked db) = shards_of i (after_a cfg gc ts_text now locked db)"
  "shards_of i (after_c cfg gc ts_text now locked db) = shards_of i (after_a cfg gc ts_text now locked db)"
  "shards_of i (after_d cfg gc ts_text now locked db) = shards_of i (after_a cfg gc ts_text now locked db)"
  by (simp_all add: shards_of_def)

section \<open>Honest statuses\<close>

lemma settle_fields [simp]:
  "w_id (settle_snapshot now db s) = w_id s" "sn_job_id (settle_snapshot now db s) = sn_job_id s"
  "w_status (settle_snapshot now db s) = orphan_status (shards_of (w_id s) db) s"
  "w_id (correct_snapshot db s) = w_id s" "sn_job_id (correct_snapshot db s) = sn_job_id s"
  "sn_extra (correct_snapshot db s) = sn_extra s"
  "w_status (correct_snapshot db s) = integrity_status (shards_of (w_id s) db) s"
  by (simp_all add: settle_snapshot_def correct_snapshot_def restate_counters_def Let_def)

lemma degraded_correct [simp]: "degraded (correct_snapshot db s) = degraded s"
  by (simp add: degraded_def)

lemma orphan_status_terminal: "orphan_status parts s \<in> {S_COMPLETED, S_PARTIAL, S_FAILED}"
  by (simp add: orphan_status_def)

lemma integrity_status_terminal:
  "w_status s \<in> {S_COMPLETED, S_PARTIAL, S_FAILED} \<Longrightarrow> integrity_status parts s \<in> {S_COMPLETED, S_PARTIAL, S_FAILED}"
  by (auto simp: integrity_status_def)

lemma integrity_status_cong:
  "degraded s' = degraded s \<Longrightarrow> w_status s' = integrity_status parts s \<Longrightarrow> integrity_status parts s' = integrity_status parts s"
  by (simp add: integrity_status_def)

text \<open>COMPLETED is only ever derived for a snapshot all of whose shards completed without loss.\<close>

lemma integrity_completed:
  assumes "parts \<noteq> []" "integrity_status parts s = S_COMPLETED" "w_status s \<noteq> S_COMPLETED \<or> (\<forall>r \<in> set parts. w_status r \<in> {''COMPLETED'', ''FAILED''})"
  shows "(\<forall>r \<in> set parts. w_status r = ''COMPLETED'' \<and> \<not> lossy r) \<and> \<not> degraded s"
  using assms by (auto simp: integrity_status_def split: if_splits)

lemma honest_after_d:
  assumes "s' \<in> set (wd_snapshots (after_d cfg gc ts_text now locked db))"
    and "shards_of (w_id s') (after_a cfg gc ts_text now locked db) \<noteq> []"
    and "copy_ready gc now (wd_guards db) (snapshot_scope (w_id s'))"
    and "\<forall>r \<in> set (shards_of (w_id s') (after_a cfg gc ts_text now locked db)). \<not> in_flight (w_status r)"
    and "w_status s' \<in> {S_COMPLETED, S_PARTIAL, S_FAILED}"
  shows "w_status s' = integrity_status (shards_of (w_id s') (after_a cfg gc ts_text now locked db)) s'"
proof -
  define c where "c = after_c cfg gc ts_text now locked db"
  obtain s where s: "s \<in> set (wd_snapshots c)"
      "s' = (if lying_snapshot gc now c s then correct_snapshot c s else s)"
    using assms(1) by (auto simp: after_d_def step_d_def c_def in_sql_update)
  have sh: "shards_of i c = shards_of i (after_a cfg gc ts_text now locked db)" for i by (simp add: c_def)
  have g: "wd_guards c = wd_guards db" by (simp add: c_def)
  show ?thesis
  proof (cases "lying_snapshot gc now c s")
    case True
    with s(2) have s': "s' = correct_snapshot c s" by simp
    have "integrity_status (shards_of (w_id s) c) s' = integrity_status (shards_of (w_id s) c) s"
      using s' by (intro integrity_status_cong) simp_all
    then show ?thesis using s' by (simp add: sh)
  next
    case False
    with s(2) have "s' = s" by simp
    then show ?thesis using False assms(2-5) by (auto simp: lying_snapshot_def sh g)
  qed
qed

lemma unique_image:
  assumes "distinct (ids rows)" "r \<in> set rows" "r' \<in> g ` set rows" "\<And>r. w_id (g r) = w_id r" "w_id r' = w_id r"
  shows "r' = g r"
proof -
  obtain r0 where r0: "r0 \<in> set rows" "r' = g r0" using assms(3) by blast
  have "w_id r0 = w_id r" using r0(2) assms(4,5) by metis
  then have "row_of (w_id r) rows = Some r0" using row_of_distinct [OF assms(1) r0(1)] by (simp only:)
  then have "r0 = r" using row_of_distinct [OF assms(1,2)] by (metis option.inject)
  with r0(2) show ?thesis by (simp only:)
qed

section \<open>Bottom-up settlement\<close>

lemma settled_snapshot:
  assumes "keys_ok db" "s \<in> set (wd_snapshots db)" "s' \<in> set (wd_snapshots (after_d cfg gc ts_text now locked db))"
    and "w_id s' = w_id s" "w_status s = S_IN_PROGRESS" "w_status s' \<noteq> S_IN_PROGRESS"
  shows "orphan_snapshot cfg gc now (after_a cfg gc ts_text now locked db) s"
    and "shards_of (w_id s) (after_a cfg gc ts_text now locked db) = [] \<Longrightarrow> w_status s' = S_FAILED"
proof -
  define a where "a = after_a cfg gc ts_text now locked db"
  define c where "c = after_c cfg gc ts_text now locked db"
  define g where "g = (\<lambda>s. let s1 = (if orphan_snapshot cfg gc now a s then settle_snapshot now a s else s)
                           in if lying_snapshot gc now c s1 then correct_snapshot c s1 else s1)"
  have d: "wd_snapshots (after_d cfg gc ts_text now locked db) = sql_update (lying_snapshot gc now c) (correct_snapshot c) (wd_snapshots c)"
    by (simp add: after_d_def step_d_def c_def)
  have c': "wd_snapshots c = sql_update (orphan_snapshot cfg gc now a) (settle_snapshot now a) (wd_snapshots db)"
    by (simp add: c_def after_b_def step_b_def a_def)
  have "set (wd_snapshots (after_d cfg gc ts_text now locked db)) = g ` set (wd_snapshots db)"
    unfolding d c' set_sql_update image_image g_def Let_def ..
  then have "s' = g s"
    using assms by (intro unique_image [of "wd_snapshots db"]) (auto simp: keys_ok_tables g_def Let_def)
  then show "orphan_snapshot cfg gc now (after_a cfg gc ts_text now locked db) s"
    using assms(5,6) by (auto simp: g_def Let_def a_def lying_snapshot_def split: if_splits)
  show "w_status s' = S_FAILED" if "shards_of (w_id s) (after_a cfg gc ts_text now locked db) = []"
  proof -
    have "shards_of (w_id s) c = []" "shards_of (w_id s) a = []" using that by (simp_all add: c_def a_def)
    then show ?thesis using \<open>s' = g s\<close> assms(5,6)
      by (auto simp: g_def Let_def lying_snapshot_def orphan_status_def split: if_splits)
  qed
qed

lemma snapshots_of_status_after_d:
  assumes "s' \<in> set (wd_snapshots (after_d cfg gc ts_text now locked db))"
  shows "\<exists>s \<in> set (wd_snapshots (after_b cfg gc ts_text now locked db)).
           w_id s' = w_id s \<and> sn_job_id s' = sn_job_id s \<and> (w_status s' = S_IN_PROGRESS \<longrightarrow> w_status s = S_IN_PROGRESS)"
proof -
  define c where "c = after_c cfg gc ts_text now locked db"
  obtain s where s: "s \<in> set (wd_snapshots c)" "s' = (if lying_snapshot gc now c s then correct_snapshot c s else s)"
    using assms by (auto simp: after_d_def step_d_def c_def in_sql_update)
  have "w_status s' = S_IN_PROGRESS \<Longrightarrow> w_status s = S_IN_PROGRESS"
    using s(2) integrity_status_terminal [of s "shards_of (w_id s) c"] by (auto simp: lying_snapshot_def split: if_splits)
  with s show ?thesis by (intro bexI [of _ s]) (auto simp: c_def)
qed

lemma snapshots_of_after_d:
  "snapshots_of jid (after_d cfg gc ts_text now locked db) = [] \<longleftrightarrow> snapshots_of jid (after_b cfg gc ts_text now locked db) = []"
proof -
  define c where "c = after_c cfg gc ts_text now locked db"
  have "filter (\<lambda>s. sn_job_id s = Some jid) (sql_update p (correct_snapshot c) ss) = [] \<longleftrightarrow>
      filter (\<lambda>s. sn_job_id s = Some jid) ss = []" for p ss
    by (induction ss) auto
  then show ?thesis by (simp add: snapshots_of_def after_d_def step_d_def c_def)
qed

lemma settled_job:
  assumes "keys_ok db" "j \<in> set (wd_jobs db)" "j' \<in> set (wd_jobs (after_d cfg gc ts_text now locked db))"
    and "w_id j' = w_id j" "w_status j = J_RUNNING" "w_status j' \<noteq> J_RUNNING"
  shows "snapshots_of (w_id j) (after_d cfg gc ts_text now locked db) \<noteq> []
         \<and> (\<forall>s \<in> set (snapshots_of (w_id j) (after_d cfg gc ts_text now locked db)). w_status s \<noteq> S_IN_PROGRESS)
         \<and> w_status j' = job_rollup (snapshots_of (w_id j) (after_b cfg gc ts_text now locked db))"
proof -
  define b where "b = after_b cfg gc ts_text now locked db"
  define g where "g = (\<lambda>j. if orphan_job gc now b j then settle_job now b j else j)"
  have "set (wd_jobs (after_d cfg gc ts_text now locked db)) = g ` set (wd_jobs db)"
    by (simp add: after_c_def step_c_def b_def [symmetric] set_sql_update g_def) (simp add: b_def)
  then have "j' = g j"
    using assms by (intro unique_image [of "wd_jobs db"]) (auto simp: keys_ok_tables g_def settle_job_def)
  then have o: "orphan_job gc now b j" "w_status j' = job_rollup (snapshots_of (w_id j) b)"
    using assms(5,6) by (auto simp: g_def settle_job_def split: if_splits)
  have "w_status s \<noteq> S_IN_PROGRESS" if "s \<in> set (snapshots_of (w_id j) (after_d cfg gc ts_text now locked db))" for s
  proof -
    from that have "s \<in> set (wd_snapshots (after_d cfg gc ts_text now locked db))" "sn_job_id s = Some (w_id j)"
      by (simp_all add: snapshots_of_def)
    with snapshots_of_status_after_d obtain s0 where "s0 \<in> set (wd_snapshots b)" "sn_job_id s0 = Some (w_id j)"
        "w_status s = S_IN_PROGRESS \<longrightarrow> w_status s0 = S_IN_PROGRESS"
      unfolding b_def by metis
    then show ?thesis using o(1) by (auto simp: orphan_job_def snapshots_of_def)
  qed
  then show ?thesis using o snapshots_of_after_d by (auto simp: orphan_job_def b_def)
qed

lemma unowned_after_a [simp]: "unowned_too_long cfg now (after_a cfg gc ts_text now locked db) s = unowned_too_long cfg now db s"
  by (simp add: unowned_too_long_def live_owner_def items_of_def)

text \<open>
  C14. A committed sweep settles bottom-up and honestly. A shard whose lease is live, or that is terminal, is
  left exactly as it was. A snapshot leaves IN_PROGRESS only when no shard of it is in flight; one without
  shards only as FAILED, and only if its lease has been dead for the grace period (or it never had one
  and is old), its owner has no recent heartbeat and it committed no item recently. A job leaves RUNNING
  only with at least one snapshot and none in progress. And every settled snapshot with settled shards
  carries the status its shards imply: COMPLETED only if all of them completed, none lost files and no
  handler declared the run degraded.
\<close>

theorem sweep_settles_bottom_up:
  assumes "keys_ok (rs_db st)" "sweep_orphans cfg gc ts_text now locked st = (stats, st')" "\<not> rc_dry_run cfg"
  shows
    "(\<forall>r \<in> set (wd_partitions (rs_db st)).
        (\<exists>e. w_expires r = Some e \<and> now \<le> e) \<or> \<not> in_flight (w_status r) \<longrightarrow> r \<in> set (wd_partitions (rs_db st'))) \<and>
     (\<forall>s \<in> set (wd_snapshots (rs_db st)). \<forall>s' \<in> set (wd_snapshots (rs_db st')).
        w_id s' = w_id s \<and> w_status s = S_IN_PROGRESS \<and> w_status s' \<noteq> S_IN_PROGRESS \<longrightarrow>
          (\<forall>r \<in> set (shards_of (w_id s) (rs_db st')). \<not> in_flight (w_status r)) \<and>
          (shards_of (w_id s) (rs_db st') = [] \<longrightarrow> w_status s' = S_FAILED \<and> unowned_too_long cfg now (rs_db st) s)) \<and>
     (\<forall>j \<in> set (wd_jobs (rs_db st)). \<forall>j' \<in> set (wd_jobs (rs_db st')).
        w_id j' = w_id j \<and> w_status j = J_RUNNING \<and> w_status j' \<noteq> J_RUNNING \<longrightarrow>
          snapshots_of (w_id j) (rs_db st') \<noteq> [] \<and>
          (\<forall>s \<in> set (snapshots_of (w_id j) (rs_db st')). w_status s \<noteq> S_IN_PROGRESS)) \<and>
     (\<forall>s' \<in> set (wd_snapshots (rs_db st')).
        shards_of (w_id s') (rs_db st') \<noteq> [] \<and> copy_ready gc now (wd_guards (rs_db st)) (snapshot_scope (w_id s')) \<and>
        (\<forall>r \<in> set (shards_of (w_id s') (rs_db st')). shard_terminal (w_status r)) \<and>
        w_status s' \<in> {S_COMPLETED, S_PARTIAL, S_FAILED} \<longrightarrow>
          w_status s' = integrity_status (shards_of (w_id s') (rs_db st')) s' \<and>
          (w_status s' = S_COMPLETED \<longrightarrow>
             (\<forall>r \<in> set (shards_of (w_id s') (rs_db st')). w_status r = ''COMPLETED'' \<and> \<not> lossy r) \<and> \<not> degraded s'))"
proof -
  have db': "rs_db st' = after_d cfg gc ts_text now locked (rs_db st)"
    using assms(2,3) sweep_body_db [of cfg gc ts_text now locked st] by (auto simp: sweep_orphans_def split: prod.splits)
  have spare: "r \<in> set (wd_partitions (rs_db st'))"
    if "r \<in> set (wd_partitions (rs_db st))" "(\<exists>e. w_expires r = Some e \<and> now \<le> e) \<or> \<not> in_flight (w_status r)" for r
    using spared_after_a [OF assms(1) that(1), of now] that(2) by (simp add: db' spared_def)
  have snap: "(\<forall>r \<in> set (shards_of (w_id s) (rs_db st')). \<not> in_flight (w_status r)) \<and>
      (shards_of (w_id s) (rs_db st') = [] \<longrightarrow> w_status s' = S_FAILED \<and> unowned_too_long cfg now (rs_db st) s)"
    if "s \<in> set (wd_snapshots (rs_db st))" "s' \<in> set (wd_snapshots (rs_db st'))"
      "w_id s' = w_id s" "w_status s = S_IN_PROGRESS" "w_status s' \<noteq> S_IN_PROGRESS" for s s'
    using settled_snapshot [OF assms(1) that(1) _ that(3-5), of cfg gc ts_text now locked] that(2)
    by (auto simp: db' orphan_snapshot_def)
  have job: "snapshots_of (w_id j) (rs_db st') \<noteq> [] \<and>
      (\<forall>s \<in> set (snapshots_of (w_id j) (rs_db st')). w_status s \<noteq> S_IN_PROGRESS)"
    if "j \<in> set (wd_jobs (rs_db st))" "j' \<in> set (wd_jobs (rs_db st'))"
      "w_id j' = w_id j" "w_status j = J_RUNNING" "w_status j' \<noteq> J_RUNNING" for j j'
    using settled_job [OF assms(1) that(1) that(2) [unfolded db'] that(3-5)] by (simp add: db')
  have honest: "w_status s' = integrity_status (shards_of (w_id s') (rs_db st')) s' \<and>
      (w_status s' = S_COMPLETED \<longrightarrow>
         (\<forall>r \<in> set (shards_of (w_id s') (rs_db st')). w_status r = ''COMPLETED'' \<and> \<not> lossy r) \<and> \<not> degraded s')"
    if "s' \<in> set (wd_snapshots (rs_db st'))" "shards_of (w_id s') (rs_db st') \<noteq> []"
      "copy_ready gc now (wd_guards (rs_db st)) (snapshot_scope (w_id s'))"
      "\<forall>r \<in> set (shards_of (w_id s') (rs_db st')). shard_terminal (w_status r)"
      "w_status s' \<in> {S_COMPLETED, S_PARTIAL, S_FAILED}" for s'
  proof -
    have "\<forall>r \<in> set (shards_of (w_id s') (rs_db st')). \<not> in_flight (w_status r)"
      using that(4) by (auto simp: shard_terminal_def in_flight_def)
    then have eq: "w_status s' = integrity_status (shards_of (w_id s') (rs_db st')) s'"
      using honest_after_d [of s' cfg gc ts_text now locked "rs_db st"] that by (simp add: db')
    moreover have "(\<forall>r \<in> set (shards_of (w_id s') (rs_db st')). w_status r = ''COMPLETED'' \<and> \<not> lossy r) \<and> \<not> degraded s'"
      if "w_status s' = S_COMPLETED"
    proof (rule integrity_completed [OF \<open>shards_of (w_id s') (rs_db st') \<noteq> []\<close>])
      show "integrity_status (shards_of (w_id s') (rs_db st')) s' = S_COMPLETED" using eq that by simp
      show "w_status s' \<noteq> S_COMPLETED \<or> (\<forall>r \<in> set (shards_of (w_id s') (rs_db st')). w_status r \<in> {''COMPLETED'', ''FAILED''})"
        using \<open>\<forall>r \<in> set (shards_of (w_id s') (rs_db st')). shard_terminal (w_status r)\<close> by (simp add: shard_terminal_def)
    qed
    ultimately show ?thesis by blast
  qed
  show ?thesis using spare snap job honest by blast
qed

definition sample_recon :: "work_db \<Rightarrow> recon_state" where
  "sample_recon db = \<lparr>rs_db = db, rs_dead_letters = [], rs_alerts = [], rs_tenants = [''t1'']\<rparr>"

theorem sweep_settles_bottom_up_witness:
  "sample_part \<in> set (wd_partitions (rs_db (snd (sweep_orphans default_recon sweep_ctx (\<lambda>_. []) (100 * SECOND) (\<lambda>_. False)
     (sample_recon sample_work)))))"
proof -
  let ?st = "sample_recon sample_work"
  let ?out = "sweep_orphans default_recon sweep_ctx (\<lambda>_. []) (100 * SECOND) (\<lambda>_. False) ?st"
  have keys: "keys_ok (rs_db ?st)" using sample_work_keys by (simp add: sample_recon_def)
  have out: "?out = (fst ?out, snd ?out)" by simp
  have wet: "\<not> rc_dry_run default_recon" by (simp add: default_recon_def)
  have "sample_part \<in> set (wd_partitions (rs_db ?st))" by (simp add: sample_recon_def sample_work_def)
  moreover have "w_expires sample_part = Some (600 * SECOND)" "100 * SECOND \<le> 600 * SECOND"
    by (simp_all add: sample_part_def SECOND_def)
  ultimately show ?thesis
    using sweep_settles_bottom_up [OF keys out wet, THEN conjunct1] by blast
qed

section \<open>Where the steps disagree\<close>

lemma row_keeps_snapshot:
  "pt_snapshot_id (requeue_row now r) = pt_snapshot_id r" "pt_snapshot_id (republish_row ts_text now r) = pt_snapshot_id r"
  "pt_snapshot_id (replay_row ts_text now r) = pt_snapshot_id r" "pt_snapshot_id (fail_row r) = pt_snapshot_id r"
  "pt_snapshot_id (expire_row ts_text now r) = pt_snapshot_id r"
  by (simp_all add: requeue_row_def republish_row_def replay_row_def fail_row_def expire_row_def)

lemma shards_of_update_parts:
  assumes "\<And>r. pt_snapshot_id (f r) = pt_snapshot_id r" "\<And>r. r \<in> set (shards_of sid db) \<Longrightarrow> \<not> p r"
  shows "shards_of sid (update_parts p f db) = shards_of sid db"
proof -
  have "(\<And>r. r \<in> set rows \<Longrightarrow> pt_snapshot_id r = sid \<Longrightarrow> \<not> p r) \<Longrightarrow>
      filter (\<lambda>r. pt_snapshot_id r = sid) (sql_update p f rows) = filter (\<lambda>r. pt_snapshot_id r = sid) rows" for rows
    using assms(1) by (induction rows) auto
  with assms(2) show ?thesis by (auto simp: shards_of_def update_parts_def)
qed

text \<open>A snapshot whose shards are all spared keeps them through step A.\<close>

lemma shards_of_after_a:
  assumes "keys_ok db" "\<forall>r \<in> set (shards_of sid db). spared now r"
  shows "shards_of sid (after_a cfg gc ts_text now locked db) = shards_of sid db"
proof -
  have pick: "\<not> w_id r \<in> set (sweep_pick n locked p (wd_partitions d))"
    if "keys_ok d" "r \<in> set (shards_of sid d)" "spared now r" "\<And>r. p r \<Longrightarrow> \<not> spared now r" for d n p r
    using sweep_pick_sound [of "wd_partitions d" r n locked p] that unfolding keys_ok_tables shards_of_def by auto
  define d1 where "d1 = after_requeue cfg gc now locked db"
  have 1: "shards_of sid d1 = shards_of sid db"
    unfolding d1_def after_requeue_def step_a_requeue_def Let_def snd_conv
    by (intro shards_of_update_parts row_keeps_snapshot pick assms(1) not_spared(1)) (use assms(2) in auto)
  have ok1: "keys_ok d1"
    using assms(1) fence_le_update_parts [OF advances_sweep(1)]
    by (auto simp: d1_def after_requeue_def step_a_requeue_def Let_def fence_le_def)
  define d2 where "d2 = after_unclaimed cfg gc ts_text now locked db"
  have 2: "shards_of sid d2 = shards_of sid d1"
    unfolding d2_def after_unclaimed_def step_a_unclaimed_def Let_def snd_conv d1_def [symmetric]
    by (intro shards_of_update_parts row_keeps_snapshot pick ok1 not_spared(2)) (use assms(2) 1 in auto)
  define d3 where "d3 = after_replay cfg gc ts_text now locked db"
  have 3: "shards_of sid d3 = shards_of sid d2"
    unfolding d3_def after_replay_def step_a_replay_def d2_def [symmetric]
    by (intro shards_of_update_parts row_keeps_snapshot) (use assms(2) 1 2 not_spared(3) in auto)
  define d4 where "d4 = after_poison cfg gc ts_text now locked db"
  have 4: "shards_of sid d4 = shards_of sid d3"
    unfolding d4_def after_poison_def d3_def [symmetric] Let_def
    by (intro shards_of_update_parts row_keeps_snapshot) (use assms(2) 1 2 3 not_spared(4) in auto)
  have "shards_of sid (after_a cfg gc ts_text now locked db) = shards_of sid d4"
    unfolding after_a_def d4_def [symmetric] Let_def
    by (intro shards_of_update_parts row_keeps_snapshot) (use assms(2) 1 2 3 4 not_spared(5) in auto)
  with 1 2 3 4 show ?thesis by simp
qed

lemma filter_job_update:
  assumes "\<And>s. sn_job_id (f s) = sn_job_id s"
  shows "filter (\<lambda>s. sn_job_id s = Some jid) (sql_update p f ss) = sql_update p f (filter (\<lambda>s. sn_job_id s = Some jid) ss)"
  using assms by (induction ss) auto

text \<open>
  C39. A job can be settled PARTIAL over a snapshot that the same sweep settles FAILED. When an orphaned
  snapshot is the only one of a running job, all its shards failed, and one of them recorded lost files,
  step B reads the loss first and writes PARTIAL, step C rolls the job up to PARTIAL from it, and step D
  then corrects the snapshot to FAILED because every shard failed. The job is terminal and no later
  sweep revisits it, although its roll-up of what is left in the table is FAILED.
\<close>

theorem lossy_failure_splits_job_and_snapshot:
  assumes "keys_ok (rs_db st)" "sweep_orphans cfg gc ts_text now locked st = (stats, st')" "\<not> rc_dry_run cfg"
    and "s \<in> set (wd_snapshots (rs_db st))" "w_status s = S_IN_PROGRESS"
    and "copy_ready gc now (wd_guards (rs_db st)) (snapshot_scope (w_id s))"
    and "shards_of (w_id s) (rs_db st) \<noteq> []" "\<forall>r \<in> set (shards_of (w_id s) (rs_db st)). w_status r = ''FAILED''"
    and "\<exists>r \<in> set (shards_of (w_id s) (rs_db st)). lossy r"
    and "j \<in> set (wd_jobs (rs_db st))" "w_status j = J_RUNNING"
    and "copy_ready gc now (wd_guards (rs_db st)) (job_scope (w_id j))" "snapshots_of (w_id j) (rs_db st) = [s]"
  shows "\<exists>s'. snapshots_of (w_id j) (rs_db st') = [s'] \<and> w_status s' = S_FAILED
           \<and> map_option w_status (row_of (w_id j) (wd_jobs (rs_db st'))) = Some J_PARTIAL
           \<and> job_rollup (snapshots_of (w_id j) (rs_db st')) = J_FAILED"
proof -
  let ?db = "rs_db st"
  define a where "a = after_a cfg gc ts_text now locked ?db"
  define b where "b = after_b cfg gc ts_text now locked ?db"
  define c where "c = after_c cfg gc ts_text now locked ?db"
  have db': "rs_db st' = after_d cfg gc ts_text now locked ?db"
    using assms(2,3) sweep_body_db [of cfg gc ts_text now locked st] by (auto simp: sweep_orphans_def split: prod.splits)
  have sh: "shards_of (w_id s) a = shards_of (w_id s) ?db"
    unfolding a_def using assms(8) by (intro shards_of_after_a assms(1)) (auto simp: spared_def in_flight_def)
  have shc: "shards_of (w_id s) c = shards_of (w_id s) ?db" using sh by (simp add: c_def a_def)
  have "orphan_snapshot cfg gc now a s"
    using assms(5-8) sh by (simp add: orphan_snapshot_def in_flight_def) (simp add: a_def)
  then have b: "snapshots_of (w_id j) b = [settle_snapshot now a s]"
    using assms(13) unfolding snapshots_of_def b_def after_b_def step_b_def a_def [symmetric]
    by (simp add: filter_job_update) (simp add: a_def)
  define s1 where "s1 = settle_snapshot now a s"
  have s1: "w_status s1 = S_PARTIAL" "w_id s1 = w_id s"
    using assms(7,9) sh by (simp_all add: s1_def orphan_status_def)
  have oj: "orphan_job gc now b j"
    using assms(11,12) b s1(1) by (simp add: orphan_job_def s1_def [symmetric]) (simp add: b_def)
  have roll: "job_rollup (snapshots_of (w_id j) b) = J_PARTIAL"
    using b s1(1) by (simp add: job_rollup_def job_partial_def s1_def)
  have dist: "distinct (ids (wd_jobs ?db))" using assms(1) by (simp add: keys_ok_tables)
  have "wd_jobs (rs_db st') = sql_update (orphan_job gc now b) (settle_job now b) (wd_jobs ?db)"
    unfolding db' by (simp add: after_c_def step_c_def b_def)
  then have job: "map_option w_status (row_of (w_id j) (wd_jobs (rs_db st'))) = Some J_PARTIAL"
    using row_of_distinct [OF dist assms(10)] oj roll
    by (simp add: row_of_sql_update settle_job_def)
  have integ: "integrity_status (shards_of (w_id s) c) s1 = S_FAILED"
    using assms(8) shc by (simp add: integrity_status_def)
  have lying: "lying_snapshot gc now c s1"
    using assms(6,7,8) shc s1 integ by (simp add: lying_snapshot_def in_flight_def) (simp add: c_def)
  have "snapshots_of (w_id j) (rs_db st') = [correct_snapshot c s1]"
    using b lying unfolding db' snapshots_of_def after_d_def step_d_def c_def [symmetric]
    by (simp add: filter_job_update) (simp add: c_def b_def s1_def)
  moreover have "w_status (correct_snapshot c s1) = S_FAILED" using integ s1(2) by simp
  ultimately show ?thesis using job by (simp add: job_rollup_def)
qed

text \<open>Both shards failed, the first one counting two lost files.\<close>

definition sample_lossy :: work_db where
  "sample_lossy =
     sample_work\<lparr>wd_partitions :=
       [sample_part\<lparr>w_status := ''FAILED'', pt_failure_state := Some [''files_failed'' \<mapsto> JInt 2]\<rparr>,
        sample_part\<lparr>w_id := ''p2'', w_status := ''FAILED''\<rparr>]\<rparr>"

lemma sample_lossy_parts:
  "keys_ok sample_lossy" "shards_of ''s1'' sample_lossy = wd_partitions sample_lossy"
  "\<forall>r \<in> set (wd_partitions sample_lossy). w_status r = ''FAILED''" "\<exists>r \<in> set (wd_partitions sample_lossy). lossy r"
  "wd_partitions sample_lossy \<noteq> []" "wd_snapshots sample_lossy = [sample_snap]" "wd_jobs sample_lossy = [sample_job_row]"
  "wd_guards sample_lossy = empty_guards"
  by (simp_all add: keys_ok_tables ids_def sample_lossy_def sample_work_defs shards_of_def lossy_def json_positive_number_def)

theorem lossy_failure_splits_job_and_snapshot_witness:
  "map_option w_status (row_of ''j1'' (wd_jobs (rs_db (snd (sweep_orphans default_recon sweep_ctx (\<lambda>_. []) (100 * SECOND)
     (\<lambda>_. False) (sample_recon sample_lossy)))))) = Some J_PARTIAL"
proof -
  let ?st = "sample_recon sample_lossy"
  let ?out = "sweep_orphans default_recon sweep_ctx (\<lambda>_. []) (100 * SECOND) (\<lambda>_. False) ?st"
  have db: "rs_db ?st = sample_lossy" by (simp add: sample_recon_def)
  have out: "?out = (fst ?out, snd ?out)" by simp
  have wet: "\<not> rc_dry_run default_recon" by (simp add: default_recon_def)
  have keys: "w_id sample_snap = ''s1''" "w_id sample_job_row = ''j1''" "w_status sample_snap = S_IN_PROGRESS"
    "w_status sample_job_row = J_RUNNING" "sn_job_id sample_snap = Some ''j1''"
    by (simp_all add: sample_work_defs)
  show ?thesis
    using lossy_failure_splits_job_and_snapshot [OF _ out wet, of sample_snap sample_job_row]
    by (simp add: db keys sample_lossy_parts snapshots_of_def copy_ready_empty) blast
qed

text \<open>
  The payloads of a sweep are collected before its outcome is known: a dry run rolls back every
  statement and its tick still publishes the messages of a real run.
\<close>

lemma where_dry_run:
  "requeue_stale (cfg\<lparr>rc_dry_run := b\<rparr>) = requeue_stale cfg" "unclaimed_stale (cfg\<lparr>rc_dry_run := b\<rparr>) = unclaimed_stale cfg"
  by (simp_all add: fun_eq_iff requeue_stale_def unclaimed_stale_def live_owner_def)

lemma dry_run_publishes:
  "sweep_tick (cfg\<lparr>rc_dry_run := True\<rparr>) gc ts_text now locked publishes st =
     (fst (sweep_tick (cfg\<lparr>rc_dry_run := False\<rparr>) gc ts_text now locked publishes st), st)"
proof -
  have "ss_payloads (fst (sweep_orphans (cfg\<lparr>rc_dry_run := b\<rparr>) gc ts_text now locked st)) =
      fst (step_a_requeue cfg gc now locked (rs_db st)) @
      fst (step_a_unclaimed cfg gc ts_text now locked (after_requeue cfg gc now locked (rs_db st)))" for b
    by (simp add: sweep_orphans_def sweep_body_def step_a_requeue_def step_a_unclaimed_def after_requeue_def where_dry_run
        Let_def split: prod.splits)
  moreover have "snd (sweep_orphans (cfg\<lparr>rc_dry_run := True\<rparr>) gc ts_text now locked st) = st"
    by (simp add: sweep_orphans_def case_prod_beta)
  ultimately show ?thesis by (simp add: sweep_tick_def case_prod_beta)
qed

end
