(* ===== verification/Retention_Sweep.thy ===== *)
theory Retention_Sweep
  imports Retention_Keep Reconciler
begin

text \<open>
  The deleting half of the retention pass (\<open>shared/retention_cleanup.py\<close> from \<open>_restate_lying_counters\<close>
  on, with the inventory function and the triggers of \<open>shared/database.py\<close> it runs against): counters are
  restated, the doomed snapshots are re-qualified inside the transaction, what a surviving snapshot reads
  through a doomed one is handed to an heir, sparse rows are folded into the next kept restore point,
  and only then are the rows deleted.

  Tables are lists of rows. A database trigger or foreign key that refuses a write is an error value, which
  rolls the transaction back. \<open>gen_random_uuid\<close>, the text of a timestamp, the digest of an inventory and
  whether the session flushes pending attribute writes before a textual statement are parameters.
\<close>

section \<open>State\<close>

record chat_link =                    \<comment> \<open>\<open>snapshot_chat_inventories\<close>\<close>
  ci_snapshot_id :: string
  ci_chat_id :: string
  ci_rest :: string
  ci_uploaded :: int

record retention_event =              \<comment> \<open>\<open>AuditEvent\<close> of \<open>build_retention_audit\<close>\<close>
  rv_snapshot_id :: string
  rv_resource_id :: string
  rv_tenant_id :: string
  rv_resource_type :: string
  rv_resource_name :: string
  rv_reason :: string
  rv_retention_mode :: string
  rv_policy_id :: string
  rv_policy_name :: string
  rv_snapshot :: snap_row             \<comment> \<open>type, status, counters, times and reuse pointers are copied from it\<close>

record ret_state =
  rt_db :: work_db
  rt_removals :: "(string \<times> string \<times> string) list"   \<comment> \<open>\<open>snapshot_overlay_removals\<close>\<close>
  rt_chats :: "chat_link list"
  rt_audit :: "retention_event list"

type_synonym payload = "string \<times> string \<times> string option \<times> int option \<times> string"

record ret_env =
  re_gc :: guard_ctx
  re_now :: utc
  re_ts_text :: "utc \<Rightarrow> string"
  re_new_id :: "string \<Rightarrow> string \<Rightarrow> string"      \<comment> \<open>the id generated for a copy of an item\<close>
  re_digest :: "payload list \<Rightarrow> string"
  re_text_flush :: bool
  re_delete_enabled :: bool                   \<comment> \<open>\<open>RETENTION_DELETE_ENABLED\<close>\<close>

definition rt_snapshots :: "ret_state \<Rightarrow> snap_row list" where
  "rt_snapshots st = wd_snapshots (rt_db st)"

definition put_snapshots :: "snap_row list \<Rightarrow> ret_state \<Rightarrow> ret_state" where
  "put_snapshots ss st = st\<lparr>rt_db := (rt_db st)\<lparr>wd_snapshots := ss\<rparr>\<rparr>"

definition rt_items :: "ret_state \<Rightarrow> item_row list" where
  "rt_items st = wd_items (rt_db st)"

definition put_items :: "item_row list \<Rightarrow> ret_state \<Rightarrow> ret_state" where
  "put_items its st = st\<lparr>rt_db := (rt_db st)\<lparr>wd_items := its\<rparr>\<rparr>"

lemma rt_simps [simp]:
  "rt_snapshots (put_snapshots ss st) = ss" "rt_items (put_snapshots ss st) = rt_items st"
  "rt_items (put_items its st) = its" "rt_snapshots (put_items its st) = rt_snapshots st"
  "rt_removals (put_snapshots ss st) = rt_removals st" "rt_removals (put_items its st) = rt_removals st"
  "rt_chats (put_snapshots ss st) = rt_chats st" "rt_chats (put_items its st) = rt_chats st"
  "rt_audit (put_snapshots ss st) = rt_audit st" "rt_audit (put_items its st) = rt_audit st"
  "wd_partitions (rt_db (put_snapshots ss st)) = wd_partitions (rt_db st)"
  "wd_partitions (rt_db (put_items its st)) = wd_partitions (rt_db st)"
  "wd_guards (rt_db (put_snapshots ss st)) = wd_guards (rt_db st)"
  "wd_guards (rt_db (put_items its st)) = wd_guards (rt_db st)"
  by (simp_all add: rt_snapshots_def put_snapshots_def rt_items_def put_items_def)

section \<open>Inventories\<close>

definition OVERLAY_TYPES :: "string list" where
  "OVERLAY_TYPES =
     [''EMAIL'', ''EMAIL_ATTACHMENT'', ''ARCHIVE_ITEM'', ''ARCHIVE_ATTACHMENT'', ''TEAMS_CHAT_MESSAGE'', ''CHAT_ATTACHMENT'',
      ''CHAT_HOSTED_CONTENT'', ''SHAREPOINT_LIST'', ''SHAREPOINT_FILE'', ''SHAREPOINT_FOLDER'', ''SHAREPOINT_LIST_ITEM'']"

text \<open>\<open>split_part(s, '::', 1)\<close>\<close>

fun before_colons :: "string \<Rightarrow> string" where
  "before_colons (a # b # cs) = (if a = CHR '':'' \<and> b = CHR '':'' then [] else a # before_colons (b # cs))"
| "before_colons cs = cs"

definition parent_type :: "string \<Rightarrow> string" where
  "parent_type ty = (if ty = ''ARCHIVE_ATTACHMENT'' then ''ARCHIVE_ITEM'' else ''EMAIL'')"

definition parent_key :: "item_row \<Rightarrow> string" where
  "parent_key it = (case it_parent it of Some p \<Rightarrow> p | None \<Rightarrow> before_colons (it_external_id it))"

definition has_item :: "string \<Rightarrow> string \<Rightarrow> string \<Rightarrow> item_row list \<Rightarrow> bool" where
  "has_item sid ty ext its \<longleftrightarrow> (\<exists>x \<in> set its. it_snapshot_id x = sid \<and> it_type x = ty \<and> it_external_id x = ext)"

text \<open>The rows an overlay inherits from its base.\<close>

definition inherits :: "(string \<times> string \<times> string) list \<Rightarrow> item_row list \<Rightarrow> string \<Rightarrow> string \<Rightarrow> item_row \<Rightarrow> bool" where
  "inherits removals its target base b \<longleftrightarrow>
     it_snapshot_id b = base \<and> it_type b \<in> set OVERLAY_TYPES \<and>
     \<not> has_item target (it_type b) (it_external_id b) its \<and>
     (target, it_type b, it_external_id b) \<notin> set removals \<and>
     (it_type b \<notin> {''EMAIL_ATTACHMENT'', ''ARCHIVE_ATTACHMENT''} \<or>
      has_item target (parent_type (it_type b)) (parent_key b) its \<or>
      has_item base (parent_type (it_type b)) (parent_key b) its \<and>
      (target, parent_type (it_type b), parent_key b) \<notin> set removals)"

definition items_target :: "snap_row list \<Rightarrow> string \<Rightarrow> string option" where
  "items_target ss sid = map_option (\<lambda>s. case sn_reuse_root s of Some r \<Rightarrow> r | None \<Rightarrow> w_id s) (row_of sid ss)"

definition effective_items :: "ret_state \<Rightarrow> string \<Rightarrow> item_row list" where
  "effective_items st sid =
     (case items_target (rt_snapshots st) sid of
        None \<Rightarrow> []
      | Some target \<Rightarrow>
          filter (\<lambda>x. it_snapshot_id x = target) (rt_items st) @
          (case Option.bind (row_of target (rt_snapshots st)) sn_overlay_base of
             None \<Rightarrow> []
           | Some base \<Rightarrow> filter (inherits (rt_removals st) (rt_items st) target base) (rt_items st)))"

definition payload_of :: "item_row \<Rightarrow> payload" where
  "payload_of it = (it_type it, it_external_id it, it_parent it, it_size it, it_rest it)"

definition inventory_fingerprint :: "ret_env \<Rightarrow> ret_state \<Rightarrow> string \<Rightarrow> nat \<times> string" where
  "inventory_fingerprint env st sid =
     (let rows = effective_items st sid
      in (length rows, re_digest env (map payload_of (sort_key (\<lambda>it. (it_type it, it_external_id it)) rows))))"

definition assert_inventory_kept :: "ret_env \<Rightarrow> string \<Rightarrow> string \<Rightarrow> nat \<times> string \<Rightarrow> ret_state \<Rightarrow> ret_state result" where
  "assert_inventory_kept env what sid before st =
     (if inventory_fingerprint env st sid \<noteq> before
      then Inl (PyRuntimeError (''retention '' @ what @ '' changed snapshot ''@ sid)) else Inr st)"

text \<open>\<open>_restate_counts\<close>: catalogue snapshots count primary items only.\<close>

definition primary_item :: "snap_row \<Rightarrow> item_row \<Rightarrow> bool" where
  "primary_item s it \<longleftrightarrow>
     json_get (sn_extra s) ''chat_inventory_format'' \<noteq> Some ''1'' \<or> it_type it \<notin> {''CHAT_ATTACHMENT'', ''CHAT_HOSTED_CONTENT''}"

definition restate_counts :: "string \<Rightarrow> ret_state \<Rightarrow> ret_state" where
  "restate_counts sid st =
     put_snapshots
       (sql_update (\<lambda>s. w_id s = sid)
          (\<lambda>s. let rows = effective_items st (w_id s)
               in s\<lparr>sn_item_count := Some (int (length (filter (primary_item s) rows))), sn_bytes_total := Some (items_bytes rows)\<rparr>)
          (rt_snapshots st)) st"

section \<open>Copies\<close>

text \<open>\<open>INSERT ... ON CONFLICT DO NOTHING\<close> against \<open>uq_snapshot_items_snap_ext_type\<close>; generated ids are fresh.\<close>

definition insert_item :: "item_row \<Rightarrow> item_row list \<Rightarrow> item_row list" where
  "insert_item it its = (if has_item (it_snapshot_id it) (it_type it) (it_external_id it) its then its else its @ [it])"

definition copy_items :: "ret_env \<Rightarrow> string \<Rightarrow> item_row list \<Rightarrow> item_row list \<Rightarrow> item_row list" where
  "copy_items env target rows its =
     fold (\<lambda>it. insert_item (it\<lparr>it_id := re_new_id env target (it_id it), it_snapshot_id := target\<rparr>)) rows its"

definition insert_chat :: "chat_link \<Rightarrow> chat_link list \<Rightarrow> chat_link list" where
  "insert_chat c cs =
     (if \<exists>x \<in> set cs. ci_snapshot_id x = ci_snapshot_id c \<and> ci_chat_id x = ci_chat_id c then cs else cs @ [c])"

definition copy_chats :: "string \<Rightarrow> string \<Rightarrow> chat_link list \<Rightarrow> chat_link list" where
  "copy_chats source target cs =
     fold (\<lambda>c. insert_chat (c\<lparr>ci_snapshot_id := target, ci_uploaded := 0\<rparr>)) (filter (\<lambda>c. ci_snapshot_id c = source) cs) cs"

definition insert_removal :: "string \<times> string \<times> string \<Rightarrow> (string \<times> string \<times> string) list \<Rightarrow> (string \<times> string \<times> string) list" where
  "insert_removal r rs = (if r \<in> set rs then rs else rs @ [r])"

definition copy_base_rows :: "ret_env \<Rightarrow> string \<Rightarrow> string \<Rightarrow> string option \<Rightarrow> ret_state \<Rightarrow> ret_state" where
  "copy_base_rows env overlay base differing_from st =
     (let same = (\<lambda>h e. it_snapshot_id h = (case differing_from of Some x \<Rightarrow> x | None \<Rightarrow> []) \<and> payload_of h = payload_of e);
          rows = filter (\<lambda>e. it_snapshot_id e = base \<and> (differing_from = None \<or> \<not> (\<exists>h \<in> set (rt_items st). same h e)))
                   (effective_items st overlay)
      in put_items (copy_items env overlay rows (rt_items st)) st)"

section \<open>Triggers\<close>

definition trigger_error :: py_error where
  "trigger_error = LibraryError ''RaiseException''"

text \<open>\<open>COALESCE(started_at, created_at)\<close>, and \<open><\<close> on nullable times\<close>

definition coalesce_ts :: "snap_row \<Rightarrow> utc option" where
  "coalesce_ts s = (case sn_started_at s of Some t \<Rightarrow> Some t | None \<Rightarrow> sn_created_at s)"

definition sql_less :: "utc option \<Rightarrow> utc option \<Rightarrow> bool" where
  "sql_less a b = (case (a, b) of (Some x, Some y) \<Rightarrow> x < y | _ \<Rightarrow> False)"

definition validate_reuse_target :: "snap_row list \<Rightarrow> snap_row \<Rightarrow> unit result" where
  "validate_reuse_target ss new =
     (case (sn_reuse_of new, sn_reuse_root new) of
        (None, None) \<Rightarrow> Inr ()
      | (Some par, Some rid) \<Rightarrow>
          if \<not> (\<exists>p \<in> set ss. w_id p = par \<and> sn_resource_id p = sn_resource_id new \<and>
                  (w_status p = S_COMPLETED \<or>
                   w_status p = S_PARTIAL \<and> (case sn_extra new of None \<Rightarrow> False | Some m \<Rightarrow> m ''archive_reused_partial_prior'' \<noteq> None)) \<and>
                  sql_less (coalesce_ts p) (coalesce_ts new))
          then Inl trigger_error
          else if \<not> (\<exists>r \<in> set ss. w_id r = rid \<and> sn_resource_id r = sn_resource_id new \<and> sn_reuse_of r = None)
          then Inl trigger_error
          else Inr ()
      | _ \<Rightarrow> Inl trigger_error)"

definition validate_overlay_base :: "snap_row list \<Rightarrow> snap_row \<Rightarrow> unit result" where
  "validate_overlay_base ss new =
     (case sn_overlay_base new of
        None \<Rightarrow> Inr ()
      | Some base \<Rightarrow>
          if sn_reuse_of new \<noteq> None then Inl trigger_error
          else if \<not> (\<exists>b \<in> set ss. w_id b = base \<and> w_id b \<noteq> w_id new \<and> sn_resource_id b = sn_resource_id new \<and>
                       sn_overlay_base b = None \<and> sn_reuse_of b = None)
          then Inl trigger_error else Inr ())"

text \<open>
  An \<open>UPDATE\<close> of the reuse columns fires both row triggers, one of \<open>overlay_base_id\<close> the second only. A row
  trigger sees the rows the statement has already written.
\<close>

definition reuse_triggers :: "snap_row list \<Rightarrow> snap_row \<Rightarrow> unit result" where
  "reuse_triggers ss new = bindE (validate_overlay_base ss new) (\<lambda>_. validate_reuse_target ss new)"

fun update_checked ::
    "(snap_row list \<Rightarrow> snap_row \<Rightarrow> unit result) \<Rightarrow> (snap_row \<Rightarrow> bool) \<Rightarrow> (snap_row \<Rightarrow> snap_row) \<Rightarrow> snap_row list \<Rightarrow> snap_row list \<Rightarrow>
     snap_row list result" where
  "update_checked check p f done [] = Inr done"
| "update_checked check p f done (r # rs) =
     (if p r then bindE (check (done @ r # rs) (f r)) (\<lambda>_. update_checked check p f (done @ [f r]) rs)
      else update_checked check p f (done @ [r]) rs)"

section \<open>Heirs of reuse pointers\<close>

text \<open>\<open>ORDER BY COALESCE(started_at, created_at)\<close>: nulls come last.\<close>

definition order_ts :: "snap_row \<Rightarrow> bool \<times> utc" where
  "order_ts s = (case coalesce_ts s of None \<Rightarrow> (True, 0) | Some t \<Rightarrow> (False, t))"

definition reuse_heir :: "string \<Rightarrow> string set \<Rightarrow> snap_row list \<Rightarrow> snap_row option" where
  "reuse_heir did doomed ss =
     (case sort_key order_ts (filter (\<lambda>s. sn_reuse_root s = Some did \<and> w_id s \<noteq> did \<and> w_id s \<notin> doomed \<and> w_status s = S_COMPLETED) ss) of
        [] \<Rightarrow> None | h # _ \<Rightarrow> Some h)"

text \<open>Step 2: the heir takes copies of the doomed row's items, chat links and catalogue marker.\<close>

definition heir_takes :: "ret_env \<Rightarrow> string \<Rightarrow> string \<Rightarrow> ret_state \<Rightarrow> ret_state" where
  "heir_takes env did heir st =
     (let st1 = put_items (copy_items env heir (filter (\<lambda>it. it_snapshot_id it = did) (rt_items st)) (rt_items st)) st;
          st2 = st1\<lparr>rt_chats := copy_chats did heir (rt_chats st1)\<rparr>;
          catalogue = (\<exists>d \<in> set (rt_snapshots st2). w_id d = did \<and> json_get (sn_extra d) ''chat_inventory_format'' = Some ''1'')
      in put_snapshots (sql_update (\<lambda>s. w_id s = heir \<and> catalogue)
           (\<lambda>s. s\<lparr>sn_extra := json_merge (sn_extra s) [''chat_inventory_format'' \<mapsto> JInt 1]\<rparr>) (rt_snapshots st2)) st2)"

text \<open>Step 3: the heir becomes a full snapshot.\<close>

definition promote_row :: "ret_env \<Rightarrow> snap_row \<Rightarrow> item_row list \<Rightarrow> snap_row \<Rightarrow> snap_row" where
  "promote_row env d own h =
     h\<lparr>sn_reuse_of := None, sn_reuse_root := None,
       sn_item_count := Some (int (length own)), sn_bytes_total := Some (items_bytes own),
       sn_delta_token := (case sn_delta_token h of Some t \<Rightarrow> Some t | None \<Rightarrow> sn_delta_token d),
       sn_delta_tokens := (if (case sn_delta_tokens h of None \<Rightarrow> True | Some m \<Rightarrow> m = [])
                           then sn_delta_tokens d else sn_delta_tokens h),
       sn_extra := json_merge (sn_extra h)
         [''reuse_rehydrated_from'' \<mapsto> JString (w_id d), ''reuse_rehydrated_at'' \<mapsto> JString (re_ts_text env (re_now env))]\<rparr>"

definition promote_heir :: "ret_env \<Rightarrow> string \<Rightarrow> string \<Rightarrow> ret_state \<Rightarrow> ret_state result" where
  "promote_heir env did heir st =
     (case row_of did (rt_snapshots st) of
        None \<Rightarrow> Inr st
      | Some d \<Rightarrow>
          bindE (update_checked reuse_triggers (\<lambda>s. w_id s = heir)
                   (promote_row env d (filter (\<lambda>it. it_snapshot_id it = heir) (rt_items st))) [] (rt_snapshots st))
            (\<lambda>ss. Inr (put_snapshots ss st)))"

text \<open>Step 4: every other descendant, doomed or not, is pointed at the heir.\<close>

definition repoint_row :: "string \<Rightarrow> string \<Rightarrow> snap_row \<Rightarrow> snap_row" where
  "repoint_row did heir s =
     s\<lparr>sn_reuse_of := (if sn_reuse_of s = Some did then Some heir else sn_reuse_of s), sn_reuse_root := Some heir\<rparr>"

definition repoint_siblings :: "string \<Rightarrow> string \<Rightarrow> ret_state \<Rightarrow> ret_state result" where
  "repoint_siblings did heir st =
     bindE (update_checked reuse_triggers (\<lambda>s. sn_reuse_root s = Some did \<and> w_id s \<noteq> heir) (repoint_row did heir) [] (rt_snapshots st))
       (\<lambda>ss. Inr (put_snapshots ss st))"

definition rehydrate_reuse_heir :: "ret_env \<Rightarrow> string \<Rightarrow> string set \<Rightarrow> ret_state \<Rightarrow> (string option \<times> ret_state) result" where
  "rehydrate_reuse_heir env did doomed st =
     (case reuse_heir did doomed (rt_snapshots st) of
        None \<Rightarrow> Inr (None, st)
      | Some h \<Rightarrow>
          bindE (promote_heir env did (w_id h) (heir_takes env did (w_id h) st)) (\<lambda>st1.
          bindE (repoint_siblings did (w_id h) (restate_counts (w_id h) st1)) (\<lambda>st2.
          Inr (Some (w_id h), st2))))"

section \<open>Heirs of overlays\<close>

definition set_overlay_base :: "string \<Rightarrow> (snap_row \<Rightarrow> snap_row) \<Rightarrow> ret_state \<Rightarrow> ret_state result" where
  "set_overlay_base sid f st =
     bindE (update_checked validate_overlay_base (\<lambda>s. w_id s = sid) f [] (rt_snapshots st)) (\<lambda>ss. Inr (put_snapshots ss st))"

definition rebase_overlay :: "ret_env \<Rightarrow> string \<Rightarrow> string \<Rightarrow> string \<Rightarrow> ret_state \<Rightarrow> ret_state result" where
  "rebase_overlay env overlay old_base new_base st =
     (let before = inventory_fingerprint env st overlay;
          st1 = copy_base_rows env overlay old_base (Some new_base) st;
          visible = effective_items st1 overlay;
          hidden = filter (\<lambda>h. it_snapshot_id h = new_base \<and> it_type h \<in> set OVERLAY_TYPES \<and>
                             \<not> (\<exists>e \<in> set visible. it_type e = it_type h \<and> it_external_id e = it_external_id h)) (rt_items st1);
          st2 = st1\<lparr>rt_removals := fold (\<lambda>h. insert_removal (overlay, it_type h, it_external_id h)) hidden (rt_removals st1)\<rparr>
      in bindE (set_overlay_base overlay (\<lambda>s. s\<lparr>sn_overlay_base := Some new_base\<rparr>) st2)
           (assert_inventory_kept env ''rebase'' overlay before))"

text \<open>A doomed overlay whose pointer heir took its rows hands over its removals and its base.\<close>

definition hand_over_overlay :: "ret_env \<Rightarrow> string \<Rightarrow> string \<Rightarrow> string \<Rightarrow> ret_state \<Rightarrow> ret_state result" where
  "hand_over_overlay env did base heir st =
     (let before = inventory_fingerprint env st did;
          st1 = st\<lparr>rt_removals :=
                  fold (\<lambda>r. insert_removal (heir, snd r)) (filter (\<lambda>r. fst r = did) (rt_removals st)) (rt_removals st)\<rparr>
      in bindE (set_overlay_base heir (\<lambda>s. s\<lparr>sn_overlay_base := Some base\<rparr>) st1) (\<lambda>st2.
         bindE (assert_inventory_kept env ''overlay hand-over'' heir before st2) (\<lambda>st3. Inr (restate_counts heir st3))))"

text \<open>The earliest overlay of a doomed full snapshot becomes a full snapshot.\<close>

definition materialise_overlay :: "ret_env \<Rightarrow> string \<Rightarrow> string \<Rightarrow> ret_state \<Rightarrow> ret_state result" where
  "materialise_overlay env did heir st =
     (let before = inventory_fingerprint env st heir;
          st1 = copy_base_rows env heir did None st;
          st2 = st1\<lparr>rt_removals := filter (\<lambda>r. fst r \<noteq> heir) (rt_removals st1)\<rparr>
      in bindE (set_overlay_base heir
                  (\<lambda>s. s\<lparr>sn_overlay_base := None, sn_extra := json_merge (sn_extra s) [''overlay_materialised_from'' \<mapsto> JString did]\<rparr>) st2) (\<lambda>st3.
         bindE (assert_inventory_kept env ''overlay materialisation'' heir before st3) (\<lambda>st4. Inr (restate_counts heir st4))))"

fun rebase_all :: "ret_env \<Rightarrow> string \<Rightarrow> string \<Rightarrow> string list \<Rightarrow> ret_state \<Rightarrow> ret_state result" where
  "rebase_all env did heir [] st = Inr st"
| "rebase_all env did heir (ov # ovs) st = bindE (rebase_overlay env ov did heir st) (rebase_all env did heir ovs)"

definition rehydrate_overlay_dependents :: "ret_env \<Rightarrow> string \<Rightarrow> string option \<Rightarrow> string set \<Rightarrow> ret_state \<Rightarrow> ret_state result" where
  "rehydrate_overlay_dependents env did pointer_heir doomed st =
     (case row_of did (rt_snapshots st) of
        None \<Rightarrow> Inr st
      | Some d \<Rightarrow>
          (case sn_overlay_base d of
             Some base \<Rightarrow> (case pointer_heir of None \<Rightarrow> Inr st | Some h \<Rightarrow> hand_over_overlay env did base h st)
           | None \<Rightarrow>
               let survivors = map w_id (sort_key (\<lambda>s. (order_ts s, w_id s))
                     (filter (\<lambda>s. sn_overlay_base s = Some did \<and> w_id s \<notin> doomed) (rt_snapshots st)))
               in (case survivors of
                     [] \<Rightarrow> Inr st
                   | first # others \<Rightarrow>
                       (case pointer_heir of
                          Some h \<Rightarrow> rebase_all env did h survivors st
                        | None \<Rightarrow> bindE (materialise_overlay env did first st) (rebase_all env did first others)))))"

section \<open>Sparse rows\<close>

definition SPARSE_ITEM_TYPES :: "string list" where
  "SPARSE_ITEM_TYPES = [''FILE'', ''ONEDRIVE_FILE'', ''FILE_VERSION'', ''CALENDAR_EVENT'', ''USER_CONTACT'', ''CONTACT'']"

definition in_union :: "snap_row \<Rightarrow> bool" where
  "in_union s \<longleftrightarrow> w_status s \<notin> {S_FAILED, S_PENDING_DELETION}"

definition sparse_of :: "string \<Rightarrow> item_row \<Rightarrow> bool" where
  "sparse_of sid it \<longleftrightarrow> it_snapshot_id it = sid \<and> it_type it \<in> set SPARSE_ITEM_TYPES"

definition created_key :: "snap_row \<Rightarrow> utc \<times> string" where
  "created_key s = (case sn_created_at s of None \<Rightarrow> 0 | Some t \<Rightarrow> t, w_id s)"

text \<open>\<open>None\<close>, \<open>False\<close> and \<open>(keeper, window)\<close> of \<open>_sparse_fold_target\<close>\<close>

datatype fold_target = Holds_none | Must_stay | Fold_into string "string list"

definition sparse_fold_target :: "string \<Rightarrow> string set \<Rightarrow> ret_state \<Rightarrow> fold_target" where
  "sparse_fold_target sid doomed st =
     (case find (\<lambda>d. w_id d = sid \<and> in_union d \<and> (\<exists>it \<in> set (rt_items st). sparse_of sid it)) (rt_snapshots st) of
        None \<Rightarrow> Holds_none
      | Some d \<Rightarrow>
          let later = filter (\<lambda>s. sn_resource_id s = sn_resource_id d \<and> sql_less (sn_created_at d) (sn_created_at s) \<and> in_union s)
                        (rt_snapshots st)
          in (case sort_key created_key (filter (\<lambda>s. w_id s \<notin> doomed) later) of
                [] \<Rightarrow> Must_stay
              | keeper # _ \<Rightarrow>
                  if \<not> restorable_status (w_status keeper) then Must_stay
                  else Fold_into (w_id keeper) (map w_id (filter (\<lambda>s. \<not> sql_less (sn_created_at keeper) (sn_created_at s)) later))))"

definition FOLD_BATCH :: nat where
  "FOLD_BATCH = 5000"

text \<open>One batch: rows no row of the window supersedes move to the keeper, the others are dropped.\<close>

definition superseded :: "string list \<Rightarrow> item_row list \<Rightarrow> item_row \<Rightarrow> bool" where
  "superseded window its it \<longleftrightarrow> (\<exists>l \<in> set its. it_snapshot_id l \<in> set window \<and> it_external_id l = it_external_id it)"

definition fold_batch :: "string \<Rightarrow> string list \<Rightarrow> item_row list \<Rightarrow> item_row list \<Rightarrow> item_row list" where
  "fold_batch keeper window batch its =
     (let ids = map it_id batch
      in map (\<lambda>it. if it_id it \<in> set ids then it\<lparr>it_snapshot_id := keeper\<rparr> else it)
           (filter (\<lambda>it. it_id it \<in> set ids \<longrightarrow> \<not> superseded window its it) its))"

text \<open>
  The loop of \<open>_fold_sparse_rows\<close>; \<open>rest\<close> are the sparse rows \<open>sid\<close> still owns. The keeper is another
  snapshot, so a batch leaves \<open>sid\<close> exactly the rows after it.
\<close>

function fold_batches :: "string \<Rightarrow> string list \<Rightarrow> item_row list \<Rightarrow> item_row list \<times> int \<times> int \<Rightarrow> item_row list \<times> int \<times> int" where
  "fold_batches keeper window rest acc =
     (case acc of (its, moved_rows, moved_bytes) \<Rightarrow>
        let batch = take FOLD_BATCH rest;
            moved = filter (\<lambda>it. \<not> superseded window its it) batch;
            acc' = (fold_batch keeper window batch its, moved_rows + int (length moved), moved_bytes + items_bytes moved)
        in if length batch < FOLD_BATCH then acc' else fold_batches keeper window (drop FOLD_BATCH rest) acc')"
  by auto

termination
  by (relation "measure (\<lambda>(_, _, rest, _). length rest)") (auto simp: FOLD_BATCH_def)

declare fold_batches.simps [simp del]

definition fold_sparse_rows :: "string \<Rightarrow> string \<Rightarrow> string list \<Rightarrow> ret_state \<Rightarrow> ret_state" where
  "fold_sparse_rows sid keeper window st =
     (case fold_batches keeper window (filter (sparse_of sid) (rt_items st)) (rt_items st, 0, 0) of
        (its, n, b) \<Rightarrow>
          put_snapshots
            (if n = 0 then rt_snapshots st
             else sql_update (\<lambda>s. w_id s = keeper)
                    (\<lambda>s. s\<lparr>sn_item_count := Some (or_zero (sn_item_count s) + n), sn_bytes_total := Some (or_zero (sn_bytes_total s) + b)\<rparr>)
                    (rt_snapshots st))
            (put_items its st))"

section \<open>The delete\<close>

text \<open>Counter writes the session has not flushed yet: id, item count, bytes.\<close>

type_synonym pending = "(string \<times> int \<times> int) list"

definition flush :: "pending \<Rightarrow> ret_state \<Rightarrow> ret_state" where
  "flush pending st =
     put_snapshots
       (map (\<lambda>s. case map_of pending (w_id s) of None \<Rightarrow> s | Some (n, b) \<Rightarrow> s\<lparr>sn_item_count := Some n, sn_bytes_total := Some b\<rparr>)
          (rt_snapshots st)) st"

text \<open>The locked re-qualification of one doomed row.\<close>

definition deletable :: "ret_env \<Rightarrow> ret_state \<Rightarrow> snap_row \<Rightarrow> bool" where
  "deletable env st s \<longleftrightarrow>
     copy_source_unpinned (re_gc env) (re_now env) (wd_guards (rt_db st)) (w_id s) \<and>
     terminal_status (w_status s) \<and>
     (case w_expires s of None \<Rightarrow> True | Some t \<Rightarrow> t \<le> re_now env) \<and>
     (case sn_hc_drain s of None \<Rightarrow> True | Some d \<Rightarrow> d \<noteq> ''PENDING'') \<and>
     \<not> (\<exists>sp \<in> set (wd_partitions (rt_db st)). pt_snapshot_id sp = w_id s \<and> w_status sp \<in> {''QUEUED'', ''CLAIMED'', ''IN_PROGRESS''}) \<and>
     \<not> (or_zero (sn_item_count s) = 0 \<and> or_zero (sn_bytes_total s) = 0 \<and> (\<exists>it \<in> set (rt_items st). it_snapshot_id it = w_id s)) \<and>
     \<not> (\<exists>d \<in> set (rt_snapshots st). (sn_overlay_base d = Some (w_id s) \<or> sn_reuse_root d = Some (w_id s)) \<and>
          w_id d \<noteq> w_id s \<and> \<not> terminal_status (w_status d))"

definition requalify :: "ret_env \<Rightarrow> string set \<Rightarrow> ret_state \<Rightarrow> string list" where
  "requalify env snap_ids st =
     map w_id (sort_key (\<lambda>s. (sn_overlay_base s = None, w_id s))
       (filter (\<lambda>s. w_id s \<in> snap_ids \<and> deletable env st s) (rt_snapshots st)))"

text \<open>The loop that finds the fold targets; a snapshot that must stay leaves the doomed set.\<close>

fun fold_targets :: "ret_state \<Rightarrow> string list \<Rightarrow> string set \<Rightarrow> (string \<times> string \<times> string list) list \<times> string set" where
  "fold_targets st [] doomed = ([], doomed)"
| "fold_targets st (sid # sids) doomed =
     (case sparse_fold_target sid doomed st of
        Holds_none \<Rightarrow> fold_targets st sids doomed
      | Must_stay \<Rightarrow> fold_targets st sids (doomed - {sid})
      | Fold_into keeper window \<Rightarrow> (case fold_targets st sids doomed of (folds, d) \<Rightarrow> ((sid, keeper, window) # folds, d)))"

fun rehydrate_all :: "ret_env \<Rightarrow> string set \<Rightarrow> string list \<Rightarrow> ret_state \<Rightarrow> ret_state result" where
  "rehydrate_all env doomed [] st = Inr st"
| "rehydrate_all env doomed (sid # sids) st =
     bindE (rehydrate_reuse_heir env sid doomed st) (\<lambda>(heir, st1).
     bindE (rehydrate_overlay_dependents env sid heir doomed st1) (rehydrate_all env doomed sids))"

definition fold_all :: "(string \<times> string \<times> string list) list \<Rightarrow> ret_state \<Rightarrow> ret_state" where
  "fold_all folds st = fold (\<lambda>(sid, keeper, window). fold_sparse_rows sid keeper window) folds st"

text \<open>
  \<open>DELETE FROM snapshots\<close>: a row still referenced by a surviving reuse pointer or overlay refuses it
  (\<open>ON DELETE RESTRICT\<close>); shards, removals and chat links of the deleted rows go with them.
\<close>

definition refers :: "snap_row \<Rightarrow> string \<Rightarrow> bool" where
  "refers s sid \<longleftrightarrow> sn_reuse_of s = Some sid \<or> sn_reuse_root s = Some sid \<or> sn_overlay_base s = Some sid"

definition delete_rows :: "string list \<Rightarrow> ret_state \<Rightarrow> ret_state result" where
  "delete_rows sids st =
     (let its = filter (\<lambda>it. it_snapshot_id it \<notin> set sids) (rt_items st);
          ss = filter (\<lambda>s. w_id s \<notin> set sids) (rt_snapshots st)
      in if \<exists>s \<in> set ss. \<exists>sid \<in> set sids. refers s sid then Inl IntegrityError
         else Inr (st\<lparr>rt_db := (rt_db st)\<lparr>wd_snapshots := ss, wd_items := its,
                        wd_partitions := filter (\<lambda>p. pt_snapshot_id p \<notin> set sids) (wd_partitions (rt_db st))\<rparr>,
                      rt_removals := filter (\<lambda>r. fst r \<notin> set sids) (rt_removals st),
                      rt_chats := filter (\<lambda>c. ci_snapshot_id c \<notin> set sids) (rt_chats st)\<rparr>))"

definition add_events :: "string list \<Rightarrow> retention_event list \<Rightarrow> ret_state \<Rightarrow> ret_state" where
  "add_events sids events st =
     st\<lparr>rt_audit := rt_audit st @ List.map_filter (\<lambda>sid. find (\<lambda>e. rv_snapshot_id e = sid) events) sids\<rparr>"

definition delete_snapshots ::
    "ret_env \<Rightarrow> string set \<Rightarrow> retention_event list \<Rightarrow> pending \<Rightarrow> ret_state \<Rightarrow> (nat \<times> ret_state) result" where
  "delete_snapshots env snap_ids events pending st =
     (if snap_ids = {} then Inr (0, st)
      else
        let sids = requalify env snap_ids st
        in if sids = [] then Inr (0, st)
           else (case fold_targets st sids (set sids) of (folds, doomed) \<Rightarrow>
             let kept_sids = filter (\<lambda>sid. sid \<in> doomed) sids
             in if kept_sids = [] then Inr (0, st)
                else
                  bindE (rehydrate_all env doomed kept_sids st) (\<lambda>st1.
                  bindE (delete_rows kept_sids (flush pending (fold_all folds st1))) (\<lambda>st2.
                  Inr (length kept_sids, add_events kept_sids events st2)))))"

section \<open>One resource\<close>

definition restated :: "utc \<Rightarrow> item_row list \<Rightarrow> snap_row \<Rightarrow> (int \<times> int) option" where
  "restated now its s =
     (let own = filter (\<lambda>it. it_snapshot_id it = w_id s) its
      in if \<not> holds_persisted_content s \<and> \<not> is_protected_in_flight now s \<and> own \<noteq> []
         then Some (int (length own), items_bytes own) else None)"

text \<open>\<open>_restate_lying_counters\<close>: the loaded rows with honest counters, and the writes to flush.\<close>

definition judged :: "utc \<Rightarrow> item_row list \<Rightarrow> snap_row \<Rightarrow> snap_row" where
  "judged now its s =
     (case restated now its s of None \<Rightarrow> s | Some (n, b) \<Rightarrow> s\<lparr>sn_item_count := Some n, sn_bytes_total := Some b\<rparr>)"

definition restate_lying_counters :: "utc \<Rightarrow> item_row list \<Rightarrow> snap_row list \<Rightarrow> snap_row list \<times> pending" where
  "restate_lying_counters now its ss =
     (map (judged now its) ss,
      List.map_filter (\<lambda>s. map_option (\<lambda>nb. (w_id s, nb)) (restated now its s)) ss)"

definition is_archived :: "resource \<Rightarrow> bool" where
  "is_archived r \<longleftrightarrow> r_status r = R_ARCHIVED"

definition retention_event_of :: "resource \<Rightarrow> 'a retention_policy_scheme \<Rightarrow> string \<Rightarrow> snap_row \<Rightarrow> retention_event" where
  "retention_event_of r p reason s =
     \<lparr>rv_snapshot_id = w_id s, rv_resource_id = r_id r, rv_tenant_id = r_tenant_id r, rv_resource_type = r_type r,
      rv_resource_name = (if r_display_name r \<noteq> [] then r_display_name r else r_external_id r), rv_reason = reason,
      rv_retention_mode = rp_retention_mode p, rv_policy_id = p_id p, rv_policy_name = p_name p, rv_snapshot = s\<rparr>"

definition audit_events_for_deletion :: "snap_row list \<Rightarrow> string set \<Rightarrow> resource \<Rightarrow> 'a retention_policy_scheme \<Rightarrow> retention_event list" where
  "audit_events_for_deletion ss to_delete r p =
     (let mode = mode_or ''FLAT'' (rp_retention_mode p);
          reason = (if is_archived r then ''archived-resource retention ('' @ rp_archived_mode p @ '')''
                    else ''outside '' @ mode @ '' retention window'')
      in map (retention_event_of r p reason) (filter (\<lambda>s. w_id s \<in> to_delete) ss))"

definition retention_deletes_permitted :: "bool \<Rightarrow> string set \<Rightarrow> bool" where
  "retention_deletes_permitted delete_enabled snap_ids \<longleftrightarrow> delete_enabled \<and> snap_ids \<noteq> {}"

record retention_stats =
  rs_checked :: nat
  rs_held :: nat
  rs_deleted :: nat
  rs_kept :: nat
  rs_would_delete :: nat

definition resource_policy :: "retention_policy list \<Rightarrow> resource \<Rightarrow> retention_policy option" where
  "resource_policy pols r =
     (case (case r_sla_policy_id r of None \<Rightarrow> None | Some i \<Rightarrow> find (\<lambda>p. p_id p = i) pols) of
        Some p \<Rightarrow> Some p
      | None \<Rightarrow> find rp_is_default pols)"

text \<open>The candidates left after the keep set, the copy pins and the rows in flight; and the kept ids counted.\<close>

definition to_delete_of :: "ret_env \<Rightarrow> ret_state \<Rightarrow> snap_row list \<Rightarrow> string set \<Rightarrow> string set \<times> string set" where
  "to_delete_of env st ss keep =
     (let cand = w_id ` set ss - keep;
          pinned = (if copy_work_guards_enabled (re_gc env)
                    then {i \<in> cand. \<not> copy_source_unpinned (re_gc env) (re_now env) (wd_guards (rt_db st)) i} else {});
          left = cand - pinned;
          busy = w_id ` {s \<in> set ss. is_protected_in_flight (re_now env) s}
      in (left - busy, keep \<union> pinned \<union> (left \<inter> busy)))"

text \<open>
  The body of the resource loop. The flag says whether the iteration counts towards the next commit; pending
  counter writes that no statement flushed before are flushed at its end.
\<close>

definition enforce_resource ::
    "ret_env \<Rightarrow> retention_policy list \<Rightarrow> resource \<Rightarrow> retention_stats \<Rightarrow> ret_state \<Rightarrow> (bool \<times> retention_stats \<times> ret_state) result" where
  "enforce_resource env pols r stats0 st0 =
     (let stats = stats0\<lparr>rs_checked := rs_checked stats0 + 1\<rparr>
      in case resource_policy pols r of
           None \<Rightarrow> Inr (False, stats, st0)
         | Some p \<Rightarrow>
             if is_on_hold (re_now env) p then Inr (False, stats\<lparr>rs_held := rs_held stats + 1\<rparr>, st0)
             else
               let loaded = filter (\<lambda>s. sn_resource_id s = r_id r) (rt_snapshots st0)
               in if loaded = [] then Inr (False, stats, st0)
                  else (case restate_lying_counters (re_now env) (rt_items st0) loaded of (ss, writes) \<Rightarrow>
                    let (st, pending) = (if re_text_flush env then (flush writes st0, []) else (st0, writes))
                    in bindE (resource_keep_ids (re_now env) (is_archived r) p ss) (\<lambda>keep.
                       case to_delete_of env st ss keep of (to_delete, kept) \<Rightarrow>
                         let counted = stats\<lparr>rs_kept := rs_kept stats + card kept\<rparr>
                         in if retention_deletes_permitted (re_delete_enabled env) to_delete
                            then bindE (delete_snapshots env to_delete (audit_events_for_deletion ss to_delete r p) pending st)
                                   (\<lambda>(n, st'). Inr (True, counted\<lparr>rs_deleted := rs_deleted stats + n\<rparr>, flush pending st'))
                            else Inr (True, counted\<lparr>rs_would_delete := rs_would_delete stats + card to_delete\<rparr>, flush pending st))))"

section \<open>A tenant\<close>

definition RESOURCE_PAGE_SIZE :: nat where
  "RESOURCE_PAGE_SIZE = 500"

definition COMMIT_EVERY :: nat where
  "COMMIT_EVERY = 100"

text \<open>Keyset paging over the primary key: each page starts after the last id of the previous one.\<close>

definition page_after :: "nat \<Rightarrow> string option \<Rightarrow> resource list \<Rightarrow> resource list" where
  "page_after page_size last_id rs =
     take page_size (sort_key r_id (filter (\<lambda>r. case last_id of None \<Rightarrow> True | Some i \<Rightarrow> i < r_id r) rs))"

function iter_tenant_resources :: "nat \<Rightarrow> string option \<Rightarrow> resource list \<Rightarrow> resource list" where
  "iter_tenant_resources page_size last_id rs =
     (let page = page_after page_size last_id rs
      in if page = [] \<or> length page < page_size then page
         else page @ iter_tenant_resources page_size (Some (r_id (List.last page))) rs)"
  by auto

termination
proof (relation "measure (\<lambda>(page_size, last_id, rs). length (filter (\<lambda>r. case last_id of None \<Rightarrow> True | Some i \<Rightarrow> i < r_id r) rs))")
  fix page_size last_id rs and page :: "resource list"
  assume page: "page = page_after page_size last_id rs" and more: "\<not> (page = [] \<or> length page < page_size)"
  let ?p = "\<lambda>r. case last_id of None \<Rightarrow> True | Some i \<Rightarrow> i < r_id r"
  let ?l = "List.last page"
  have "?l \<in> set page" using more by simp
  then have l: "?l \<in> set rs" "?p ?l" by (auto simp: page page_after_def dest!: in_set_takeD split: option.splits)
  have "length (filter (\<lambda>r. r_id ?l < r_id r) rs) < length (filter ?p rs)"
  proof -
    have "set (filter (\<lambda>r. r_id ?l < r_id r) rs) \<subseteq> set (filter ?p rs)" using l(2) by (auto split: option.splits)
    have "filter (\<lambda>r. r_id ?l < r_id r) rs = filter (\<lambda>r. r_id ?l < r_id r) (filter ?p rs)"
      using l(2) by (induction rs) (auto split: option.splits)
    moreover have "?l \<in> set (filter ?p rs)" using l by simp
    ultimately show ?thesis using length_filter_less [of ?l "filter ?p rs" "\<lambda>r. r_id ?l < r_id r"] by simp
  qed
  then show "((page_size, Some (r_id ?l), rs), page_size, last_id, rs)
      \<in> measure (\<lambda>(page_size, last_id, rs). length (filter (\<lambda>r. case last_id of None \<Rightarrow> True | Some i \<Rightarrow> i < r_id r) rs))"
    by simp
qed simp

declare iter_tenant_resources.simps [simp del]

text \<open>
  The loop: \<open>committed\<close> is what a rollback returns to. An exception leaves the committed prefix in place.
\<close>

fun enforce_loop ::
    "ret_env \<Rightarrow> retention_policy list \<Rightarrow> resource list \<Rightarrow> nat \<Rightarrow> retention_stats \<Rightarrow> ret_state \<Rightarrow> ret_state \<Rightarrow>
     retention_stats result \<times> ret_state" where
  "enforce_loop env pols [] since stats committed st = (Inr stats, st)"
| "enforce_loop env pols (r # rs) since stats committed st =
     (case enforce_resource env pols r stats st of
        Inl e \<Rightarrow> (Inl e, committed)
      | Inr (counts, stats', st') \<Rightarrow>
          if \<not> counts then enforce_loop env pols rs since stats' committed st'
          else if COMMIT_EVERY \<le> since + 1 then enforce_loop env pols rs 0 stats' st' st'
          else enforce_loop env pols rs (since + 1) stats' committed st')"

definition empty_stats :: retention_stats where
  "empty_stats = \<lparr>rs_checked = 0, rs_held = 0, rs_deleted = 0, rs_kept = 0, rs_would_delete = 0\<rparr>"

definition enforce_retention_for_tenant ::
    "ret_env \<Rightarrow> retention_policy list \<Rightarrow> resource list \<Rightarrow> string \<Rightarrow> ret_state \<Rightarrow> retention_stats result \<times> ret_state" where
  "enforce_retention_for_tenant env policies resources tenant st =
     (let pols = filter (\<lambda>p. p_tenant_id p = tenant) policies
      in if pols = [] then (Inr empty_stats, st)
         else enforce_loop env pols
                (iter_tenant_resources RESOURCE_PAGE_SIZE None (filter (\<lambda>r. r_tenant_id r = tenant) resources)) 0 empty_stats st st)"

text \<open>Every tenant on a session of its own; a failing tenant does not stop the others.\<close>

fun enforce_retention_all_tenants ::
    "ret_env \<Rightarrow> retention_policy list \<Rightarrow> resource list \<Rightarrow> string list \<Rightarrow> ret_state \<Rightarrow>
     (string \<times> retention_stats result) list \<times> ret_state" where
  "enforce_retention_all_tenants env policies resources [] st = ([], st)"
| "enforce_retention_all_tenants env policies resources (t # ts) st =
     (case enforce_retention_for_tenant env policies resources t st of
        (res, st1) \<Rightarrow> (case enforce_retention_all_tenants env policies resources ts st1 of
                         (results, st2) \<Rightarrow> ((t, res) # results, st2)))"

section \<open>What the surgery leaves alone\<close>

lemma update_checked_Inr: "update_checked check p f done rs = Inr ss \<Longrightarrow> ss = done @ sql_update p f rs"
  by (induction rs arbitrary: "done") (fastforce simp: sql_update_def elim!: bindE_InrE split: if_splits)+

text \<open>The steps before the delete keep the ids of the snapshots, the shards, the copy guards and the audit trail.\<close>

definition same_frame :: "ret_state \<Rightarrow> ret_state \<Rightarrow> bool" where
  "same_frame st st' \<longleftrightarrow>
     ids (rt_snapshots st') = ids (rt_snapshots st) \<and> wd_partitions (rt_db st') = wd_partitions (rt_db st) \<and>
     wd_guards (rt_db st') = wd_guards (rt_db st) \<and> rt_audit st' = rt_audit st"

lemma same_frame_refl [simp]: "same_frame st st"
  by (simp add: same_frame_def)

lemma same_frame_trans: "same_frame a b \<Longrightarrow> same_frame b c \<Longrightarrow> same_frame a c"
  by (simp add: same_frame_def)

lemma same_frame_put:
  "ids ss = ids (rt_snapshots st) \<Longrightarrow> same_frame st (put_snapshots ss st)" "same_frame st (put_items its st)"
  "same_frame st (st\<lparr>rt_removals := rem\<rparr>)" "same_frame st (st\<lparr>rt_chats := cs\<rparr>)"
  by (simp_all add: same_frame_def) (simp_all add: rt_snapshots_def)

lemma same_frame_update_checked:
  assumes "bindE (update_checked check p f [] (rt_snapshots st)) (\<lambda>ss. Inr (put_snapshots ss st)) = Inr st'" "\<And>s. w_id (f s) = w_id s"
  shows "same_frame st st'"
  using assms by (auto elim!: bindE_InrE dest!: update_checked_Inr intro!: same_frame_put)

lemma same_frame_flush [simp]: "same_frame st (flush pending st)"
  unfolding flush_def by (rule same_frame_put) (simp add: ids_def split: option.splits prod.splits)

lemma same_frame_restate_counts [simp]: "same_frame st (restate_counts sid st)"
  unfolding restate_counts_def by (rule same_frame_put) (simp add: Let_def)

lemma same_frame_copy_base_rows [simp]: "same_frame st (copy_base_rows env ov base d st)"
  by (simp add: copy_base_rows_def Let_def same_frame_put)

lemma same_frame_heir_takes: "same_frame st (heir_takes env did heir st)"
proof -
  let ?st1 = "put_items (copy_items env heir (filter (\<lambda>it. it_snapshot_id it = did) (rt_items st)) (rt_items st)) st"
  let ?st2 = "?st1\<lparr>rt_chats := copy_chats did heir (rt_chats ?st1)\<rparr>"
  have "same_frame st ?st2" by (rule same_frame_trans [OF same_frame_put(2) same_frame_put(4)])
  then show ?thesis unfolding heir_takes_def Let_def by (rule same_frame_trans) (simp add: same_frame_put)
qed

lemma same_frame_set_overlay_base:
  "set_overlay_base sid f st = Inr st' \<Longrightarrow> (\<And>s. w_id (f s) = w_id s) \<Longrightarrow> same_frame st st'"
  unfolding set_overlay_base_def by (rule same_frame_update_checked)

lemma same_frame_assert: "assert_inventory_kept env what sid before st = Inr st' \<Longrightarrow> st' = st"
  by (simp add: assert_inventory_kept_def split: if_splits)

lemma same_frame_reuse_heir:
  assumes "rehydrate_reuse_heir env did doomed st = Inr (h, st')"
  shows "same_frame st st'"
proof (cases "reuse_heir did doomed (rt_snapshots st)")
  case None
  then show ?thesis using assms by (simp add: rehydrate_reuse_heir_def)
next
  case (Some x)
  obtain st1 st2 where st1: "promote_heir env did (w_id x) (heir_takes env did (w_id x) st) = Inr st1"
    and st2: "repoint_siblings did (w_id x) (restate_counts (w_id x) st1) = Inr st2" and st': "st' = st2"
    using assms Some by (auto simp: rehydrate_reuse_heir_def elim!: bindE_InrE)
  have "same_frame (heir_takes env did (w_id x) st) st1"
    using st1 unfolding promote_heir_def
    by (auto simp: promote_row_def split: option.splits dest!: update_checked_Inr intro!: same_frame_put)
  moreover have "same_frame (restate_counts (w_id x) st1) st2"
    using st2 unfolding repoint_siblings_def by (rule same_frame_update_checked) (simp add: repoint_row_def)
  ultimately show ?thesis
    unfolding st' using same_frame_heir_takes same_frame_restate_counts same_frame_trans by metis
qed

lemma same_frame_rebase:
  assumes "rebase_overlay env ov old new st = Inr st'"
  shows "same_frame st st'"
proof -
  let ?st1 = "copy_base_rows env ov old (Some new) st"
  obtain rem where "set_overlay_base ov (\<lambda>s. s\<lparr>sn_overlay_base := Some new\<rparr>) (?st1\<lparr>rt_removals := rem\<rparr>) = Inr st'"
    using assms by (auto simp: rebase_overlay_def Let_def elim!: bindE_InrE dest!: same_frame_assert)
  then have "same_frame (?st1\<lparr>rt_removals := rem\<rparr>) st'" by (rule same_frame_set_overlay_base) simp
  then show ?thesis using same_frame_copy_base_rows same_frame_put(3) same_frame_trans by metis
qed

lemma same_frame_rebase_all: "rebase_all env did h ovs st = Inr st' \<Longrightarrow> same_frame st st'"
  by (induction ovs arbitrary: st) (auto elim!: bindE_InrE dest!: same_frame_rebase intro: same_frame_trans)

lemma same_frame_hand_over:
  assumes "hand_over_overlay env did base h st = Inr st'"
  shows "same_frame st st'"
proof -
  obtain rem st2 where "set_overlay_base h (\<lambda>s. s\<lparr>sn_overlay_base := Some base\<rparr>) (st\<lparr>rt_removals := rem\<rparr>) = Inr st2"
    and st': "st' = restate_counts h st2"
    using assms by (auto simp: hand_over_overlay_def Let_def elim!: bindE_InrE dest!: same_frame_assert)
  then have "same_frame (st\<lparr>rt_removals := rem\<rparr>) st2" by (elim same_frame_set_overlay_base) simp
  then show ?thesis unfolding st' using same_frame_restate_counts same_frame_put(3) same_frame_trans by metis
qed

lemma same_frame_materialise:
  assumes "materialise_overlay env did h st = Inr st'"
  shows "same_frame st st'"
proof -
  obtain rem st3 where "set_overlay_base h
      (\<lambda>s. s\<lparr>sn_overlay_base := None, sn_extra := json_merge (sn_extra s) [''overlay_materialised_from'' \<mapsto> JString did]\<rparr>)
      ((copy_base_rows env h did None st)\<lparr>rt_removals := rem\<rparr>) = Inr st3" and st': "st' = restate_counts h st3"
    using assms by (auto simp: materialise_overlay_def Let_def elim!: bindE_InrE dest!: same_frame_assert)
  then have "same_frame ((copy_base_rows env h did None st)\<lparr>rt_removals := rem\<rparr>) st3"
    by (elim same_frame_set_overlay_base) simp
  then show ?thesis
    unfolding st' using same_frame_restate_counts same_frame_copy_base_rows same_frame_put(3) same_frame_trans by metis
qed

lemma same_frame_overlay_dependents:
  "rehydrate_overlay_dependents env did ph doomed st = Inr st' \<Longrightarrow> same_frame st st'"
  by (auto simp: rehydrate_overlay_dependents_def Let_def elim!: bindE_InrE split: option.splits list.splits
      dest!: same_frame_hand_over same_frame_materialise same_frame_rebase_all same_frame_rebase intro: same_frame_trans)

lemma same_frame_rehydrate_all: "rehydrate_all env doomed sids st = Inr st' \<Longrightarrow> same_frame st st'"
  by (induction sids arbitrary: st)
    (auto elim!: bindE_InrE dest!: same_frame_reuse_heir same_frame_overlay_dependents intro: same_frame_trans)

lemma same_frame_fold_sparse [simp]: "same_frame st (fold_sparse_rows sid keeper window st)"
proof -
  obtain its n b where f: "fold_batches keeper window (filter (sparse_of sid) (rt_items st)) (rt_items st, 0, 0) = (its, n, b)"
    by (cases "fold_batches keeper window (filter (sparse_of sid) (rt_items st)) (rt_items st, 0, 0)") auto
  have "same_frame (put_items its st) (fold_sparse_rows sid keeper window st)"
    unfolding fold_sparse_rows_def f by (simp add: same_frame_put)
  then show ?thesis using same_frame_put(2) same_frame_trans by blast
qed

lemma same_frame_fold_all [simp]: "same_frame st (fold_all folds st)"
proof (induction folds arbitrary: st)
  case (Cons x folds)
  have "fold_all (x # folds) st = fold_all folds (case x of (sid, k, w) \<Rightarrow> fold_sparse_rows sid k w st)"
    by (simp add: fold_all_def split: prod.splits)
  with Cons show ?case by (cases x) (auto intro: same_frame_trans [OF same_frame_fold_sparse])
qed (simp add: fold_all_def)

section \<open>What a delete may remove\<close>

lemma requalify_iff:
  "sid \<in> set (requalify env snap_ids st) \<longleftrightarrow> (\<exists>s \<in> set (rt_snapshots st). w_id s = sid \<and> sid \<in> snap_ids \<and> deletable env st s)"
  by (auto simp: requalify_def)

lemma ids_iff: "i \<in> set (ids rows) \<longleftrightarrow> (\<exists>r \<in> set rows. w_id r = i)"
  by (auto simp: ids_def)

lemma same_id: "distinct (ids rows) \<Longrightarrow> s \<in> set rows \<Longrightarrow> s' \<in> set rows \<Longrightarrow> w_id s = w_id s' \<Longrightarrow> s = s'"
  unfolding ids_def by (meson distinct_map inj_on_def)

lemma delete_rows_frame:
  "delete_rows sids st = Inr st' \<Longrightarrow>
     set (ids (rt_snapshots st')) = set (ids (rt_snapshots st)) - set sids \<and> rt_audit st' = rt_audit st"
  by (auto simp: delete_rows_def Let_def rt_snapshots_def ids_def split: if_splits)

lemma set_map_filter_find:
  "sid \<in> set sids \<Longrightarrow> f sid = Some e \<Longrightarrow> e \<in> set (List.map_filter f sids)"
  by (force simp: List.map_filter_def)

lemma delete_snapshots_removes:
  assumes del: "delete_snapshots env snap_ids events pending st = Inr (n, st')" and d: "distinct (ids (rt_snapshots st))"
    and s: "s \<in> set (rt_snapshots st)" and gone: "w_id s \<notin> set (ids (rt_snapshots st'))"
  shows "w_id s \<in> snap_ids \<and> deletable env st s \<and>
    (\<forall>e. find (\<lambda>e. rv_snapshot_id e = w_id s) events = Some e \<longrightarrow> e \<in> set (rt_audit st'))"
proof -
  let ?sids = "requalify env snap_ids st"
  obtain folds doomed where f: "fold_targets st ?sids (set ?sids) = (folds, doomed)" by fastforce
  let ?kept = "filter (\<lambda>sid. sid \<in> doomed) ?sids"
  have here: "w_id s \<in> set (ids (rt_snapshots st))" using s by (auto simp: ids_iff)
  then have "st' \<noteq> st" using gone by auto
  then obtain st1 st2 where st1: "rehydrate_all env doomed ?kept st = Inr st1"
    and st2: "delete_rows ?kept (flush pending (fold_all folds st1)) = Inr st2" and st': "st' = add_events ?kept events st2"
    using del f by (auto simp: delete_snapshots_def Let_def split: if_splits elim!: bindE_InrE)
  have fr: "same_frame st (flush pending (fold_all folds st1))"
    using same_frame_rehydrate_all [OF st1] same_frame_trans same_frame_flush same_frame_fold_all by metis
  have "set (ids (rt_snapshots st')) = set (ids (rt_snapshots st)) - set ?kept"
    using delete_rows_frame [OF st2] fr by (simp add: st' add_events_def same_frame_def rt_snapshots_def)
  then have kept: "w_id s \<in> set ?kept" using gone here by blast
  then obtain s' where "s' \<in> set (rt_snapshots st)" "w_id s' = w_id s" "w_id s \<in> snap_ids" "deletable env st s'"
    by (auto simp: requalify_iff)
  moreover from this have "s' = s" using same_id [OF d _ s] by blast
  ultimately show ?thesis using kept by (auto simp: st' add_events_def intro: set_map_filter_find)
qed

text \<open>Restating changes the two counters only, and never to zero.\<close>

lemma judged_simps [simp]:
  "w_id (judged now its s) = w_id s" "w_status (judged now its s) = w_status s" "w_expires (judged now its s) = w_expires s"
  "sn_hc_drain (judged now its s) = sn_hc_drain s" "sn_resource_id (judged now its s) = sn_resource_id s"
  by (simp_all add: judged_def split: option.splits prod.splits)

lemma flush_restated:
  assumes "distinct (ids (rt_snapshots st))" "s \<in> set (rt_snapshots st)" "sn_resource_id s = rid"
  shows "judged now (rt_items st) s \<in> set (rt_snapshots
    (flush (snd (restate_lying_counters now (rt_items st) (filter (\<lambda>s. sn_resource_id s = rid) (rt_snapshots st)))) st))"
proof -
  let ?loaded = "filter (\<lambda>s. sn_resource_id s = rid) (rt_snapshots st)"
  let ?w = "snd (restate_lying_counters now (rt_items st) ?loaded)"
  have w: "map_of (List.map_filter (\<lambda>s. map_option (\<lambda>nb. (w_id s, nb)) (g s)) ss) (w_id s) = g s"
    if "distinct (ids ss)" "s \<in> set ss" for g :: "snap_row \<Rightarrow> (int \<times> int) option" and ss
    using that
  proof (induction ss)
    case (Cons a ss)
    have none: "map_of (List.map_filter (\<lambda>s. map_option (\<lambda>nb. (w_id s, nb)) (g s)) xs) i = None"
      if "i \<notin> set (ids xs)" for xs i
      using that by (induction xs) (auto simp: ids_def split: option.splits)
    show ?case
    proof (cases "s = a")
      case True
      with Cons.prems none [of "w_id a" ss] show ?thesis
        by (auto simp: ids_def split: option.splits)
    next
      case False
      with Cons.prems have "s \<in> set ss" by simp
      moreover from this have "w_id s \<noteq> w_id a" using Cons.prems unfolding ids_def by (metis distinct.simps(2) image_eqI list.set_map list.simps(9))
      ultimately have "s \<in> set ss" "w_id s \<noteq> w_id a" by simp_all
      with Cons show ?thesis by (auto simp: ids_def split: option.splits)
    qed
  qed simp
  have "distinct (ids ?loaded)" using assms(1) by (simp add: ids_def distinct_map_filter)
  then have "map_of ?w (w_id s) = restated now (rt_items st) s"
    using w [of ?loaded] assms(2,3) by (simp add: restate_lying_counters_def)
  then show ?thesis
    using assms(2) by (auto simp: flush_def judged_def intro!: image_eqI [of _ _ s] split: option.splits prod.splits)
qed

lemma judged_honest:
  assumes "deletable env st x" "x = s \<or> x = judged now its s" "rt_items st = its" "\<exists>it \<in> set its. it_snapshot_id it = w_id s"
  shows "or_zero (sn_item_count (judged now its s)) \<noteq> 0 \<or> or_zero (sn_bytes_total (judged now its s)) \<noteq> 0"
proof (cases "restated now its s")
  case None
  then have "x = s" "judged now its s = s" using assms(2) by (auto simp: judged_def)
  with assms show ?thesis by (auto simp: deletable_def)
next
  case (Some nb)
  then have "fst nb \<noteq> 0" by (auto simp: restated_def Let_def split: if_splits)
  with Some show ?thesis by (cases nb) (auto simp: judged_def or_zero_def)
qed

lemma retention_event_of_sel [simp]:
  "rv_snapshot_id (retention_event_of r p reason s) = w_id s" "rv_resource_id (retention_event_of r p reason s) = r_id r"
  "rv_policy_id (retention_event_of r p reason s) = p_id p"
  by (simp_all add: retention_event_of_def)

lemma audit_event_found:
  assumes "s \<in> set ss" "w_id s \<in> to_delete"
  obtains e where "find (\<lambda>e. rv_snapshot_id e = w_id s) (audit_events_for_deletion ss to_delete r p) = Some e"
    "rv_snapshot_id e = w_id s" "rv_resource_id e = r_id r" "rv_policy_id e = p_id p"
proof -
  let ?ev = "audit_events_for_deletion ss to_delete r p"
  have "\<exists>e \<in> set ?ev. rv_snapshot_id e = w_id s" using assms by (auto simp: audit_events_for_deletion_def Let_def)
  then obtain e where e: "find (\<lambda>e. rv_snapshot_id e = w_id s) ?ev = Some e"
    by (cases "find (\<lambda>e. rv_snapshot_id e = w_id s) ?ev") (auto simp: find_None_iff)
  then have "rv_snapshot_id e = w_id s" "e \<in> set ?ev" by (auto simp: find_Some_iff)
  with e that show ?thesis by (auto simp: audit_events_for_deletion_def Let_def)
qed

text \<open>The state \<open>enforce_resource\<close> deletes from.\<close>

lemma enforce_resource_deletes:
  assumes run: "enforce_resource env pols r stats st = Inr (counts, stats', st')"
    and s: "s \<in> set (rt_snapshots st)" and gone: "w_id s \<notin> set (ids (rt_snapshots st'))"
  obtains p keep evs st1 pend n st2 where "resource_policy pols r = Some p" "\<not> is_on_hold (re_now env) p" "re_delete_enabled env"
    "resource_keep_ids (re_now env) (is_archived r) p
       (map (judged (re_now env) (rt_items st)) (filter (\<lambda>s. sn_resource_id s = r_id r) (rt_snapshots st))) = Inr keep"
    "st1 = st \<or> st1 = flush (snd (restate_lying_counters (re_now env) (rt_items st)
        (filter (\<lambda>s. sn_resource_id s = r_id r) (rt_snapshots st)))) st"
    "to_delete_of env st1 (map (judged (re_now env) (rt_items st)) (filter (\<lambda>s. sn_resource_id s = r_id r) (rt_snapshots st))) keep
       = (fst evs, snd evs)"
    "delete_snapshots env (fst evs) (audit_events_for_deletion
       (map (judged (re_now env) (rt_items st)) (filter (\<lambda>s. sn_resource_id s = r_id r) (rt_snapshots st))) (fst evs) r p) pend st1
       = Inr (n, st2)"
    "st' = flush pend st2"
proof -
  have here: "w_id s \<in> set (ids (rt_snapshots st))" using s by (auto simp: ids_iff)
  have ids_flush: "ids (rt_snapshots (flush w x)) = ids (rt_snapshots x)" for w x
    using same_frame_flush [of x w] by (simp add: same_frame_def)
  have ne: "st' \<noteq> st" "st' \<noteq> flush w st" "st' \<noteq> flush v (flush w st)" for w v using gone here ids_flush by metis+
  let ?loaded = "filter (\<lambda>s. sn_resource_id s = r_id r) (rt_snapshots st)"
  let ?ss = "map (judged (re_now env) (rt_items st)) ?loaded"
  define W where "W = snd (restate_lying_counters (re_now env) (rt_items st) ?loaded)"
  have rl: "restate_lying_counters (re_now env) (rt_items st) ?loaded = (?ss, W)" by (simp add: W_def restate_lying_counters_def)
  define st1 pend where "st1 = (if re_text_flush env then flush W st else st)" and "pend = (if re_text_flush env then [] else W)"
  have sp: "(if re_text_flush env then (flush W st, []) else (st, W)) = (st1, pend)" by (simp add: st1_def pend_def)
  have st1: "st1 = st \<or> st1 = flush W st" by (simp add: st1_def)
  then have ne1: "st' \<noteq> flush pend st1" using ne by auto
  obtain p where p: "resource_policy pols r = Some p" "\<not> is_on_hold (re_now env) p"
    using run ne(1) by (auto simp: enforce_resource_def Let_def split: option.splits if_splits)
  have l: "?loaded \<noteq> []" using run ne(1) p by (auto simp: enforce_resource_def Let_def)
  obtain keep where keep: "resource_keep_ids (re_now env) (is_archived r) p ?ss = Inr keep"
    using run p l by (auto simp: enforce_resource_def rl sp Let_def)
  obtain X Y where X: "to_delete_of env st1 ?ss keep = (X, Y)" by fastforce
  then obtain n st2 where "re_delete_enabled env" "st' = flush pend st2"
    "delete_snapshots env X (audit_events_for_deletion ?ss X r p) pend st1 = Inr (n, st2)"
    using run p l keep ne1 by (auto simp: enforce_resource_def rl sp Let_def retention_deletes_permitted_def split: if_splits)
  then show ?thesis using that [of p keep st1 "(X, Y)" pend n st2] p keep st1 X by (simp add: W_def)
qed

lemma flush_row:
  "z \<in> set (rt_snapshots st) \<Longrightarrow> \<exists>z' \<in> set (rt_snapshots (flush w st)). w_id z' = w_id z \<and> w_status z' = w_status z \<and>
     sn_overlay_base z' = sn_overlay_base z \<and> sn_reuse_root z' = sn_reuse_root z"
  by (force simp: flush_def split: option.splits)

text \<open>
  C3. What one resource's retention pass may delete. A snapshot row that is gone after
  \<open>enforce_resource\<close> (the body of the loop of \<open>enforce_retention_for_tenant\<close>) belonged to that resource; the
  resource has a policy that is not on hold and the delete switch is on; the row is outside the keep set
  computed from the rows with honest counters; when it went it was terminal, without a live lease, a pending
  blob drain, a live shard or a copy pin, no running snapshot depended on it, and its counters did not deny
  rows it holds; and an audit event for that very snapshot and policy is in the audit trail.
\<close>

theorem deletion_is_justified_and_audited:
  assumes run: "enforce_resource env pols r stats st = Inr (counts, stats', st')"
    and d: "distinct (ids (rt_snapshots st))" and s: "s \<in> set (rt_snapshots st)"
    and gone: "w_id s \<notin> set (ids (rt_snapshots st'))"
  shows "\<exists>p keep. resource_policy pols r = Some p \<and> \<not> is_on_hold (re_now env) p \<and> re_delete_enabled env \<and>
    sn_resource_id s = r_id r \<and>
    resource_keep_ids (re_now env) (is_archived r) p
      (map (judged (re_now env) (rt_items st)) (filter (\<lambda>s. sn_resource_id s = r_id r) (rt_snapshots st))) = Inr keep \<and>
    w_id s \<notin> keep \<and>
    copy_source_unpinned (re_gc env) (re_now env) (wd_guards (rt_db st)) (w_id s) \<and>
    terminal_status (w_status s) \<and>
    (\<forall>t. w_expires s = Some t \<longrightarrow> t \<le> re_now env) \<and>
    sn_hc_drain s \<noteq> Some ''PENDING'' \<and>
    (\<forall>sp \<in> set (wd_partitions (rt_db st)). pt_snapshot_id sp = w_id s \<longrightarrow> w_status sp \<notin> {''QUEUED'', ''CLAIMED'', ''IN_PROGRESS''}) \<and>
    (\<forall>x \<in> set (rt_snapshots st). (sn_overlay_base x = Some (w_id s) \<or> sn_reuse_root x = Some (w_id s)) \<and> w_id x \<noteq> w_id s \<longrightarrow>
       terminal_status (w_status x)) \<and>
    ((\<exists>it \<in> set (rt_items st). it_snapshot_id it = w_id s) \<longrightarrow>
       or_zero (sn_item_count (judged (re_now env) (rt_items st) s)) \<noteq> 0 \<or>
       or_zero (sn_bytes_total (judged (re_now env) (rt_items st) s)) \<noteq> 0) \<and>
    (\<exists>e \<in> set (rt_audit st'). rv_snapshot_id e = w_id s \<and> rv_resource_id e = r_id r \<and> rv_policy_id e = p_id p)"
proof -
  let ?J = "judged (re_now env) (rt_items st)"
  let ?loaded = "filter (\<lambda>s. sn_resource_id s = r_id r) (rt_snapshots st)"
  obtain p keep evs st1 pend n st2 where p: "resource_policy pols r = Some p" "\<not> is_on_hold (re_now env) p" "re_delete_enabled env"
    and keep: "resource_keep_ids (re_now env) (is_archived r) p (map ?J ?loaded) = Inr keep"
    and st1: "st1 = st \<or> st1 = flush (snd (restate_lying_counters (re_now env) (rt_items st) ?loaded)) st"
    and td: "to_delete_of env st1 (map ?J ?loaded) keep = (fst evs, snd evs)"
    and del: "delete_snapshots env (fst evs) (audit_events_for_deletion (map ?J ?loaded) (fst evs) r p) pend st1 = Inr (n, st2)"
    and st': "st' = flush pend st2"
    using enforce_resource_deletes [OF run s gone] by metis
  have fr: "same_frame st st1" "same_frame st2 st'" using st1 st' by auto
  have its: "rt_items st1 = rt_items st" using st1 by (auto simp: flush_def)
  have d1: "distinct (ids (rt_snapshots st1))" and gone2: "w_id s \<notin> set (ids (rt_snapshots st2))"
    using fr d gone by (simp_all add: same_frame_def)
  have "w_id s \<in> set (ids (rt_snapshots st1))" using fr(1) s by (auto simp: same_frame_def ids_iff)
  then obtain x where x: "x \<in> set (rt_snapshots st1)" "w_id x = w_id s" by (auto simp: ids_iff)
  have rem: "w_id s \<in> fst evs" "deletable env st1 x"
    "\<And>e. find (\<lambda>e. rv_snapshot_id e = w_id s) (audit_events_for_deletion (map ?J ?loaded) (fst evs) r p) = Some e \<Longrightarrow> e \<in> set (rt_audit st2)"
    using delete_snapshots_removes [OF del d1 x(1)] gone2 x(2) by auto
  have cand: "w_id s \<in> w_id ` set (map ?J ?loaded)" "w_id s \<notin> keep" using rem(1) td by (auto simp: to_delete_of_def Let_def)
  then obtain y where "y \<in> set (rt_snapshots st)" "sn_resource_id y = r_id r" "w_id y = w_id s" by auto
  with same_id [OF d _ s] have res: "sn_resource_id s = r_id r" by blast
  have xs: "x = s \<or> x = ?J s"
    using st1 flush_restated [OF d s res] same_id [OF d1 x(1)] s x(2) by auto
  have J: "?J s \<in> set (map ?J ?loaded)" "w_id (?J s) \<in> fst evs" using res s rem(1) by auto
  obtain e where e: "e \<in> set (rt_audit st2)" "rv_snapshot_id e = w_id s" "rv_resource_id e = r_id r" "rv_policy_id e = p_id p"
    using audit_event_found [OF J, of r p] rem(3) by auto
  have sel: "w_status x = w_status s" "w_expires x = w_expires s" "sn_hc_drain x = sn_hc_drain s" using xs by auto
  have dep: "\<exists>z' \<in> set (rt_snapshots st1). w_id z' = w_id z \<and> w_status z' = w_status z \<and> sn_overlay_base z' = sn_overlay_base z \<and>
      sn_reuse_root z' = sn_reuse_root z" if "z \<in> set (rt_snapshots st)" for z
    using that st1 flush_row by blast
  note del_facts = rem(2) [unfolded deletable_def x(2) sel its]
  have tabs: "wd_guards (rt_db st1) = wd_guards (rt_db st)" "wd_partitions (rt_db st1) = wd_partitions (rt_db st)"
    and aud: "rt_audit st' = rt_audit st2" using fr by (simp_all add: same_frame_def)
  have live: "\<forall>z \<in> set (rt_snapshots st). (sn_overlay_base z = Some (w_id s) \<or> sn_reuse_root z = Some (w_id s)) \<and>
      w_id z \<noteq> w_id s \<longrightarrow> terminal_status (w_status z)"
    using del_facts dep by metis
  have honest: "(\<exists>it \<in> set (rt_items st). it_snapshot_id it = w_id s) \<longrightarrow>
      or_zero (sn_item_count (?J s)) \<noteq> 0 \<or> or_zero (sn_bytes_total (?J s)) \<noteq> 0"
    using judged_honest [OF rem(2) xs its] by blast
  have "terminal_status (w_status s)" "\<forall>t. w_expires s = Some t \<longrightarrow> t \<le> re_now env" "sn_hc_drain s \<noteq> Some ''PENDING''"
    "copy_source_unpinned (re_gc env) (re_now env) (wd_guards (rt_db st)) (w_id s)"
    "\<forall>sp \<in> set (wd_partitions (rt_db st)). pt_snapshot_id sp = w_id s \<longrightarrow> w_status sp \<notin> {''QUEUED'', ''CLAIMED'', ''IN_PROGRESS''}"
    using del_facts unfolding tabs by (auto split: option.splits)
  with p keep cand(2) res live honest e show ?thesis unfolding aud by blast
qed

definition sample_ret_env :: ret_env where
  "sample_ret_env =
     \<lparr>re_gc = \<lparr>gc_copy_enabled = False, gc_copy_active = False, gc_resuming = None, gc_parent_settlement = False,
        gc_provider_enabled = False, gc_provider_guards = False, gc_current = None, gc_settling = Not_settling, gc_deferred = False\<rparr>,
      re_now = 40 * DAY, re_ts_text = (\<lambda>_. ''t''), re_new_id = (\<lambda>sid iid. sid @ iid),
      re_digest = (\<lambda>ps. concat (map fst ps)), re_text_flush = True, re_delete_enabled = True\<rparr>"

definition sample_ret :: "snap_row list \<Rightarrow> item_row list \<Rightarrow> ret_state" where
  "sample_ret ss its =
     \<lparr>rt_db = \<lparr>wd_jobs = [], wd_snapshots = ss, wd_partitions = [], wd_items = its, wd_heartbeats = [],
        wd_guards = empty_guards\<rparr>, rt_removals = [], rt_chats = [], rt_audit = []\<rparr>"

text \<open>
  Three restore points far outside a FLAT window of one day: the oldest is the baseline, the newest is
  protected, the middle one goes.
\<close>

definition sample_history :: ret_state where
  "sample_history =
     sample_ret [sample_point ''a'' 1 S_COMPLETED 9, sample_point ''b'' 3 S_COMPLETED 3, sample_point ''c'' 5 S_COMPLETED 5] []"

lemma sample_history_run:
  "(case enforce_resource sample_ret_env [sample_retention ''FLAT'' (Some 1)] (sample_resource ''r1'' ''MAILBOX'' None) empty_stats sample_history
   of Inl e \<Rightarrow> [] | Inr (c, s, st) \<Rightarrow> ids (rt_snapshots st)) = [''a'', ''c'']"
  by code_simp

theorem deletion_is_justified_and_audited_witness:
  "\<exists>counts stats st'. enforce_resource sample_ret_env [sample_retention ''FLAT'' (Some 1)] (sample_resource ''r1'' ''MAILBOX'' None)
       empty_stats sample_history = Inr (counts, stats, st') \<and>
     ''b'' \<notin> set (ids (rt_snapshots st')) \<and> (\<exists>e \<in> set (rt_audit st'). rv_snapshot_id e = ''b'' \<and> rv_policy_id e = ''gold'')"
proof -
  let ?run = "enforce_resource sample_ret_env [sample_retention ''FLAT'' (Some 1)] (sample_resource ''r1'' ''MAILBOX'' None)
    empty_stats sample_history"
  obtain counts stats st' where run: "?run = Inr (counts, stats, st')" and ss: "ids (rt_snapshots st') = [''a'', ''c'']"
    using sample_history_run by (auto split: sum.splits prod.splits)
  have "distinct (ids (rt_snapshots sample_history))"
    by (simp add: sample_history_def sample_ret_def rt_snapshots_def sample_point_def ids_def)
  moreover have "sample_point ''b'' 3 S_COMPLETED 3 \<in> set (rt_snapshots sample_history)"
    by (simp add: sample_history_def sample_ret_def rt_snapshots_def)
  moreover have "w_id (sample_point ''b'' 3 S_COMPLETED 3) = ''b''" by (simp add: sample_point_def)
  moreover have "resource_policy [sample_retention ''FLAT'' (Some 1)] (sample_resource ''r1'' ''MAILBOX'' None)
    = Some (sample_retention ''FLAT'' (Some 1))" "p_id (sample_retention ''FLAT'' (Some 1)) = ''gold''"
    by (simp_all add: resource_policy_def sample_resource_def sample_retention_def)
  ultimately show ?thesis
    using deletion_is_justified_and_audited [OF run, of "sample_point ''b'' 3 S_COMPLETED 3"] run ss by auto
qed

section \<open>The heir of a chain root\<close>

text \<open>Both row triggers would accept every row as it stands.\<close>

definition reuse_typed :: "snap_row list \<Rightarrow> bool" where
  "reuse_typed ss \<longleftrightarrow> (\<forall>s \<in> set ss. reuse_triggers ss s = Inr ())"

definition parent_ok :: "snap_row list \<Rightarrow> snap_row \<Rightarrow> string \<Rightarrow> bool" where
  "parent_ok ss new par \<longleftrightarrow> (\<exists>p \<in> set ss. w_id p = par \<and> sn_resource_id p = sn_resource_id new \<and>
     (w_status p = S_COMPLETED \<or>
      w_status p = S_PARTIAL \<and> (case sn_extra new of None \<Rightarrow> False | Some m \<Rightarrow> m ''archive_reused_partial_prior'' \<noteq> None)) \<and>
     sql_less (coalesce_ts p) (coalesce_ts new))"

definition root_ok :: "snap_row list \<Rightarrow> snap_row \<Rightarrow> string \<Rightarrow> bool" where
  "root_ok ss new rid \<longleftrightarrow> (\<exists>r \<in> set ss. w_id r = rid \<and> sn_resource_id r = sn_resource_id new \<and> sn_reuse_of r = None)"

definition base_ok :: "snap_row list \<Rightarrow> snap_row \<Rightarrow> string \<Rightarrow> bool" where
  "base_ok ss new base \<longleftrightarrow> (\<exists>b \<in> set ss. w_id b = base \<and> w_id b \<noteq> w_id new \<and> sn_resource_id b = sn_resource_id new \<and>
     sn_overlay_base b = None \<and> sn_reuse_of b = None)"

lemma reuse_triggers_iff:
  "reuse_triggers ss new = Inr () \<longleftrightarrow>
     (case sn_overlay_base new of None \<Rightarrow> True | Some base \<Rightarrow> sn_reuse_of new = None \<and> base_ok ss new base) \<and>
     (case (sn_reuse_of new, sn_reuse_root new) of
        (None, None) \<Rightarrow> True | (Some par, Some rid) \<Rightarrow> parent_ok ss new par \<and> root_ok ss new rid | _ \<Rightarrow> False)"
  by (auto simp: reuse_triggers_def validate_overlay_base_def validate_reuse_target_def base_ok_def parent_ok_def root_ok_def
      split: option.splits)

lemma typed_pointer:
  assumes "reuse_typed ss" "s \<in> set ss" "sn_reuse_root s = Some rid"
  shows "sn_overlay_base s = None" "\<exists>par. sn_reuse_of s = Some par \<and> parent_ok ss s par" "root_ok ss s rid"
proof -
  have "reuse_triggers ss s = Inr ()" using assms(1,2) by (simp add: reuse_typed_def)
  with assms(3) show "sn_overlay_base s = None" "\<exists>par. sn_reuse_of s = Some par \<and> parent_ok ss s par" "root_ok ss s rid"
    unfolding reuse_triggers_iff by (auto split: option.splits)
qed

lemma update_checked_iff:
  assumes "\<And>pre r post. rs = pre @ r # post \<Longrightarrow> p r \<Longrightarrow> check (done @ sql_update p f pre @ r # post) (f r) = Inr () \<longleftrightarrow> ok r"
  shows "(\<exists>ss. update_checked check p f done rs = Inr ss) \<longleftrightarrow> (\<forall>r \<in> set rs. p r \<longrightarrow> ok r)"
  using assms
proof (induction rs arbitrary: "done")
  case (Cons r rs)
  let ?r = "if p r then f r else r"
  have head: "p r \<Longrightarrow> check (done @ r # rs) (f r) = Inr () \<longleftrightarrow> ok r" using Cons.prems [of "[]"] by simp
  have "check ((done @ [?r]) @ sql_update p f pre @ r' # post) (f r') = Inr () \<longleftrightarrow> ok r'"
    if "rs = pre @ r' # post" "p r'" for pre r' post
    using Cons.prems [of "r # pre" r' post] that by simp
  then have "(\<exists>ss. update_checked check p f (done @ [?r]) rs = Inr ss) \<longleftrightarrow> (\<forall>x \<in> set rs. p x \<longrightarrow> ok x)" by (rule Cons.IH)
  with head show ?case by auto
qed simp

lemma sql_update_rows:
  "x \<in> set ss \<Longrightarrow> p x \<Longrightarrow> f x \<in> set (sql_update p f ss)" "x \<in> set ss \<Longrightarrow> \<not> p x \<Longrightarrow> x \<in> set (sql_update p f ss)"
  "z \<in> set (sql_update p f ss) \<Longrightarrow> \<exists>y \<in> set ss. z = (if p y then f y else y)"
  by (auto simp: sql_update_def)

lemma bex_update:
  "(\<And>y. y \<in> set ss \<Longrightarrow> p y \<Longrightarrow> Q (f y) = Q y) \<Longrightarrow> (\<exists>x \<in> set (sql_update p f ss). Q x) \<longleftrightarrow> (\<exists>x \<in> set ss. Q x)"
  by (induction ss) auto

lemma bex_half_update:
  assumes "\<And>y. y \<in> set (pre @ r # post) \<Longrightarrow> p y \<Longrightarrow> Q (f y) = Q y"
  shows "(\<exists>x \<in> set (sql_update p f pre @ r # post). Q x) \<longleftrightarrow> (\<exists>x \<in> set (pre @ r # post). Q x)"
  using bex_update [of pre p Q f] assms by auto

text \<open>What a row trigger reads of a parent: an update that keeps these columns keeps every parent valid.\<close>

definition keeps_row :: "(snap_row \<Rightarrow> snap_row) \<Rightarrow> bool" where
  "keeps_row f \<longleftrightarrow> (\<forall>s. w_id (f s) = w_id s \<and> sn_resource_id (f s) = sn_resource_id s \<and> w_status (f s) = w_status s \<and>
     coalesce_ts (f s) = coalesce_ts s \<and> sn_overlay_base (f s) = sn_overlay_base s)"

lemma keeps_row_comp: "keeps_row f \<Longrightarrow> keeps_row g \<Longrightarrow> keeps_row (f \<circ> g)"
  by (simp add: keeps_row_def)

lemma keeps_row_repoint: "keeps_row (repoint_row did heir)"
  by (simp add: keeps_row_def repoint_row_def coalesce_ts_def split: option.splits)

lemma parent_ok_update: "keeps_row f \<Longrightarrow> parent_ok (sql_update p f ss) new par \<longleftrightarrow> parent_ok ss new par"
  unfolding parent_ok_def by (rule bex_update) (simp add: keeps_row_def)

lemma parent_ok_half: "keeps_row f \<Longrightarrow> parent_ok (sql_update p f pre @ r # post) new par \<longleftrightarrow> parent_ok (pre @ r # post) new par"
  unfolding parent_ok_def by (rule bex_half_update) (simp add: keeps_row_def)

text \<open>The table with the heir promoted, before its siblings move.\<close>

definition promoted :: "snap_row \<Rightarrow> snap_row list \<Rightarrow> snap_row list \<Rightarrow> bool" where
  "promoted h ss R \<longleftrightarrow> (\<exists>k. keeps_row k \<and> (\<forall>s. sn_reuse_of (k s) = None \<and> sn_reuse_root (k s) = None) \<and>
     R = sql_update (\<lambda>s. w_id s = w_id h) k ss)"

lemma sql_update_twice:
  "keeps_row k \<Longrightarrow> sql_update (\<lambda>s. w_id s = i) g (sql_update (\<lambda>s. w_id s = i) k ss) = sql_update (\<lambda>s. w_id s = i) (g \<circ> k) ss"
  by (induction ss) (auto simp: keeps_row_def)

lemma reuse_heirD:
  assumes "reuse_heir did doomed ss = Some h"
  shows "h \<in> set ss" "sn_reuse_root h = Some did" "w_id h \<noteq> did" "w_id h \<notin> doomed" "w_status h = S_COMPLETED"
proof -
  let ?c = "filter (\<lambda>s. sn_reuse_root s = Some did \<and> w_id s \<noteq> did \<and> w_id s \<notin> doomed \<and> w_status s = S_COMPLETED) ss"
  obtain t where t: "sort_key order_ts ?c = h # t" using assms by (auto simp: reuse_heir_def split: list.splits)
  have "h \<in> set ?c" using arg_cong [OF t, of set] by auto
  then show "h \<in> set ss" "sn_reuse_root h = Some did" "w_id h \<noteq> did" "w_id h \<notin> doomed" "w_status h = S_COMPLETED" by auto
qed

text \<open>Promoting the heir is never refused; the table it leaves is the old one with the heir a full snapshot.\<close>

lemma promote_heir_Inr:
  assumes typed: "reuse_typed (rt_snapshots st)" and d: "distinct (ids (rt_snapshots st))"
    and did: "did \<in> set (ids (rt_snapshots st))" and h: "reuse_heir did doomed (rt_snapshots st) = Some h"
  obtains st1 where "promote_heir env did (w_id h) (heir_takes env did (w_id h) st) = Inr st1"
    "promoted h (rt_snapshots st) (rt_snapshots (restate_counts (w_id h) st1))" "rt_items st1 = rt_items (heir_takes env did (w_id h) st)"
proof -
  let ?ss = "rt_snapshots st" and ?p = "\<lambda>s. w_id s = w_id h"
  let ?st = "heir_takes env did (w_id h) st"
  obtain c where c: "rt_snapshots ?st = sql_update (\<lambda>s. ?p s \<and> c)
      (\<lambda>s. s\<lparr>sn_extra := json_merge (sn_extra s) [''chat_inventory_format'' \<mapsto> JInt 1]\<rparr>) ?ss"
    by (simp add: heir_takes_def Let_def rt_snapshots_def put_items_def put_snapshots_def)
  define k0 :: "snap_row \<Rightarrow> snap_row" where "k0 = (\<lambda>s. if c then s\<lparr>sn_extra := json_merge (sn_extra s) [''chat_inventory_format'' \<mapsto> JInt 1]\<rparr> else s)"
  have ss0: "rt_snapshots ?st = sql_update ?p k0 ?ss" and k0: "keeps_row k0"
    unfolding c by (auto simp: k0_def sql_update_def keeps_row_def coalesce_ts_def split: option.splits)
  have "did \<in> set (ids (rt_snapshots ?st))" using did same_frame_heir_takes [of st env did "w_id h"] by (simp add: same_frame_def)
  then obtain dr where dr: "row_of did (rt_snapshots ?st) = Some dr"
    by (cases "row_of did (rt_snapshots ?st)") (auto simp: row_of_def ids_def find_None_iff)
  let ?f = "promote_row env dr (filter (\<lambda>it. it_snapshot_id it = w_id h) (rt_items ?st))"
  have f: "keeps_row ?f" "\<And>s. sn_reuse_of (?f s) = None" "\<And>s. sn_reuse_root (?f s) = None"
    by (simp_all add: promote_row_def keeps_row_def coalesce_ts_def split: option.splits)
  have none: "sn_overlay_base x = None" if x: "x \<in> set (rt_snapshots ?st)" "w_id x = w_id h" for x
  proof -
    obtain y where y: "y \<in> set ?ss" "w_id y = w_id h" "sn_overlay_base x = sn_overlay_base y"
      using x k0 unfolding ss0 by (auto simp: sql_update_def keeps_row_def split: if_splits)
    then have "y = h" using same_id [OF d] reuse_heirD(1) [OF h] by blast
    then show ?thesis using typed_pointer(1) [OF typed reuse_heirD(1,2) [OF h]] y(3) by simp
  qed
  have "\<exists>ss1. update_checked reuse_triggers ?p ?f [] (rt_snapshots ?st) = Inr ss1"
    using update_checked_iff [of "rt_snapshots ?st" ?p reuse_triggers "[]" ?f "\<lambda>_. True"] none f
    by (auto simp: reuse_triggers_iff keeps_row_def)
  then obtain ss1 where ss1: "update_checked reuse_triggers ?p ?f [] (rt_snapshots ?st) = Inr ss1" by blast
  have e1: "ss1 = sql_update ?p (?f \<circ> k0) ?ss" using update_checked_Inr [OF ss1] sql_update_twice [OF k0] by (simp add: ss0)
  let ?st1 = "put_snapshots ss1 ?st"
  define g :: "snap_row \<Rightarrow> snap_row" where "g = (\<lambda>s. let rows = effective_items ?st1 (w_id s)
      in s\<lparr>sn_item_count := Some (int (length (filter (primary_item s) rows))), sn_bytes_total := Some (items_bytes rows)\<rparr>)"
  have fk: "keeps_row (?f \<circ> k0)" by (rule keeps_row_comp [OF f(1) k0])
  then have R: "rt_snapshots (restate_counts (w_id h) ?st1) = sql_update ?p (g \<circ> (?f \<circ> k0)) ?ss"
    unfolding restate_counts_def g_def [symmetric] using sql_update_twice by (simp add: e1)
  have "keeps_row g" by (simp add: keeps_row_def g_def Let_def coalesce_ts_def split: option.splits)
  then have "keeps_row (g \<circ> (?f \<circ> k0))" using fk by (rule keeps_row_comp)
  then have "promoted h ?ss (rt_snapshots (restate_counts (w_id h) ?st1))"
    unfolding promoted_def R using f by (intro exI [of _ "g \<circ> (?f \<circ> k0)"]) (simp add: g_def Let_def)
  with ss1 dr that [of ?st1] show ?thesis by (simp add: promote_heir_def)
qed

text \<open>Moving the siblings succeeds exactly when every one that pointed straight at the doomed row is younger than the heir.\<close>

lemma repoint_iff:
  assumes typed: "reuse_typed ss" and d: "distinct (ids ss)" and h: "reuse_heir did doomed ss = Some h" and R: "promoted h ss R"
  shows "(\<exists>ss2. update_checked reuse_triggers (\<lambda>s. sn_reuse_root s = Some did \<and> w_id s \<noteq> w_id h) (repoint_row did (w_id h)) [] R = Inr ss2)
    \<longleftrightarrow> (\<forall>s \<in> set ss. sn_reuse_of s = Some did \<and> sn_reuse_root s = Some did \<and> w_id s \<noteq> w_id h \<longrightarrow> sql_less (coalesce_ts h) (coalesce_ts s))"
proof -
  let ?p = "\<lambda>s. sn_reuse_root s = Some did \<and> w_id s \<noteq> w_id h" and ?f = "repoint_row did (w_id h)"
  let ?ok = "\<lambda>s. sn_reuse_of s = Some did \<longrightarrow> sql_less (coalesce_ts h) (coalesce_ts s)"
  note hD = reuse_heirD [OF h]
  obtain k where k: "keeps_row k" "\<And>s. sn_reuse_of (k s) = None" "\<And>s. sn_reuse_root (k s) = None"
    and Rk: "R = sql_update (\<lambda>s. w_id s = w_id h) k ss" using R by (auto simp: promoted_def)
  have sib: "r \<in> set R \<and> ?p r \<longleftrightarrow> r \<in> set ss \<and> ?p r" for r
    using k unfolding Rk by (auto simp: sql_update_def keeps_row_def)
  have kh: "k h \<in> set R" using hD(1) unfolding Rk by (force simp: sql_update_def)
  have step: "reuse_triggers ([] @ sql_update ?p ?f pre @ r # post) (?f r) = Inr () \<longleftrightarrow> ?ok r"
    if split: "R = pre @ r # post" and r: "?p r" for pre r post
  proof -
    let ?T = "sql_update ?p ?f pre @ r # post"
    have rs: "r \<in> set ss" using sib r split by auto
    obtain par where par: "sn_reuse_of r = Some par" "parent_ok ss r par" and root: "root_ok ss r did"
      and ov: "sn_overlay_base r = None"
      using typed_pointer [OF typed rs] r by blast
    have same: "sn_resource_id r = sn_resource_id h"
      using root typed_pointer(3) [OF typed hD(1,2)] same_id [OF d] unfolding root_ok_def by metis
    have rf: "sn_resource_id (?f r) = sn_resource_id r" "coalesce_ts (?f r) = coalesce_ts r" "sn_extra (?f r) = sn_extra r"
      "sn_overlay_base (?f r) = None" "sn_reuse_root (?f r) = Some (w_id h)"
      "sn_reuse_of (?f r) = Some (if par = did then w_id h else par)"
      using par ov by (simp_all add: repoint_row_def coalesce_ts_def split: option.splits)
    have pT: "parent_ok ?T (?f r) x \<longleftrightarrow> parent_ok ss r x" for x
    proof -
      have "parent_ok ?T (?f r) x \<longleftrightarrow> parent_ok R (?f r) x" unfolding split by (rule parent_ok_half [OF keeps_row_repoint])
      also have "\<dots> \<longleftrightarrow> parent_ok ss (?f r) x" unfolding Rk by (rule parent_ok_update [OF k(1)])
      finally show ?thesis using rf(1-3) by (simp add: parent_ok_def)
    qed
    have "root_ok ?T (?f r) (w_id h) \<longleftrightarrow> root_ok R (?f r) (w_id h)"
      unfolding root_ok_def split by (rule bex_half_update) (auto simp: repoint_row_def)
    moreover have "root_ok R (?f r) (w_id h)"
      using kh k rf(1) same unfolding root_ok_def keeps_row_def by metis
    ultimately have rT: "root_ok ?T (?f r) (w_id h)" by simp
    have "parent_ok ss r (w_id h) \<longleftrightarrow> sql_less (coalesce_ts h) (coalesce_ts r)"
      using hD(1,5) same same_id [OF d _ hD(1)] unfolding parent_ok_def by auto
    with par rf rT pT show ?thesis unfolding reuse_triggers_iff by auto
  qed
  have "(\<exists>ss2. update_checked reuse_triggers ?p ?f [] R = Inr ss2) \<longleftrightarrow> (\<forall>r \<in> set R. ?p r \<longrightarrow> ?ok r)"
    using update_checked_iff [of R ?p reuse_triggers "[]" ?f ?ok] step by blast
  also have "\<dots> \<longleftrightarrow> (\<forall>r \<in> set ss. ?p r \<longrightarrow> ?ok r)" using sib by blast
  finally show ?thesis by blast
qed

lemma repoint_typed:
  assumes typed: "reuse_typed ss" and d: "distinct (ids ss)" and h: "reuse_heir did doomed ss = Some h" and R: "promoted h ss R"
    and young: "\<forall>s \<in> set ss. sn_reuse_of s = Some did \<and> sn_reuse_root s = Some did \<and> w_id s \<noteq> w_id h \<longrightarrow>
      sql_less (coalesce_ts h) (coalesce_ts s)"
  shows "reuse_typed (sql_update (\<lambda>s. sn_reuse_root s = Some did \<and> w_id s \<noteq> w_id h) (repoint_row did (w_id h)) R)"
    (is "reuse_typed ?N")
proof -
  let ?p = "\<lambda>s. sn_reuse_root s = Some did \<and> w_id s \<noteq> w_id h" and ?f = "repoint_row did (w_id h)"
  note hD = reuse_heirD [OF h]
  obtain k where k: "keeps_row k" "\<And>s. sn_reuse_of (k s) = None" "\<And>s. sn_reuse_root (k s) = None"
    and Rk: "R = sql_update (\<lambda>s. w_id s = w_id h) k ss" using R by (auto simp: promoted_def)
  have parents: "parent_ok ?N new par \<longleftrightarrow> parent_ok ss new par" for new par
    using parent_ok_update [OF keeps_row_repoint] parent_ok_update [OF k(1)] by (simp add: Rk)
  have full: "r \<in> set ?N" if r: "r \<in> set ss" "sn_reuse_of r = None" for r
  proof -
    have "sn_reuse_root r = None" using typed r by (auto simp: reuse_typed_def reuse_triggers_iff split: option.splits)
    moreover have "w_id r \<noteq> w_id h"
      using same_id [OF d r(1) hD(1)] typed_pointer(2) [OF typed hD(1,2)] r(2) by auto
    ultimately show ?thesis using r(1) unfolding Rk by (intro sql_update_rows(2)) simp_all
  qed
  have roots: "root_ok ss new rid \<Longrightarrow> root_ok ?N new rid" and bases: "base_ok ss new b \<Longrightarrow> base_ok ?N new b" for new rid b
    using full unfolding root_ok_def base_ok_def by blast+
  have heir_root: "root_ok ?N new (w_id h)" if "sn_resource_id new = sn_resource_id h" for new
  proof -
    have "k h \<in> set R" unfolding Rk by (rule sql_update_rows(1) [OF hD(1)]) simp
    then have "k h \<in> set ?N" by (rule sql_update_rows(2)) (simp add: k(3))
    moreover have "w_id (k h) = w_id h" "sn_resource_id (k h) = sn_resource_id new" using k(1) that by (simp_all add: keeps_row_def)
    ultimately show ?thesis unfolding root_ok_def using k(2) by blast
  qed
  have "reuse_triggers ?N x = Inr ()" if x: "x \<in> set ?N" for x
  proof -
    obtain y where y: "y \<in> set ss" "x = (if w_id y = w_id h then k y else if ?p y then ?f y else y)"
    proof -
      obtain z where z: "z \<in> set R" "x = (if ?p z then ?f z else z)" using sql_update_rows(3) [OF x] by blast
      obtain y where "y \<in> set ss" "z = (if w_id y = w_id h then k y else y)" using sql_update_rows(3) [OF z(1) [unfolded Rk]] by blast
      with z(2) that [of y] k(3) show ?thesis by (cases "w_id y = w_id h") auto
    qed
    consider "w_id y = w_id h" | "w_id y \<noteq> w_id h" "?p y" | "w_id y \<noteq> w_id h" "\<not> ?p y" by blast
    then show ?thesis
    proof cases
      case 1
      then have "y = h" using same_id [OF d y(1) hD(1)] by simp
      then have "sn_overlay_base x = None" using 1 y(2) k(1) typed_pointer(1) [OF typed hD(1,2)] by (simp add: keeps_row_def)
      with 1 y(2) k(2,3) show ?thesis by (simp add: reuse_triggers_iff)
    next
      case 2
      obtain par where par: "sn_reuse_of y = Some par" "parent_ok ss y par" and root: "root_ok ss y did" and ov: "sn_overlay_base y = None"
        using typed_pointer [OF typed y(1)] 2 by blast
      have same: "sn_resource_id y = sn_resource_id h"
        using root typed_pointer(3) [OF typed hD(1,2)] same_id [OF d] unfolding root_ok_def by metis
      have "parent_ok ss y (if par = did then w_id h else par)"
        using par young y(1) 2 hD(1,5) same unfolding parent_ok_def by auto
      then have "parent_ok ss x (if par = did then w_id h else par)" "sn_resource_id x = sn_resource_id h"
        using 2 y(2) same keeps_row_repoint [of did "w_id h"] by (simp_all add: parent_ok_def keeps_row_def repoint_row_def)
      moreover have "sn_overlay_base x = None" "sn_reuse_of x = Some (if par = did then w_id h else par)" "sn_reuse_root x = Some (w_id h)"
        using ov par 2 y(2) by (simp_all add: repoint_row_def)
      ultimately show ?thesis using parents heir_root by (simp add: reuse_triggers_iff split del: if_split)
    next
      case 3
      then have "reuse_triggers ss x = Inr ()" using typed y by (simp add: reuse_typed_def)
      then show ?thesis using parents roots bases unfolding reuse_triggers_iff by (auto split: option.splits)
    qed
  qed
  then show ?thesis by (simp add: reuse_typed_def)
qed

lemma repoint_unrooted:
  assumes "promoted h ss R" "w_id h \<noteq> did"
  shows "\<forall>s \<in> set (sql_update (\<lambda>s. sn_reuse_root s = Some did \<and> w_id s \<noteq> w_id h) (repoint_row did (w_id h)) R). sn_reuse_root s \<noteq> Some did"
  using assms by (auto simp: promoted_def sql_update_def repoint_row_def)

text \<open>Copying rows keeps what is there and leaves the target an item for every row copied.\<close>

lemma has_item_insert: "has_item sid ty ext its \<Longrightarrow> has_item sid ty ext (insert_item it its)"
  "has_item (it_snapshot_id it) (it_type it) (it_external_id it) (insert_item it its)"
  by (auto simp: has_item_def insert_item_def)

lemma copy_items_keeps: "has_item sid ty ext its \<Longrightarrow> has_item sid ty ext (copy_items env target rows its)"
  unfolding copy_items_def by (induction rows arbitrary: its) (auto simp: has_item_insert)

lemma copy_items_has: "it \<in> set rows \<Longrightarrow> has_item target (it_type it) (it_external_id it) (copy_items env target rows its)"
proof (induction rows arbitrary: its)
  case (Cons r rows)
  let ?r = "r\<lparr>it_id := re_new_id env target (it_id r), it_snapshot_id := target\<rparr>"
  have step: "copy_items env target (r # rows) its = copy_items env target rows (insert_item ?r its)" by (simp add: copy_items_def)
  show ?case
  proof (cases "it = r")
    case True
    then show ?thesis unfolding step using copy_items_keeps [OF has_item_insert(2) [of ?r]] by simp
  next
    case False
    with Cons show ?thesis unfolding step by simp
  qed
qed simp

text \<open>
  C13. Handing a chain root over is well typed exactly when the chain allows it. On a snapshot table that
  satisfies the reuse and overlay triggers, \<open>_rehydrate_reuse_heir\<close> for a doomed root with a surviving
  COMPLETED descendant succeeds if and only if every other snapshot that reuses the doomed root directly,
  doomed itself or not, started after the chosen heir: the first one that did not makes the trigger raise.
  When it succeeds the table satisfies the triggers again, nothing is rooted at the doomed row any more, and
  the heir owns a row for every item of the doomed snapshot.
\<close>

theorem reuse_heir_well_typed:
  assumes typed: "reuse_typed (rt_snapshots st)" and d: "distinct (ids (rt_snapshots st))"
    and did: "did \<in> set (ids (rt_snapshots st))" and h: "reuse_heir did doomed (rt_snapshots st) = Some h"
  shows "((\<exists>r. rehydrate_reuse_heir env did doomed st = Inr r) \<longleftrightarrow>
      (\<forall>s \<in> set (rt_snapshots st). sn_reuse_of s = Some did \<and> sn_reuse_root s = Some did \<and> w_id s \<noteq> w_id h \<longrightarrow>
         sql_less (coalesce_ts h) (coalesce_ts s))) \<and>
    (\<forall>heir st'. rehydrate_reuse_heir env did doomed st = Inr (heir, st') \<longrightarrow>
       heir = Some (w_id h) \<and> reuse_typed (rt_snapshots st') \<and>
       (\<forall>s \<in> set (rt_snapshots st'). sn_reuse_root s \<noteq> Some did) \<and>
       (\<forall>it \<in> set (rt_items st). it_snapshot_id it = did \<longrightarrow> has_item (w_id h) (it_type it) (it_external_id it) (rt_items st')))"
proof -
  let ?ss = "rt_snapshots st" and ?f = "repoint_row did (w_id h)"
  let ?p = "\<lambda>s. sn_reuse_root s = Some did \<and> w_id s \<noteq> w_id h"
  obtain st1 where st1: "promote_heir env did (w_id h) (heir_takes env did (w_id h) st) = Inr st1"
    and R: "promoted h ?ss (rt_snapshots (restate_counts (w_id h) st1))"
    and its1: "rt_items st1 = rt_items (heir_takes env did (w_id h) st)"
    using promote_heir_Inr [OF typed d did h] by metis
  let ?st2 = "restate_counts (w_id h) st1"
  have run: "rehydrate_reuse_heir env did doomed st
      = bindE (update_checked reuse_triggers ?p ?f [] (rt_snapshots ?st2)) (\<lambda>ss. Inr (Some (w_id h), put_snapshots ss ?st2))"
    by (simp add: rehydrate_reuse_heir_def h st1 repoint_siblings_def bindE_assoc)
  note iff = repoint_iff [OF typed d h R]
  have items: "rt_items ?st2 = copy_items env (w_id h) (filter (\<lambda>it. it_snapshot_id it = did) (rt_items st)) (rt_items st)"
    by (simp add: restate_counts_def its1 heir_takes_def Let_def) (simp add: rt_items_def put_items_def)
  have after: "heir = Some (w_id h) \<and> reuse_typed (rt_snapshots st') \<and> (\<forall>s \<in> set (rt_snapshots st'). sn_reuse_root s \<noteq> Some did) \<and>
      (\<forall>it \<in> set (rt_items st). it_snapshot_id it = did \<longrightarrow> has_item (w_id h) (it_type it) (it_external_id it) (rt_items st'))"
    if ok: "rehydrate_reuse_heir env did doomed st = Inr (heir, st')" for heir st'
  proof -
    obtain ss2 where ss2: "update_checked reuse_triggers ?p ?f [] (rt_snapshots ?st2) = Inr ss2"
      and st': "heir = Some (w_id h)" "st' = put_snapshots ss2 ?st2" using ok unfolding run by auto
    have N: "ss2 = sql_update ?p ?f (rt_snapshots ?st2)" using update_checked_Inr [OF ss2] by simp
    have "reuse_typed ss2" unfolding N using repoint_typed [OF typed d h R] iff ss2 by blast
    moreover have "\<forall>s \<in> set ss2. sn_reuse_root s \<noteq> Some did" unfolding N by (rule repoint_unrooted [OF R reuse_heirD(3) [OF h]])
    ultimately show ?thesis using st' by (auto simp: items intro: copy_items_has)
  qed
  have "(\<exists>r. rehydrate_reuse_heir env did doomed st = Inr r) \<longleftrightarrow> (\<exists>ss2. update_checked reuse_triggers ?p ?f [] (rt_snapshots ?st2) = Inr ss2)"
    unfolding run by auto
  with iff after show ?thesis by blast
qed

text \<open>
  A root at day 1 reused at days 3 and 5. With only the root doomed the day 3 pointer inherits; with the day 3
  pointer doomed too the day 5 one is chosen, and repointing the day 3 row raises.
\<close>

definition sample_pointer :: "string \<Rightarrow> int \<Rightarrow> snap_row" where
  "sample_pointer sid day = (sample_point sid day S_COMPLETED 0)\<lparr>sn_reuse_of := Some ''a'', sn_reuse_root := Some ''a''\<rparr>"

definition sample_chain :: ret_state where
  "sample_chain = sample_ret [sample_point ''a'' 1 S_COMPLETED 9, sample_pointer ''b'' 3, sample_pointer ''c'' 5] []"

lemma sample_chain_facts:
  "reuse_typed (rt_snapshots sample_chain)" "distinct (ids (rt_snapshots sample_chain))"
  "''a'' \<in> set (ids (rt_snapshots sample_chain))"
  "reuse_heir ''a'' {''a''} (rt_snapshots sample_chain) = Some (sample_pointer ''b'' 3)"
  "reuse_heir ''a'' {''a'', ''b''} (rt_snapshots sample_chain) = Some (sample_pointer ''c'' 5)"
  "rt_snapshots sample_chain = [sample_point ''a'' 1 S_COMPLETED 9, sample_pointer ''b'' 3, sample_pointer ''c'' 5]"
proof -
  have ss: "rt_snapshots sample_chain = [sample_point ''a'' 1 S_COMPLETED 9, sample_pointer ''b'' 3, sample_pointer ''c'' 5]"
    by (simp add: sample_chain_def sample_ret_def rt_snapshots_def)
  then show "rt_snapshots sample_chain = [sample_point ''a'' 1 S_COMPLETED 9, sample_pointer ''b'' 3, sample_pointer ''c'' 5]" .
  show "reuse_typed (rt_snapshots sample_chain)" "distinct (ids (rt_snapshots sample_chain))"
    "''a'' \<in> set (ids (rt_snapshots sample_chain))"
    "reuse_heir ''a'' {''a''} (rt_snapshots sample_chain) = Some (sample_pointer ''b'' 3)"
    "reuse_heir ''a'' {''a'', ''b''} (rt_snapshots sample_chain) = Some (sample_pointer ''c'' 5)"
    unfolding ss using DAY_pos
    by (simp_all add: reuse_typed_def reuse_triggers_iff parent_ok_def root_ok_def reuse_heir_def order_ts_def coalesce_ts_def
        sql_less_def sample_pointer_def sample_point_def ids_def)
qed

theorem reuse_heir_well_typed_witness:
  "(\<exists>heir st'. rehydrate_reuse_heir sample_ret_env ''a'' {''a''} sample_chain = Inr (heir, st') \<and> heir = Some ''b'' \<and>
      reuse_typed (rt_snapshots st')) \<and>
   (\<forall>r. rehydrate_reuse_heir sample_ret_env ''a'' {''a'', ''b''} sample_chain \<noteq> Inr r)"
proof -
  have ids: "w_id (sample_pointer i n) = i" "w_id (sample_point i n s m) = i" "sn_reuse_root (sample_pointer i n) = Some ''a''"
    "sn_reuse_of (sample_pointer i n) = Some ''a''" "sn_reuse_root (sample_point i n s m) = None"
    "coalesce_ts (sample_pointer i n) = Some (n * DAY)" for i n s m
    by (simp_all add: sample_pointer_def sample_point_def coalesce_ts_def)
  note one = reuse_heir_well_typed [OF sample_chain_facts(1-4), of sample_ret_env]
  note two = reuse_heir_well_typed [OF sample_chain_facts(1-3,5), of sample_ret_env]
  have "\<exists>r. rehydrate_reuse_heir sample_ret_env ''a'' {''a''} sample_chain = Inr r"
    using one DAY_pos by (auto simp: sample_chain_facts(6) ids sql_less_def)
  then obtain heir st' where run: "rehydrate_reuse_heir sample_ret_env ''a'' {''a''} sample_chain = Inr (heir, st')" by auto
  moreover have "heir = Some ''b''" "reuse_typed (rt_snapshots st')" using one run by (simp_all add: ids)
  moreover have "\<forall>r. rehydrate_reuse_heir sample_ret_env ''a'' {''a'', ''b''} sample_chain \<noteq> Inr r"
    using two DAY_pos by (auto simp: sample_chain_facts(6) ids sql_less_def)
  ultimately show ?thesis by blast
qed

end
