(* ===== verification/Retention_View.thy ===== *)
theory Retention_View
  imports Retention_Sweep
begin

text \<open>
  What a restore reads while retention deletes (\<open>fetch_snapshot_items\<close> of
  \<open>workers/restore-worker/main.py\<close>): the union of the restore point with every earlier snapshot of the resource,
  the newest row of an external id winning. Snapshots of the sparse types hold only what changed, so a delete
  must not take a row that is still current; the theory shows that folding does not.
\<close>

section \<open>The union a restore reads\<close>

text \<open>\<open>_SIBLING_EXCLUDED_STATES\<close>\<close>

definition SIBLING_EXCLUDED_STATES :: "snapshot_status list" where
  "SIBLING_EXCLUDED_STATES = [S_FAILED, S_PENDING_DELETION]"

definition sql_le :: "utc option \<Rightarrow> utc option \<Rightarrow> bool" where
  "sql_le a b = (case (a, b) of (Some x, Some y) \<Rightarrow> x \<le> y | _ \<Rightarrow> False)"

definition sibling_ids :: "ret_state \<Rightarrow> snap_row \<Rightarrow> string list" where
  "sibling_ids st picked =
     map w_id (filter (\<lambda>s. sn_resource_id s = sn_resource_id picked \<and> sql_le (sn_created_at s) (sn_created_at picked) \<and>
                 w_status s \<notin> set SIBLING_EXCLUDED_STATES) (rt_snapshots st))"

text \<open>\<open>Snapshot.created_at\<close> of the row an item is joined to\<close>

definition created_of :: "ret_state \<Rightarrow> string \<Rightarrow> utc" where
  "created_of st sid = (case row_of sid (rt_snapshots st) of None \<Rightarrow> 0 | Some s \<Rightarrow> fst (created_key s))"

definition rows_of :: "string \<Rightarrow> item_row list \<Rightarrow> item_row list" where
  "rows_of ext its = filter (\<lambda>it. it_external_id it = ext) its"

text \<open>\<open>DISTINCT ON (external_id) ... ORDER BY external_id, created_at DESC\<close>, for one external id\<close>

definition newest_row :: "ret_state \<Rightarrow> string list \<Rightarrow> string \<Rightarrow> item_row option" where
  "newest_row st sids ext =
     (case sort_key (\<lambda>it. - created_of st (it_snapshot_id it)) (filter (\<lambda>it. it_snapshot_id it \<in> set sids) (rows_of ext (rt_items st))) of
        [] \<Rightarrow> None | x # _ \<Rightarrow> Some x)"

definition restore_row :: "ret_state \<Rightarrow> snap_row \<Rightarrow> string \<Rightarrow> item_row option" where
  "restore_row st picked ext =
     newest_row st (let sids = sibling_ids st picked in if sids = [] then [w_id picked] else sids) ext"

text \<open>The captured row, wherever it is filed.\<close>

definition unfiled :: "item_row \<Rightarrow> item_row" where
  "unfiled it = it\<lparr>it_snapshot_id := []\<rparr>"

section \<open>The winner of an external id\<close>

definition is_top :: "(string \<Rightarrow> utc) \<Rightarrow> string set \<Rightarrow> item_row list \<Rightarrow> item_row \<Rightarrow> bool" where
  "is_top C S rows v \<longleftrightarrow> (\<exists>x \<in> set rows. it_snapshot_id x \<in> S \<and> unfiled x = v \<and>
     (\<forall>y \<in> set rows. it_snapshot_id y \<in> S \<longrightarrow> C (it_snapshot_id y) \<le> C (it_snapshot_id x)))"

definition filed_once :: "item_row list \<Rightarrow> bool" where
  "filed_once rows \<longleftrightarrow> (\<forall>x \<in> set rows. \<forall>y \<in> set rows. it_snapshot_id x = it_snapshot_id y \<longrightarrow> x = y)"

lemma head_is_least:
  fixes key :: "'a \<Rightarrow> 'k :: linorder"
  shows "sort_key key xs = x # t \<Longrightarrow> x \<in> set xs \<and> (\<forall>y \<in> set xs. key x \<le> key y)"
proof -
  assume e: "sort_key key xs = x # t"
  have "sorted (map key (x # t))" using sorted_sort_key [of key xs] unfolding e .
  moreover have "set xs = insert x (set t)" using arg_cong [OF e, of set] by simp
  ultimately show ?thesis by auto
qed

lemma sort_key_Nil_iff [simp]: "sort_key key xs = [] \<longleftrightarrow> xs = []"
  by (metis length_0_conv length_sort)

lemma newest_row_top:
  "newest_row st sids ext = Some x \<Longrightarrow> is_top (created_of st) (set sids) (rows_of ext (rt_items st)) (unfiled x)"
  "newest_row st sids ext = None \<Longrightarrow> \<forall>y \<in> set (rows_of ext (rt_items st)). it_snapshot_id y \<notin> set sids"
proof -
  let ?rows = "rows_of ext (rt_items st)"
  assume "newest_row st sids ext = Some x"
  then obtain t where "sort_key (\<lambda>it. - created_of st (it_snapshot_id it)) (filter (\<lambda>it. it_snapshot_id it \<in> set sids) ?rows) = x # t"
    by (auto simp: newest_row_def split: list.splits)
  from head_is_least [OF this] show "is_top (created_of st) (set sids) ?rows (unfiled x)" by (auto simp: is_top_def)
next
  assume "newest_row st sids ext = None"
  then show "\<forall>y \<in> set (rows_of ext (rt_items st)). it_snapshot_id y \<notin> set sids"
    by (auto simp: newest_row_def filter_empty_conv split: list.splits)
qed

lemma is_top_unique:
  assumes "is_top C S rows v" "is_top C S rows v'" "inj_on C S" "filed_once rows"
  shows "v = v'"
proof -
  obtain x y where "x \<in> set rows" "it_snapshot_id x \<in> S" "unfiled x = v" "y \<in> set rows" "it_snapshot_id y \<in> S" "unfiled y = v'"
    "C (it_snapshot_id x) = C (it_snapshot_id y)"
    using assms(1,2) unfolding is_top_def by (meson order_antisym)
  with assms(3,4) show ?thesis unfolding filed_once_def inj_on_def by metis
qed

section \<open>One row moves\<close>

text \<open>A fold of \<open>d\<close> into \<open>k\<close> through the window \<open>w\<close>, as the snapshots \<open>S\<close> that a restore unites see it.\<close>

definition fold_seen :: "(string \<Rightarrow> utc) \<Rightarrow> string set \<Rightarrow> string \<Rightarrow> string \<Rightarrow> string list \<Rightarrow> bool" where
  "fold_seen C S d k w \<longleftrightarrow> (d \<in> S \<longleftrightarrow> k \<in> S) \<and> C d < C k \<and> k \<in> set w \<and> d \<notin> set w \<and>
     (d \<in> S \<longrightarrow> set w = {j \<in> S. C d < C j \<and> C j \<le> C k})"

lemma set_fold_one:
  assumes "x \<in> set rows" "distinct (map it_id rows)"
  shows "set (fold_batch k w [x] rows) = set rows - {x} \<union> (if superseded w rows x then {} else {x\<lparr>it_snapshot_id := k\<rparr>})"
proof -
  have "it_id y = it_id x \<longleftrightarrow> y = x" if "y \<in> set rows" for y
    using assms that by (metis distinct_map inj_on_def)
  then show ?thesis using assms(1) by (auto simp: fold_batch_def Let_def)
qed

lemma fold_one_top:
  assumes seen: "fold_seen C S d k w" and inj: "inj_on C S" and x: "x \<in> set rows" "it_snapshot_id x = d"
    and one: "\<forall>y \<in> set rows. it_external_id y = it_external_id x" and d: "distinct (map it_id rows)" and f: "filed_once rows"
  shows "is_top C S rows v \<Longrightarrow> is_top C S (fold_batch k w [x] rows) v"
    "\<forall>y \<in> set rows. it_snapshot_id y \<notin> S \<Longrightarrow> \<forall>y \<in> set (fold_batch k w [x] rows). it_snapshot_id y \<notin> S"
proof -
  let ?x = "x\<lparr>it_snapshot_id := k\<rparr>" and ?sup = "superseded w rows x"
  note rows' = set_fold_one [OF x(1) d, of k w]
  have sup: "?sup \<longleftrightarrow> (\<exists>y \<in> set rows. it_snapshot_id y \<in> set w)" using one by (auto simp: superseded_def)
  show "\<forall>y \<in> set (fold_batch k w [x] rows). it_snapshot_id y \<notin> S" if "\<forall>y \<in> set rows. it_snapshot_id y \<notin> S"
    using that seen x unfolding rows' fold_seen_def by (auto split: if_splits)
  assume "is_top C S rows v"
  then obtain z where z: "z \<in> set rows" "it_snapshot_id z \<in> S" "unfiled z = v"
    and top: "\<And>y. y \<in> set rows \<Longrightarrow> it_snapshot_id y \<in> S \<Longrightarrow> C (it_snapshot_id y) \<le> C (it_snapshot_id z)"
    by (auto simp: is_top_def)
  show "is_top C S (fold_batch k w [x] rows) v"
  proof (cases "z = x")
    case True
    then have dS: "d \<in> S" "k \<in> S" using z x seen by (auto simp: fold_seen_def)
    have w: "set w = {j \<in> S. C d < C j \<and> C j \<le> C k}" using seen dS(1) by (simp add: fold_seen_def)
    have "\<not> ?sup" unfolding sup w using top True x(2) by force
    moreover have "C (it_snapshot_id y) \<le> C k" if "y \<in> set rows" "it_snapshot_id y \<in> S" for y
      using top [OF that] True x(2) seen by (auto simp: fold_seen_def)
    ultimately show ?thesis
      unfolding is_top_def rows' using dS z(3) True by (intro bexI [of _ ?x]) (auto simp: unfiled_def)
  next
    case False
    have "C k \<le> C (it_snapshot_id z)" if "\<not> ?sup" "k \<in> S"
    proof (rule ccontr)
      assume less: "\<not> C k \<le> C (it_snapshot_id z)"
      have dS: "d \<in> S" using that seen by (simp add: fold_seen_def)
      have w: "set w = {j \<in> S. C d < C j \<and> C j \<le> C k}" using seen dS by (simp add: fold_seen_def)
      have "it_snapshot_id z \<noteq> d" using f False x z(1) unfolding filed_once_def by metis
      then have "C (it_snapshot_id z) \<noteq> C d" using inj z(2) dS by (auto dest: inj_onD)
      moreover have "C d \<le> C (it_snapshot_id z)" using top [OF x(1)] x(2) dS by simp
      ultimately have "it_snapshot_id z \<in> set w" unfolding w using z(2) less by simp
      then show False using that(1) z(1) unfolding sup by blast
    qed
    then show ?thesis unfolding is_top_def rows' using z top False by (intro bexI [of _ z]) auto
  qed
qed

lemma fold_one_keeps:
  assumes x: "x \<in> set rows" and d: "distinct (map it_id rows)" and f: "filed_once rows" and k: "k \<in> set w"
    and one: "\<forall>y \<in> set rows. it_external_id y = it_external_id x"
  shows "filed_once (fold_batch k w [x] rows)" "distinct (map it_id (fold_batch k w [x] rows))"
    "\<forall>y \<in> set (fold_batch k w [x] rows). it_external_id y = it_external_id x"
proof -
  note rows' = set_fold_one [OF x d, of k w]
  show "filed_once (fold_batch k w [x] rows)"
    using f k one unfolding filed_once_def rows' by (auto simp: superseded_def)
  show "\<forall>y \<in> set (fold_batch k w [x] rows). it_external_id y = it_external_id x" using one unfolding rows' by auto
  have "map it_id (fold_batch k w [x] rows) = map it_id (filter (\<lambda>it. it_id it = it_id x \<longrightarrow> \<not> superseded w rows it) rows)"
    by (simp add: fold_batch_def Let_def)
  then show "distinct (map it_id (fold_batch k w [x] rows))" using d by (simp add: distinct_map_filter)
qed

section \<open>The batches of a fold\<close>

lemma fold_batch_ids: "distinct (map it_id its) \<Longrightarrow> distinct (map it_id (fold_batch k w batch its))"
proof -
  have "map it_id (fold_batch k w batch its)
      = map it_id (filter (\<lambda>it. it_id it \<in> set (map it_id batch) \<longrightarrow> \<not> superseded w its it) its)"
    by (simp add: fold_batch_def Let_def)
  then show "distinct (map it_id its) \<Longrightarrow> ?thesis" by (simp add: distinct_map_filter)
qed

lemma rows_of_fold_batch:
  assumes d: "distinct (map it_id its)" and b: "set batch \<subseteq> set its"
    and one: "\<And>x y. x \<in> set batch \<Longrightarrow> y \<in> set batch \<Longrightarrow> it_external_id x = ext \<Longrightarrow> it_external_id y = ext \<Longrightarrow> x = y"
  shows "rows_of ext (fold_batch k w batch its) =
    (case find (\<lambda>it. it_external_id it = ext) batch of None \<Rightarrow> rows_of ext its | Some x \<Rightarrow> fold_batch k w [x] (rows_of ext its))"
proof -
  have mem: "it_id it \<in> it_id ` set batch \<longleftrightarrow> it \<in> set batch" if "it \<in> set its" for it
    using d b that unfolding distinct_map inj_on_def by blast
  have sup: "superseded w its it \<longleftrightarrow> superseded w (rows_of ext its) it" if "it_external_id it = ext" for it
    using that by (auto simp: superseded_def rows_of_def)
  have comm: "rows_of ext (fold_batch k w batch its) =
      map (\<lambda>it. if it \<in> set batch then it\<lparr>it_snapshot_id := k\<rparr> else it)
        (filter (\<lambda>it. it \<in> set batch \<longrightarrow> \<not> superseded w (rows_of ext its) it) (rows_of ext its))"
  proof -
    let ?moved = "\<lambda>it. if it_id it \<in> set (map it_id batch) then it\<lparr>it_snapshot_id := k\<rparr> else it"
    have "rows_of ext (fold_batch k w batch its) = map ?moved (rows_of ext
        (filter (\<lambda>it. it_id it \<in> set (map it_id batch) \<longrightarrow> \<not> superseded w its it) its))"
      unfolding fold_batch_def Let_def rows_of_def filter_map by (simp add: o_def if_distrib cong: if_cong)
    also have "rows_of ext (filter (\<lambda>it. it_id it \<in> set (map it_id batch) \<longrightarrow> \<not> superseded w its it) its) =
        filter (\<lambda>it. it \<in> set batch \<longrightarrow> \<not> superseded w (rows_of ext its) it) (rows_of ext its)"
      unfolding rows_of_def [of ext its] unfolding rows_of_def [of ext "filter P its" for P] filter_filter
    proof (rule filter_cong [OF refl])
      fix it assume "it \<in> set its"
      then show "((it_id it \<in> set (map it_id batch) \<longrightarrow> \<not> superseded w its it) \<and> it_external_id it = ext) =
          (it_external_id it = ext \<and> (it \<in> set batch \<longrightarrow> \<not> superseded w (filter (\<lambda>it. it_external_id it = ext) its) it))"
        using mem [of it] sup [of it] by (auto simp: rows_of_def)
    qed
    finally show ?thesis using mem by (auto simp: rows_of_def intro!: map_cong)
  qed
  show ?thesis
  proof (cases "find (\<lambda>it. it_external_id it = ext) batch")
    case None
    then have no: "it \<notin> set batch" if "it \<in> set (rows_of ext its)" for it using that by (auto simp: find_None_iff rows_of_def)
    have "filter (\<lambda>it. it \<in> set batch \<longrightarrow> \<not> superseded w (rows_of ext its) it) (rows_of ext its) = rows_of ext its"
      using no by (simp add: filter_id_conv)
    with None no show ?thesis unfolding comm by (simp add: map_idI)
  next
    case (Some x)
    then have x: "x \<in> set batch" "it_external_id x = ext" by (auto simp: find_Some_iff)
    have is_x: "it \<in> set batch \<longleftrightarrow> it_id it = it_id x" if "it \<in> set (rows_of ext its)" for it
    proof -
      have "it \<in> set batch \<longleftrightarrow> it = x" using that one x by (auto simp: rows_of_def)
      also have "\<dots> \<longleftrightarrow> it_id it = it_id x" using that x b d unfolding distinct_map inj_on_def rows_of_def by auto
      finally show ?thesis .
    qed
    have "fold_batch k w [x] (rows_of ext its) = map (\<lambda>it. if it \<in> set batch then it\<lparr>it_snapshot_id := k\<rparr> else it)
        (filter (\<lambda>it. it \<in> set batch \<longrightarrow> \<not> superseded w (rows_of ext its) it) (rows_of ext its))"
      unfolding fold_batch_def Let_def by (rule map_cong) (auto intro!: filter_cong simp: is_x)
    with Some show ?thesis unfolding comm by simp
  qed
qed

lemma fold_batch_leaves: "it \<in> set its \<Longrightarrow> it_id it \<notin> it_id ` set batch \<Longrightarrow> it \<in> set (fold_batch k w batch its)"
  by (force simp: fold_batch_def Let_def image_iff)

lemma rows_of_fold_batches:
  assumes "distinct (map it_id its)" "set rest \<subseteq> set its" "distinct (map it_id rest)"
    "\<And>x y. x \<in> set rest \<Longrightarrow> y \<in> set rest \<Longrightarrow> it_external_id x = ext \<Longrightarrow> it_external_id y = ext \<Longrightarrow> x = y"
  shows "rows_of ext (fst (fold_batches k w rest (its, n, b))) =
      (case find (\<lambda>it. it_external_id it = ext) rest of None \<Rightarrow> rows_of ext its | Some x \<Rightarrow> fold_batch k w [x] (rows_of ext its))
    \<and> distinct (map it_id (fst (fold_batches k w rest (its, n, b))))"
  using assms
proof (induction "length rest" arbitrary: rest its n b rule: less_induct)
  case less
  let ?b = "take FOLD_BATCH rest" and ?r = "drop FOLD_BATCH rest"
  have split: "rest = ?b @ ?r" by simp
  have b: "rows_of ext (fold_batch k w ?b its) =
      (case find (\<lambda>it. it_external_id it = ext) ?b of None \<Rightarrow> rows_of ext its | Some x \<Rightarrow> fold_batch k w [x] (rows_of ext its))"
    using less.prems by (intro rows_of_fold_batch) (auto dest: in_set_takeD)
  note ids = fold_batch_ids [OF less.prems(1), of k w ?b]
  show ?case
  proof (cases "length ?b < FOLD_BATCH")
    case True
    then have "?b = rest" by simp
    with b ids True show ?thesis by (subst (1 2) fold_batches.simps) (simp add: Let_def)
  next
    case False
    then have shorter: "length ?r < length rest" by (simp add: FOLD_BATCH_def)
    have dr: "distinct (map it_id ?b @ map it_id ?r)" using less.prems(3) split by (metis map_append)
    have rest': "set ?r \<subseteq> set (fold_batch k w ?b its)"
      using less.prems(2) dr by (auto intro!: fold_batch_leaves dest: in_set_dropD)
    obtain n' b' where step: "fold_batches k w rest (its, n, b) = fold_batches k w ?r (fold_batch k w ?b its, n', b')"
      using False fold_batches.simps [of k w rest "(its, n, b)"] by (auto simp: Let_def)
    have IH: "rows_of ext (fst (fold_batches k w ?r (fold_batch k w ?b its, n', b'))) =
        (case find (\<lambda>it. it_external_id it = ext) ?r of None \<Rightarrow> rows_of ext (fold_batch k w ?b its)
         | Some x \<Rightarrow> fold_batch k w [x] (rows_of ext (fold_batch k w ?b its)))
      \<and> distinct (map it_id (fst (fold_batches k w ?r (fold_batch k w ?b its, n', b'))))"
      using less.prems(4) dr by (intro less.hyps [OF shorter ids rest']) (auto dest: in_set_dropD)
    have one: "find (\<lambda>it. it_external_id it = ext) ?r = None" if "find (\<lambda>it. it_external_id it = ext) ?b = Some x" for x
    proof -
      have "x \<in> set ?b" "it_external_id x = ext" using find_SomeD [OF that] by auto
      then show ?thesis using less.prems(4) dr unfolding find_None_iff
        by (metis (no_types, lifting) distinct_append disjoint_iff image_eqI in_set_dropD in_set_takeD list.set_map)
    qed
    have "find (\<lambda>it. it_external_id it = ext) rest = (case find (\<lambda>it. it_external_id it = ext) ?b of
        None \<Rightarrow> find (\<lambda>it. it_external_id it = ext) ?r | Some x \<Rightarrow> Some x)"
      using find_app [of "\<lambda>it. it_external_id it = ext" ?b ?r] by simp
    with IH b one show ?thesis unfolding step by (auto split: option.splits)
  qed
qed

section \<open>Folding one snapshot\<close>

definition fold_ready :: "string set \<Rightarrow> string \<Rightarrow> item_row list \<Rightarrow> bool" where
  "fold_ready D ext its \<longleftrightarrow> distinct (map it_id its) \<and> filed_once (rows_of ext its) \<and>
     (\<forall>it \<in> set (rows_of ext its). it_snapshot_id it \<in> D \<longrightarrow> it_type it \<in> set SPARSE_ITEM_TYPES)"

lemma in_rows_of [simp]: "it \<in> set (rows_of ext its) \<longleftrightarrow> it \<in> set its \<and> it_external_id it = ext"
  by (auto simp: rows_of_def)

lemma distinct_rows_of: "distinct (map it_id its) \<Longrightarrow> distinct (map it_id (rows_of ext its))"
  by (simp add: rows_of_def distinct_map_filter)

lemma fold_sparse_cases:
  assumes ready: "fold_ready D ext (rt_items st)" and d: "d \<in> D"
  obtains (none) "\<forall>y \<in> set (rows_of ext (rt_items st)). it_snapshot_id y \<noteq> d"
      "rows_of ext (rt_items (fold_sparse_rows d k w st)) = rows_of ext (rt_items st)"
      "distinct (map it_id (rt_items (fold_sparse_rows d k w st)))"
    | (one) x where "x \<in> set (rows_of ext (rt_items st))" "it_snapshot_id x = d"
      "rows_of ext (rt_items (fold_sparse_rows d k w st)) = fold_batch k w [x] (rows_of ext (rt_items st))"
      "distinct (map it_id (rt_items (fold_sparse_rows d k w st)))"
proof -
  let ?its = "rt_items st"
  let ?rest = "filter (sparse_of d) ?its"
  have "x = y" if "x \<in> set ?rest" "y \<in> set ?rest" "it_external_id x = ext" "it_external_id y = ext" for x y
    using ready that by (auto simp: fold_ready_def filed_once_def sparse_of_def)
  then have f: "rows_of ext (fst (fold_batches k w ?rest (?its, 0, 0))) =
      (case find (\<lambda>it. it_external_id it = ext) ?rest of None \<Rightarrow> rows_of ext ?its | Some x \<Rightarrow> fold_batch k w [x] (rows_of ext ?its))
    \<and> distinct (map it_id (fst (fold_batches k w ?rest (?its, 0, 0))))"
    using ready by (intro rows_of_fold_batches) (auto simp: fold_ready_def distinct_map_filter)
  have its': "rt_items (fold_sparse_rows d k w st) = fst (fold_batches k w ?rest (?its, 0, 0))"
    by (simp add: fold_sparse_rows_def split: prod.splits)
  have sparse: "x \<in> set ?rest \<longleftrightarrow> it_snapshot_id x = d" if "x \<in> set (rows_of ext ?its)" for x
    using ready d that by (auto simp: fold_ready_def sparse_of_def)
  show ?thesis
  proof (cases "find (\<lambda>it. it_external_id it = ext) ?rest")
    case None
    then have a: "\<forall>y \<in> set (rows_of ext ?its). it_snapshot_id y \<noteq> d"
      using sparse unfolding find_None_iff by (metis in_rows_of)
    have "rows_of ext (rt_items (fold_sparse_rows d k w st)) = rows_of ext ?its"
      "distinct (map it_id (rt_items (fold_sparse_rows d k w st)))" unfolding its' using f None by simp_all
    then show ?thesis by (rule none [OF a])
  next
    case (Some x)
    from find_SomeD [OF this] have "x \<in> set (rows_of ext ?its)" "it_snapshot_id x = d" by (auto simp: sparse_of_def)
    with Some f one show ?thesis unfolding its' by simp
  qed
qed

lemma fold_sparse_step:
  assumes ready: "fold_ready D ext (rt_items st)" and d: "d \<in> D" "k \<notin> D" and seen: "fold_seen C S d k w" and inj: "inj_on C S"
  defines "R \<equiv> rows_of ext (rt_items st)" and "R' \<equiv> rows_of ext (rt_items (fold_sparse_rows d k w st))"
  shows "fold_ready D ext (rt_items (fold_sparse_rows d k w st)) \<and>
    (\<forall>y \<in> set R'. it_snapshot_id y \<in> D \<longrightarrow> it_snapshot_id y \<noteq> d \<and> y \<in> set R) \<and>
    (is_top C S R v \<longrightarrow> is_top C S R' v) \<and>
    ((\<forall>y \<in> set R. it_snapshot_id y \<notin> S) \<longrightarrow> (\<forall>y \<in> set R'. it_snapshot_id y \<notin> S))"
  using ready d(1)
proof (cases rule: fold_sparse_cases [where k = k and w = w])
  case none
  then have "R' = R" by (simp add: R_def R'_def)
  with none ready show ?thesis by (auto simp: fold_ready_def R_def R'_def)
next
  case (one x)
  have R: "distinct (map it_id R)" "filed_once R" "x \<in> set R" "\<forall>y \<in> set R. it_external_id y = it_external_id x"
    "\<forall>it \<in> set R. it_snapshot_id it \<in> D \<longrightarrow> it_type it \<in> set SPARSE_ITEM_TYPES"
    using ready one(1) by (auto simp: R_def fold_ready_def distinct_rows_of)
  have R': "R' = fold_batch k w [x] R" using one(3) by (simp add: R_def R'_def)
  have k: "k \<in> set w" using seen by (simp add: fold_seen_def)
  note members = set_fold_one [OF R(3,1), of k w]
  have only: "y \<in> set R" "it_snapshot_id y \<noteq> d" if "y \<in> set R'" "it_snapshot_id y \<in> D" for y
  proof -
    show "y \<in> set R" using that d(2) unfolding R' members by (auto split: if_splits)
    have "x \<noteq> x\<lparr>it_snapshot_id := k\<rparr>"
    proof
      assume "x = x\<lparr>it_snapshot_id := k\<rparr>"
      from arg_cong [OF this, of it_snapshot_id] show False using d one(2) by simp
    qed
    then have "x \<notin> set R'" unfolding R' members by simp
    then show "it_snapshot_id y \<noteq> d" using \<open>y \<in> set R\<close> that(1) R(2,3) one(2) unfolding filed_once_def by blast
  qed
  have "filed_once R'" unfolding R' by (rule fold_one_keeps(1) [OF R(3,1,2) k R(4)])
  then have "fold_ready D ext (rt_items (fold_sparse_rows d k w st))"
    using one(4) only R(5) unfolding fold_ready_def R'_def [symmetric] by blast
  with only show ?thesis
    unfolding R' using fold_one_top [OF seen inj R(3) one(2) R(4,1,2)] by blast
qed

definition points :: "ret_state \<Rightarrow> (string \<times> string \<times> utc option \<times> snapshot_status) list" where
  "points st = map (\<lambda>s. (w_id s, sn_resource_id s, sn_created_at s, w_status s)) (rt_snapshots st)"

lemma points_update [simp]: "points (fold_sparse_rows d k w st) = points st" "points (flush pending st) = points st"
  by (auto simp: points_def fold_sparse_rows_def flush_def sql_update_def split: prod.splits option.splits)

lemma fold_all_views:
  assumes "fold_ready D ext (rt_items st)" "inj_on C S"
    "\<forall>(d, k, w) \<in> set folds. d \<in> D \<and> k \<notin> D \<and> fold_seen C S d k w"
  shows "fold_ready D ext (rt_items (fold_all folds st)) \<and> points (fold_all folds st) = points st \<and>
    (\<forall>y \<in> set (rows_of ext (rt_items (fold_all folds st))). it_snapshot_id y \<in> D \<longrightarrow>
       it_snapshot_id y \<notin> fst ` set folds \<and> y \<in> set (rows_of ext (rt_items st))) \<and>
    (is_top C S (rows_of ext (rt_items st)) v \<longrightarrow> is_top C S (rows_of ext (rt_items (fold_all folds st))) v) \<and>
    ((\<forall>y \<in> set (rows_of ext (rt_items st)). it_snapshot_id y \<notin> S) \<longrightarrow>
       (\<forall>y \<in> set (rows_of ext (rt_items (fold_all folds st))). it_snapshot_id y \<notin> S))"
  using assms
proof (induction folds arbitrary: st)
  case (Cons f folds)
  obtain d k w where f: "f = (d, k, w)" by (metis prod_cases3)
  let ?st = "fold_sparse_rows d k w st"
  have run: "fold_all (f # folds) st = fold_all folds ?st" by (simp add: fold_all_def f)
  have dk: "d \<in> D" "k \<notin> D" "fold_seen C S d k w" using Cons.prems(3) by (auto simp: f)
  note step = fold_sparse_step [OF Cons.prems(1) dk Cons.prems(2), of v]
  have "fold_ready D ext (rt_items ?st)" using step by blast
  moreover have "\<forall>(d, k, w) \<in> set folds. d \<in> D \<and> k \<notin> D \<and> fold_seen C S d k w" using Cons.prems(3) by simp
  ultimately have IH: "fold_ready D ext (rt_items (fold_all folds ?st)) \<and> points (fold_all folds ?st) = points ?st \<and>
    (\<forall>y \<in> set (rows_of ext (rt_items (fold_all folds ?st))). it_snapshot_id y \<in> D \<longrightarrow>
       it_snapshot_id y \<notin> fst ` set folds \<and> y \<in> set (rows_of ext (rt_items ?st))) \<and>
    (is_top C S (rows_of ext (rt_items ?st)) v \<longrightarrow> is_top C S (rows_of ext (rt_items (fold_all folds ?st))) v) \<and>
    ((\<forall>y \<in> set (rows_of ext (rt_items ?st)). it_snapshot_id y \<notin> S) \<longrightarrow>
       (\<forall>y \<in> set (rows_of ext (rt_items (fold_all folds ?st))). it_snapshot_id y \<notin> S))"
    using Cons.IH Cons.prems(2) by blast
  have heads: "fst ` set (f # folds) = insert d (fst ` set folds)" by (simp add: f)
  show ?case unfolding run heads using IH step points_update(1) by (metis (no_types, lifting) insert_iff)
qed (simp add: fold_all_def)

section \<open>Where the doomed rows go\<close>

abbreviation taken :: "snap_row \<Rightarrow> utc" where
  "taken s \<equiv> fst (created_key s)"

text \<open>A snapshot table whose points in time tell the united snapshots of a resource apart.\<close>

definition timed :: "snap_row list \<Rightarrow> bool" where
  "timed ss \<longleftrightarrow> distinct (ids ss) \<and> (\<forall>s \<in> set ss. sn_created_at s \<noteq> None) \<and>
     (\<forall>s \<in> set ss. \<forall>t \<in> set ss. in_union s \<and> in_union t \<and> sn_resource_id s = sn_resource_id t \<and> sn_created_at s = sn_created_at t \<longrightarrow> s = t)"

lemma timed_at: "timed ss \<Longrightarrow> s \<in> set ss \<Longrightarrow> sn_created_at s = Some (taken s)"
  unfolding timed_def created_key_def by (cases "sn_created_at s") auto

lemma timed_less: "timed ss \<Longrightarrow> s \<in> set ss \<Longrightarrow> t \<in> set ss \<Longrightarrow> sql_less (sn_created_at s) (sn_created_at t) \<longleftrightarrow> taken s < taken t"
  using timed_at [of ss s] timed_at [of ss t] by (simp add: sql_less_def)

lemma timed_le: "timed ss \<Longrightarrow> s \<in> set ss \<Longrightarrow> t \<in> set ss \<Longrightarrow> sql_le (sn_created_at s) (sn_created_at t) \<longleftrightarrow> taken s \<le> taken t"
  using timed_at [of ss s] timed_at [of ss t] by (simp add: sql_le_def)

lemma timed_eq:
  assumes "timed ss" "s \<in> set ss" "t \<in> set ss" "in_union s" "in_union t" "sn_resource_id s = sn_resource_id t" "taken s = taken t"
  shows "s = t"
proof -
  have "sn_created_at s = sn_created_at t" using assms(7) timed_at [OF assms(1,2)] timed_at [OF assms(1,3)] by simp
  with assms show ?thesis unfolding timed_def by blast
qed

definition later_than :: "snap_row \<Rightarrow> snap_row list \<Rightarrow> snap_row list" where
  "later_than d ss = filter (\<lambda>s. sn_resource_id s = sn_resource_id d \<and> sql_less (sn_created_at d) (sn_created_at s) \<and> in_union s) ss"

text \<open>The next united snapshot after \<open>d\<close> that is not doomed.\<close>

definition keeper_of :: "snap_row list \<Rightarrow> string set \<Rightarrow> snap_row \<Rightarrow> snap_row \<Rightarrow> bool" where
  "keeper_of ss doomed d k \<longleftrightarrow> k \<in> set (later_than d ss) \<and> w_id k \<notin> doomed \<and>
     (\<forall>j \<in> set (later_than d ss). taken j < taken k \<longrightarrow> w_id j \<in> doomed)"

lemma fold_into_keeper:
  assumes t: "timed (rt_snapshots st)" and f: "sparse_fold_target sid doomed st = Fold_into k w"
  obtains dr kr where "dr \<in> set (rt_snapshots st)" "w_id dr = sid" "in_union dr" "w_id kr = k" "restorable_status (w_status kr)"
    "keeper_of (rt_snapshots st) doomed dr kr" "w = map w_id (filter (\<lambda>s. \<not> sql_less (sn_created_at kr) (sn_created_at s)) (later_than dr (rt_snapshots st)))"
proof -
  let ?ss = "rt_snapshots st"
  obtain dr where dr: "find (\<lambda>d. w_id d = sid \<and> in_union d \<and> (\<exists>it \<in> set (rt_items st). sparse_of sid it)) ?ss = Some dr"
    using f by (auto simp: sparse_fold_target_def split: option.splits)
  let ?left = "filter (\<lambda>s. w_id s \<notin> doomed) (later_than dr ?ss)"
  obtain kr rest where kr: "sort_key created_key ?left = kr # rest" "restorable_status (w_status kr)" "w_id kr = k"
    "w = map w_id (filter (\<lambda>s. \<not> sql_less (sn_created_at kr) (sn_created_at s)) (later_than dr ?ss))"
    using f dr by (auto simp: sparse_fold_target_def later_than_def Let_def split: list.splits if_splits)
  note least = head_is_least [OF kr(1)]
  have "w_id j \<in> doomed" if "j \<in> set (later_than dr ?ss)" "taken j < taken kr" for j
  proof (rule ccontr)
    assume "w_id j \<notin> doomed"
    then have "created_key kr \<le> created_key j" using least that(1) by simp
    then show False using that(2) by (auto simp: less_eq_prod_def)
  qed
  with least have "keeper_of ?ss doomed dr kr" by (auto simp: keeper_of_def)
  with find_SomeD [OF dr] kr that show ?thesis by blast
qed

text \<open>A snapshot whose next kept restore point is restorable is never told to stay.\<close>

lemma must_stay_no_keeper:
  assumes t: "timed (rt_snapshots st)" and stay: "sparse_fold_target (w_id j) doomed st = Must_stay" and j: "j \<in> set (rt_snapshots st)"
    and k: "keeper_of (rt_snapshots st) doomed j k"
  shows "\<not> restorable_status (w_status k)"
proof -
  let ?ss = "rt_snapshots st"
  obtain dr where dr: "find (\<lambda>d. w_id d = w_id j \<and> in_union d \<and> (\<exists>it \<in> set (rt_items st). sparse_of (w_id j) it)) ?ss = Some dr"
    using stay by (auto simp: sparse_fold_target_def split: option.splits)
  have "dr = j" using find_SomeD [OF dr] j t same_id by (auto simp: timed_def)
  let ?left = "filter (\<lambda>s. w_id s \<notin> doomed) (later_than j ?ss)"
  have kl: "k \<in> set ?left" using k by (simp add: keeper_of_def)
  then have "?left \<noteq> []" by (metis empty_iff list.set(1))
  then have "sort_key created_key ?left \<noteq> []" by (simp only: sort_key_Nil_iff not_False_eq_True)
  then obtain h rest where h: "sort_key created_key ?left = h # rest" by (meson neq_Nil_conv)
  have nr: "\<not> restorable_status (w_status h)"
    using stay dr h \<open>dr = j\<close> by (auto simp: sparse_fold_target_def later_than_def Let_def split: if_splits)
  note least = head_is_least [OF h]
  have "taken h \<le> taken k" using least kl by (auto simp: less_eq_prod_def)
  moreover have "\<not> taken h < taken k" using least k by (auto simp: keeper_of_def)
  ultimately have "h = k" using least kl by (intro timed_eq [OF t]) (auto simp: later_than_def)
  with nr show ?thesis by simp
qed

text \<open>Between a doomed snapshot and the keeper of its rows, nothing leaves the doomed set later on.\<close>

lemma between_stays_doomed:
  assumes t: "timed (rt_snapshots st)" and run: "fold_targets st sids doomed = (folds, D)" and k: "k \<in> set (rt_snapshots st)" "in_union k"
      "w_id k \<notin> doomed" "restorable_status (w_status k)"
    and between: "\<forall>j \<in> set (rt_snapshots st). sn_resource_id j = sn_resource_id k \<and> in_union j \<and> lo < taken j \<and> taken j < taken k \<longrightarrow> w_id j \<in> doomed"
  shows "\<forall>j \<in> set (rt_snapshots st). sn_resource_id j = sn_resource_id k \<and> in_union j \<and> lo < taken j \<and> taken j < taken k \<longrightarrow> w_id j \<in> D"
  using run k(3) between
proof (induction sids arbitrary: doomed folds)
  case (Cons sid sids)
  show ?case
  proof (cases "sparse_fold_target sid doomed st")
    case Holds_none
    then show ?thesis using Cons.prems by (intro Cons.IH) auto
  next
    case Must_stay
    have "sid \<noteq> w_id j" if j: "j \<in> set (rt_snapshots st)" "sn_resource_id j = sn_resource_id k" "in_union j" "lo < taken j" "taken j < taken k" for j
    proof
      assume "sid = w_id j"
      have "keeper_of (rt_snapshots st) doomed j k"
        using j k Cons.prems(2,3) timed_less [OF t] by (auto simp: keeper_of_def later_than_def)
      then show False using must_stay_no_keeper [OF t] Must_stay \<open>sid = w_id j\<close> j(1) k(4) by blast
    qed
    then show ?thesis using Must_stay Cons.prems by (intro Cons.IH [of "doomed - {sid}"]) auto
  next
    case (Fold_into k' w')
    obtain folds' where "fold_targets st sids doomed = (folds', D)" using Cons.prems(1) Fold_into by (auto split: prod.splits)
    then show ?thesis using Cons.prems by (intro Cons.IH) auto
  qed
qed simp

lemma fold_targets_shrinks:
  "fold_targets st sids doomed = (folds, D) \<Longrightarrow> D \<subseteq> doomed \<and> doomed - set sids \<subseteq> D \<and> fst ` set folds \<subseteq> set sids"
  by (induction sids arbitrary: doomed folds) (fastforce split: fold_target.splits prod.splits)+

definition fold_ok :: "ret_state \<Rightarrow> string set \<Rightarrow> string \<times> string \<times> string list \<Rightarrow> bool" where
  "fold_ok st D f \<longleftrightarrow> (case f of (d, k, w) \<Rightarrow> d \<in> D \<and>
     (\<exists>dr kr. dr \<in> set (rt_snapshots st) \<and> w_id dr = d \<and> in_union dr \<and> w_id kr = k \<and> keeper_of (rt_snapshots st) D dr kr \<and>
        w = map w_id (filter (\<lambda>s. \<not> sql_less (sn_created_at kr) (sn_created_at s)) (later_than dr (rt_snapshots st)))))"

lemma fold_targets_ok:
  assumes "timed (rt_snapshots st)" "fold_targets st sids doomed = (folds, D)" "distinct sids" "set sids \<subseteq> doomed"
  shows "(\<forall>f \<in> set folds. fold_ok st D f) \<and>
    (\<forall>s \<in> set (rt_snapshots st). w_id s \<in> set sids \<inter> D \<and> in_union s \<and> (\<exists>it \<in> set (rt_items st). sparse_of (w_id s) it) \<longrightarrow> w_id s \<in> fst ` set folds)"
  using assms(2-4)
proof (induction sids arbitrary: doomed folds)
  case (Cons sid sids)
  have dist: "sid \<notin> set sids" "distinct sids" "set sids \<subseteq> doomed" "set sids \<subseteq> doomed - {sid}" using Cons.prems by auto
  show ?case
  proof (cases "sparse_fold_target sid doomed st")
    case Holds_none
    then have none: "\<not> (w_id s = sid \<and> in_union s \<and> (\<exists>it \<in> set (rt_items st). sparse_of sid it))" if "s \<in> set (rt_snapshots st)" for s
      using that by (auto simp: sparse_fold_target_def Let_def find_None_iff split: option.splits list.splits if_splits)
    have "fold_targets st sids doomed = (folds, D)" using Cons.prems(1) Holds_none by simp
    from Cons.IH [OF this dist(2,3)] none show ?thesis by auto
  next
    case Must_stay
    then have run: "fold_targets st sids (doomed - {sid}) = (folds, D)" using Cons.prems(1) by simp
    from Cons.IH [OF run dist(2,4)] fold_targets_shrinks [OF run] show ?thesis by auto
  next
    case (Fold_into k w)
    obtain folds' where run: "fold_targets st sids doomed = (folds', D)" and folds: "folds = (sid, k, w) # folds'"
      using Cons.prems(1) Fold_into by (auto split: prod.splits)
    obtain dr kr where dr: "dr \<in> set (rt_snapshots st)" "w_id dr = sid" "in_union dr" "w_id kr = k" "restorable_status (w_status kr)"
      and keep: "keeper_of (rt_snapshots st) doomed dr kr"
      and w: "w = map w_id (filter (\<lambda>s. \<not> sql_less (sn_created_at kr) (sn_created_at s)) (later_than dr (rt_snapshots st)))"
      using fold_into_keeper [OF assms(1) Fold_into] by metis
    note less = timed_less [OF assms(1)]
    have kr: "kr \<in> set (rt_snapshots st)" "in_union kr" "w_id kr \<notin> doomed" "sn_resource_id kr = sn_resource_id dr"
      and range: "\<forall>j \<in> set (rt_snapshots st). sn_resource_id j = sn_resource_id kr \<and> in_union j \<and> taken dr < taken j \<and> taken j < taken kr \<longrightarrow> w_id j \<in> doomed"
      using keep less dr(1) by (auto simp: keeper_of_def later_than_def)
    have "\<forall>j \<in> set (later_than dr (rt_snapshots st)). taken j < taken kr \<longrightarrow> w_id j \<in> D"
      using between_stays_doomed [OF assms(1) run kr(1-3) dr(5) range] less dr(1) kr(4) by (auto simp: later_than_def)
    moreover have "sid \<in> D" "w_id kr \<notin> D" using fold_targets_shrinks [OF run] Cons.prems(3) dist(1) kr(3) by auto
    ultimately have "fold_ok st D (sid, k, w)"
      using dr keep w unfolding fold_ok_def keeper_of_def by blast
    with Cons.IH [OF run dist(2,3)] show ?thesis by (auto simp: folds)
  qed
qed simp

lemma created_of_row: "timed (rt_snapshots st) \<Longrightarrow> s \<in> set (rt_snapshots st) \<Longrightarrow> created_of st (w_id s) = taken s"
proof -
  assume t: "timed (rt_snapshots st)" and s: "s \<in> set (rt_snapshots st)"
  obtain r where "row_of (w_id s) (rt_snapshots st) = Some r" using s
    by (cases "row_of (w_id s) (rt_snapshots st)") (auto simp: row_of_def find_None_iff)
  moreover from this have "r = s" using find_SomeD [of _ "rt_snapshots st" r] s t same_id by (auto simp: row_of_def timed_def)
  ultimately show ?thesis by (simp add: created_of_def)
qed

lemma set_sibling_ids:
  "set (sibling_ids st p) = w_id ` {s \<in> set (rt_snapshots st). sn_resource_id s = sn_resource_id p \<and>
     sql_le (sn_created_at s) (sn_created_at p) \<and> in_union s}"
  by (auto simp: sibling_ids_def SIBLING_EXCLUDED_STATES_def in_union_def)

lemma created_inj:
  assumes t: "timed (rt_snapshots st)"
  shows "inj_on (created_of st) (set (sibling_ids st p))"
  unfolding set_sibling_ids
  by (rule inj_onI) (clarsimp simp: created_of_row [OF t], metis timed_eq [OF t])

lemma fold_ok_seen:
  assumes t: "timed (rt_snapshots st)" and ok: "fold_ok st D (d, k, w)" and p: "p \<in> set (rt_snapshots st)" "in_union p" "w_id p \<notin> D"
  shows "d \<in> D \<and> k \<notin> D \<and> fold_seen (created_of st) (set (sibling_ids st p)) d k w"
proof -
  let ?ss = "rt_snapshots st" and ?S = "set (sibling_ids st p)"
  obtain dr kr where dr: "dr \<in> set ?ss" "w_id dr = d" "in_union dr" "d \<in> D" and keep: "w_id kr = k" "keeper_of ?ss D dr kr"
    and w: "w = map w_id (filter (\<lambda>s. \<not> sql_less (sn_created_at kr) (sn_created_at s)) (later_than dr ?ss))"
    using ok by (auto simp: fold_ok_def)
  note less = timed_less [OF t] and le = timed_le [OF t] and at = created_of_row [OF t]
  have kr: "kr \<in> set ?ss" "in_union kr" "sn_resource_id kr = sn_resource_id dr" "taken dr < taken kr" "k \<notin> D"
    and next_kept: "\<And>j. j \<in> set ?ss \<Longrightarrow> sn_resource_id j = sn_resource_id dr \<Longrightarrow> in_union j \<Longrightarrow> taken dr < taken j \<Longrightarrow> taken j < taken kr \<Longrightarrow> w_id j \<in> D"
    using keep less [OF dr(1)] by (auto simp: keeper_of_def later_than_def)
  have in_S: "w_id s \<in> ?S \<longleftrightarrow> sn_resource_id s = sn_resource_id p \<and> taken s \<le> taken p" if "s \<in> set ?ss" "in_union s" for s
  proof -
    have "w_id s \<in> ?S \<longleftrightarrow> s \<in> {s \<in> set ?ss. sn_resource_id s = sn_resource_id p \<and> sql_le (sn_created_at s) (sn_created_at p) \<and> in_union s}"
      unfolding set_sibling_ids using that(1) t same_id by (auto simp: timed_def)
    with that le [OF that(1) p(1)] show ?thesis by simp
  qed
  have "d \<in> ?S \<longleftrightarrow> k \<in> ?S"
  proof -
    have "taken kr \<le> taken p" if "sn_resource_id dr = sn_resource_id p" "taken dr \<le> taken p"
    proof -
      have "taken dr \<noteq> taken p" using timed_eq [OF t dr(1) p(1) dr(3) p(2) that(1)] dr p(3) by auto
      with that next_kept [OF p(1)] p(2,3) show ?thesis by force
    qed
    then show ?thesis using in_S [OF dr(1,3)] in_S [OF kr(1,2)] dr(2) keep(1) kr(3,4) by auto
  qed
  moreover have "set w = {j \<in> ?S. created_of st d < created_of st j \<and> created_of st j \<le> created_of st k}" if "d \<in> ?S"
  proof -
    have sub: "taken s \<le> taken kr \<Longrightarrow> taken s \<le> taken p" "sn_resource_id p = sn_resource_id dr" for s
      using that \<open>d \<in> ?S \<longleftrightarrow> k \<in> ?S\<close> in_S [OF dr(1,3)] in_S [OF kr(1,2)] dr(2) keep(1) by auto
    have "set w = w_id ` {s \<in> set ?ss. sn_resource_id s = sn_resource_id dr \<and> in_union s \<and> taken dr < taken s \<and> taken s \<le> taken kr}"
      unfolding w later_than_def using less [OF dr(1)] less [OF kr(1)] by auto
    also have "\<dots> = {j \<in> ?S. taken dr < created_of st j \<and> created_of st j \<le> taken kr}"
      using sub in_S at unfolding set_sibling_ids by (auto simp: le [OF _ p(1)])
    finally show ?thesis using at dr(1,2) kr(1) keep(1) by metis
  qed
  moreover have "k \<in> set w" using kr keep(1) less [OF dr(1) kr(1)] less [OF kr(1) kr(1)] unfolding w later_than_def by auto
  moreover have "d \<notin> set w"
    using dr(1,2) t same_id less [OF dr(1) dr(1)] unfolding w later_than_def by (auto simp: timed_def)
  moreover have "created_of st d < created_of st k" using at dr(1,2) kr(1,4) keep(1) by metis
  ultimately show ?thesis using dr(4) kr(5) unfolding fold_seen_def by blast
qed

section \<open>The view after a delete\<close>

lemma rehydrate_all_alone:
  assumes "\<forall>s \<in> set (rt_snapshots st). \<forall>i \<in> set sids. \<not> refers s i"
  shows "rehydrate_all env doomed sids st = Inr st"
  using assms
proof (induction sids)
  case (Cons sid sids)
  have no: "filter (\<lambda>s. sn_reuse_root s = Some sid \<and> w_id s \<noteq> sid \<and> w_id s \<notin> doomed \<and> w_status s = S_COMPLETED) (rt_snapshots st) = []"
    "filter (\<lambda>s. sn_overlay_base s = Some sid \<and> w_id s \<notin> doomed) (rt_snapshots st) = []"
    using Cons.prems by (auto simp: filter_empty_conv refers_def)
  have "rehydrate_reuse_heir env sid doomed st = Inr (None, st)"
    by (simp add: rehydrate_reuse_heir_def reuse_heir_def no)
  moreover have "rehydrate_overlay_dependents env sid None doomed st = Inr st"
    by (simp add: rehydrate_overlay_dependents_def no split: option.splits)
  ultimately show ?case using Cons by simp
qed simp

lemma sibling_ids_points:
  "sibling_ids st p = map fst (filter (\<lambda>(i, r, c, q). r = sn_resource_id p \<and> sql_le c (sn_created_at p) \<and> q \<notin> set SIBLING_EXCLUDED_STATES) (points st))"
  by (simp add: sibling_ids_def points_def filter_map o_def)

lemma created_of_points:
  "created_of st i = (case find (\<lambda>q. fst q = i) (points st) of None \<Rightarrow> 0 | Some (_, _, c, _) \<Rightarrow> (case c of None \<Rightarrow> 0 | Some u \<Rightarrow> u))"
proof -
  have "find (\<lambda>q. fst q = i) (map (\<lambda>s. (w_id s, sn_resource_id s, sn_created_at s, w_status s)) ss) =
      map_option (\<lambda>s. (w_id s, sn_resource_id s, sn_created_at s, w_status s)) (find (\<lambda>s. w_id s = i) ss)" for ss :: "snap_row list"
    by (induction ss) auto
  then show ?thesis by (auto simp: created_of_def points_def row_of_def created_key_def split: option.splits)
qed

lemma find_filter_other: "i \<notin> D \<Longrightarrow> find (\<lambda>q. fst q = i) (filter (\<lambda>q. fst q \<notin> D) qs) = find (\<lambda>q. fst q = i) qs"
  by (induction qs) auto

lemma points_deleted:
  assumes "points st' = filter (\<lambda>q. fst q \<notin> D) (points st)"
  shows "set (sibling_ids st' p) = set (sibling_ids st p) - D" "i \<notin> D \<Longrightarrow> created_of st' i = created_of st i"
proof -
  show "set (sibling_ids st' p) = set (sibling_ids st p) - D" unfolding sibling_ids_points assms by force
  assume "i \<notin> D"
  then show "created_of st' i = created_of st i" unfolding created_of_points assms by (simp add: find_filter_other)
qed

lemma is_top_restrict:
  assumes "is_top C S rows v" "\<And>y. y \<in> set rows \<Longrightarrow> it_snapshot_id y \<in> S \<Longrightarrow> it_snapshot_id y \<notin> D" "\<And>i. i \<in> S - D \<Longrightarrow> C' i = C i"
  shows "is_top C' (S - D) (filter (\<lambda>it. it_snapshot_id it \<notin> D) rows) v"
proof -
  obtain x where x: "x \<in> set rows" "it_snapshot_id x \<in> S" "unfiled x = v"
    and top: "\<And>y. y \<in> set rows \<Longrightarrow> it_snapshot_id y \<in> S \<Longrightarrow> C (it_snapshot_id y) \<le> C (it_snapshot_id x)"
    using assms(1) by (auto simp: is_top_def)
  show ?thesis unfolding is_top_def
    by (rule bexI [of _ x]) (use x top assms(2,3) in auto)
qed

lemma restore_row_united: "i \<in> set (sibling_ids st p) \<Longrightarrow> restore_row st p ext = newest_row st (sibling_ids st p) ext"
  by (cases "sibling_ids st p") (auto simp: restore_row_def)

text \<open>What a successful delete without dependents leaves of the tables.\<close>

lemma delete_alone:
  assumes del: "delete_snapshots env X events pending st = Inr (n, st')" and t: "timed (rt_snapshots st)"
    and alone: "\<forall>s \<in> set (rt_snapshots st). \<forall>i \<in> X. \<not> refers s i" and moved: "st' \<noteq> st"
  obtains folds D where "D \<subseteq> X" "\<forall>f \<in> set folds. fold_ok st D f"
    "\<forall>s \<in> set (rt_snapshots st). w_id s \<in> D \<and> in_union s \<and> (\<exists>it \<in> set (rt_items st). sparse_of (w_id s) it) \<longrightarrow> w_id s \<in> fst ` set folds"
    "points st' = filter (\<lambda>q. fst q \<notin> D) (points (fold_all folds st))"
    "rt_items st' = filter (\<lambda>it. it_snapshot_id it \<notin> D) (rt_items (fold_all folds st))"
proof -
  let ?sids = "requalify env X st"
  obtain folds D where f: "fold_targets st ?sids (set ?sids) = (folds, D)" by fastforce
  let ?kept = "filter (\<lambda>sid. sid \<in> D) ?sids"
  have dist: "distinct ?sids"
    using t unfolding requalify_def by (auto simp: timed_def ids_def distinct_map intro: inj_on_subset)
  have X: "set ?sids \<subseteq> X" by (auto simp: requalify_def)
  have D: "D \<subseteq> set ?sids" using fold_targets_shrinks [OF f] by simp
  then have kept: "set ?kept = D" by auto
  have "rehydrate_all env D ?kept st = Inr st" using alone X by (intro rehydrate_all_alone) auto
  then obtain st2 where st2: "delete_rows ?kept (flush pending (fold_all folds st)) = Inr st2" and st': "st' = add_events ?kept events st2"
    using del f moved by (auto simp: delete_snapshots_def Let_def split: if_splits)
  let ?G = "flush pending (fold_all folds st)"
  have tabs: "rt_snapshots st' = filter (\<lambda>s. w_id s \<notin> D) (rt_snapshots ?G)" "rt_items st' = filter (\<lambda>it. it_snapshot_id it \<notin> D) (rt_items ?G)"
    using st2 unfolding st' delete_rows_def Let_def kept
    by (auto simp: add_events_def rt_snapshots_def rt_items_def split: if_splits)
  have "points st' = filter (\<lambda>q. fst q \<notin> D) (points ?G)" by (simp add: points_def tabs(1) filter_map o_def)
  moreover have "rt_items ?G = rt_items (fold_all folds st)" by (simp add: flush_def)
  moreover have "\<forall>s \<in> set (rt_snapshots st). w_id s \<in> D \<and> in_union s \<and> (\<exists>it \<in> set (rt_items st). sparse_of (w_id s) it) \<longrightarrow>
      w_id s \<in> fst ` set folds"
    using fold_targets_ok [OF t f dist order_refl] D by blast
  moreover have "\<forall>f \<in> set folds. fold_ok st D f" using fold_targets_ok [OF t f dist order_refl] by blast
  ultimately show ?thesis using that [of D folds] D X tabs(2) by simp
qed

text \<open>
  C2. Deleting old restore points does not change what the kept ones restore. Let a delete of
  \<open>_delete_snapshots\<close> succeed for snapshots that no reuse pointer or overlay depends on. For every snapshot that
  survives and that a restore may pick, and every external id whose rows in the deleted snapshots are of a
  sparse type, the row the restore worker reads for it (the newest in the union of the snapshots up to that
  point) is the same captured row before and after, possibly filed under another snapshot; an external
  id that was absent stays absent.
\<close>

theorem delete_keeps_restore_view:
  assumes del: "delete_snapshots env X events pending st = Inr (n, st')" and t: "timed (rt_snapshots st)"
    and alone: "\<forall>s \<in> set (rt_snapshots st). \<forall>i \<in> X. \<not> refers s i"
    and rows: "distinct (map it_id (rt_items st))" "filed_once (rows_of ext (rt_items st))"
      "\<forall>it \<in> set (rt_items st). it_external_id it = ext \<and> it_snapshot_id it \<in> X \<longrightarrow> it_type it \<in> set SPARSE_ITEM_TYPES"
    and p: "p \<in> set (rt_snapshots st)" "in_union p" "w_id p \<in> set (ids (rt_snapshots st'))"
  shows "map_option unfiled (restore_row st' p ext) = map_option unfiled (restore_row st p ext)"
proof (cases "st' = st")
  case False
  obtain folds D where D: "D \<subseteq> X" and ok: "\<forall>f \<in> set folds. fold_ok st D f"
    and all: "\<forall>s \<in> set (rt_snapshots st). w_id s \<in> D \<and> in_union s \<and> (\<exists>it \<in> set (rt_items st). sparse_of (w_id s) it) \<longrightarrow> w_id s \<in> fst ` set folds"
    and pts: "points st' = filter (\<lambda>q. fst q \<notin> D) (points (fold_all folds st))"
    and its: "rt_items st' = filter (\<lambda>it. it_snapshot_id it \<notin> D) (rt_items (fold_all folds st))"
    using delete_alone [OF del t alone False] by metis
  let ?S = "set (sibling_ids st p)" and ?C = "created_of st" and ?C' = "created_of st'"
  let ?R = "rows_of ext (rt_items st)" and ?F = "rows_of ext (rt_items (fold_all folds st))" and ?R' = "rows_of ext (rt_items st')"
  have ready: "fold_ready D ext (rt_items st)" using rows D by (auto simp: fold_ready_def)
  have "ids (rt_snapshots st') = map fst (points st')" by (simp add: points_def ids_def)
  then have p_kept: "w_id p \<notin> D" using p(3) unfolding pts by auto
  then have seen: "\<forall>(d, k, w) \<in> set folds. d \<in> D \<and> k \<notin> D \<and> fold_seen ?C ?S d k w"
    using fold_ok_seen [OF t _ p(1,2)] ok by blast
  note views = fold_all_views [OF ready created_inj [OF t] seen]
  have pts': "points st' = filter (\<lambda>q. fst q \<notin> D) (points st)" using pts views by simp
  note S' = points_deleted(1) [OF pts', of p] and C' = points_deleted(2) [OF pts']
  have R': "?R' = filter (\<lambda>it. it_snapshot_id it \<notin> D) ?F" by (simp add: its rows_of_def conj_commute)
  have gone: "it_snapshot_id y \<notin> D" if y: "y \<in> set ?F" "it_snapshot_id y \<in> ?S" for y
  proof
    assume "it_snapshot_id y \<in> D"
    then have "y \<in> set ?R" "it_snapshot_id y \<notin> fst ` set folds" using views y(1) by blast+
    moreover from this have "y \<in> set (rt_items st)" "sparse_of (it_snapshot_id y) y"
      using rows(3) D \<open>it_snapshot_id y \<in> D\<close> by (auto simp: sparse_of_def)
    moreover obtain s where "s \<in> set (rt_snapshots st)" "w_id s = it_snapshot_id y" "in_union s"
      using y(2) unfolding set_sibling_ids by auto
    ultimately show False using all \<open>it_snapshot_id y \<in> D\<close> by metis
  qed
  have "w_id p \<in> ?S" using p(1,2) timed_le [OF t p(1,1)] unfolding set_sibling_ids by auto
  then have r: "restore_row st p ext = newest_row st (sibling_ids st p) ext" "restore_row st' p ext = newest_row st' (sibling_ids st' p) ext"
    using S' p_kept by (auto intro: restore_row_united)
  have inj: "inj_on ?C' (?S - D)" using created_inj [OF t, of p] C' by (auto simp: inj_on_def)
  have once: "filed_once ?R'" using views unfolding R' fold_ready_def filed_once_def by auto
  show ?thesis
  proof (cases "restore_row st p ext")
    case None
    then have absent: "\<forall>y \<in> set ?R'. it_snapshot_id y \<notin> set (sibling_ids st' p)"
      using views newest_row_top(2) unfolding r R' S' by auto
    have "restore_row st' p ext = None"
    proof (rule ccontr)
      assume "restore_row st' p ext \<noteq> None"
      then obtain x where "newest_row st' (sibling_ids st' p) ext = Some x" by (auto simp: r)
      from newest_row_top(1) [OF this] show False using absent unfolding is_top_def by blast
    qed
    with None show ?thesis by simp
  next
    case (Some x)
    then have "is_top ?C ?S ?F (unfiled x)" using newest_row_top(1) views unfolding r by blast
    then have top: "is_top ?C' (?S - D) ?R' (unfiled x)" unfolding R' using gone C' by (intro is_top_restrict) auto
    then obtain x' where x': "restore_row st' p ext = Some x'"
      using newest_row_top(2) [of st' "sibling_ids st' p" ext] unfolding r S' is_top_def by fastforce
    then have "is_top ?C' (?S - D) ?R' (unfiled x')" using newest_row_top(1) [of st' "sibling_ids st' p" ext] unfolding r S' by simp
    with is_top_unique [OF top this inj once] x' Some show ?thesis by simp
  qed
qed simp

text \<open>
  A file captured on day 3 and unchanged since, another captured on day 1 and again on day 3. When the day 3
  point goes, the day 5 point still restores both day 3 rows.
\<close>

definition sample_file :: "string \<Rightarrow> string \<Rightarrow> string \<Rightarrow> item_row" where
  "sample_file i sid ext =
     \<lparr>it_id = i, it_snapshot_id = sid, it_type = ''FILE'', it_external_id = ext, it_parent = None, it_size = Some 10,
      it_created_at = 0, it_rest = i\<rparr>"

definition sample_sparse :: ret_state where
  "sample_sparse =
     sample_ret [sample_point ''a'' 1 S_COMPLETED 1, sample_point ''b'' 3 S_COMPLETED 2, sample_point ''c'' 5 S_COMPLETED 0]
       [sample_file ''i1'' ''a'' ''f'', sample_file ''i2'' ''b'' ''f'', sample_file ''i3'' ''b'' ''g'']"

lemma sample_sparse_run:
  "(case delete_snapshots sample_ret_env {''b''} [] [] sample_sparse of Inl e \<Rightarrow> [] | Inr (n, st) \<Rightarrow> ids (rt_snapshots st)) = [''a'', ''c'']"
  "map_option unfiled (restore_row sample_sparse (sample_point ''c'' 5 S_COMPLETED 0) ''f'') = Some (unfiled (sample_file ''i2'' ''b'' ''f''))"
  by code_simp+

theorem delete_keeps_restore_view_witness:
  "\<exists>n st'. delete_snapshots sample_ret_env {''b''} [] [] sample_sparse = Inr (n, st') \<and> ids (rt_snapshots st') = [''a'', ''c''] \<and>
     map_option unfiled (restore_row st' (sample_point ''c'' 5 S_COMPLETED 0) ''f'') = Some (unfiled (sample_file ''i2'' ''b'' ''f''))"
proof -
  let ?p = "sample_point ''c'' 5 S_COMPLETED 0"
  obtain n st' where run: "delete_snapshots sample_ret_env {''b''} [] [] sample_sparse = Inr (n, st')"
    and left: "ids (rt_snapshots st') = [''a'', ''c'']"
    using sample_sparse_run(1) by (auto split: sum.splits prod.splits)
  have ss: "rt_snapshots sample_sparse =
      [sample_point ''a'' 1 S_COMPLETED 1, sample_point ''b'' 3 S_COMPLETED 2, ?p]"
    and its: "rt_items sample_sparse = [sample_file ''i1'' ''a'' ''f'', sample_file ''i2'' ''b'' ''f'', sample_file ''i3'' ''b'' ''g'']"
    by (simp_all add: sample_sparse_def sample_ret_def rt_snapshots_def rt_items_def)
  have "timed (rt_snapshots sample_sparse)"
    unfolding ss using DAY_pos by (simp add: timed_def ids_def sample_point_def)
  moreover have "\<forall>s \<in> set (rt_snapshots sample_sparse). \<forall>i \<in> {''b''}. \<not> refers s i"
    unfolding ss by (simp add: refers_def sample_point_def)
  moreover have "distinct (map it_id (rt_items sample_sparse))" "filed_once (rows_of ''f'' (rt_items sample_sparse))"
    "\<forall>it \<in> set (rt_items sample_sparse). it_external_id it = ''f'' \<and> it_snapshot_id it \<in> {''b''} \<longrightarrow> it_type it \<in> set SPARSE_ITEM_TYPES"
    unfolding its by (simp_all add: sample_file_def filed_once_def rows_of_def SPARSE_ITEM_TYPES_def)
  moreover have "?p \<in> set (rt_snapshots sample_sparse)" "in_union ?p" "w_id ?p \<in> set (ids (rt_snapshots st'))"
    unfolding ss left by (simp_all add: in_union_def sample_point_def)
  ultimately have "map_option unfiled (restore_row st' ?p ''f'') = map_option unfiled (restore_row sample_sparse ?p ''f'')"
    by (rule delete_keeps_restore_view [OF run])
  with run left sample_sparse_run(2) show ?thesis by auto
qed

end
