(* ===== verification/Spec2Isabelle.thy ===== *)
theory Spec2Isabelle
  imports Blob_Store Scheduler Retention_View
begin

text \<open>
  \<^bold>\<open>A backup platform for Microsoft 365 and Azure: keys, blobs, dispatch, work rows and retention.\<close>

  The repository runs a scheduler, workers and HTTP services around one PostgreSQL database, one message
  bus and an object store. The scheduler turns SLA policies into backup jobs; workers take jobs and shards
  under leases and write snapshots, whose content is encrypted on its way to the object store; a reconciler
  settles the rows of workers that died; a daily retention pass deletes restore points outside the policy;
  a restore reads the union of the snapshots up to the chosen point. The development models these parts from
  the sources under \<open>src/\<close>; every definition carries the name of the function, class or statement it
  translates, and the theories follow the order of the code.

  \<^bold>\<open>Conventions.\<close> \<open>Prelude\<close>: a call that may raise returns \<open>'a result\<close>, that is \<open>py_error + 'a\<close>, sequenced
  with \<open>bindE\<close>; a stateful call returns the new state beside its result, also when it raises. Tables are lists
  of records; \<open>UPDATE ... WHERE\<close> is \<open>sql_update\<close>, \<open>RETURNING\<close> is \<open>sql_returning\<close>; a refused constraint or row
  trigger is an error value and an exception inside a transaction returns the state of the last commit.
  Times are integers in microseconds; random bytes, uuids, clocks, the bus and database faults are arguments.
  Libraries that are not part of the sources (AES-GCM, HKDF, key wrap, cloud KMS clients, the cron trigger of
  APScheduler, MD5, the Power BI client, the object store) are parameters, with documented behaviour as named
  predicates such as \<open>aead_correct\<close> or \<open>kek_ok\<close>, each witnessed by a concrete instance.

  \<^bold>\<open>Content encryption\<close> (\<open>shared/crypto/\<close>, \<open>shared/storage/seaweedfs.py\<close>, \<open>services/tenant-service/main.py\<close>).
  \<open>Framer\<close> is the chunked AES-GCM frame of \<open>framer.py\<close>: round trip, rejection of truncated and spliced
  frames, and the exact relation of the streaming decoder to the single-shot one. \<open>Envelope\<close> is the blob
  envelope and the storage seam. \<open>Dek_Manager\<close> has the KEK providers, the SQL store and the manager; the
  locale \<open>dek_store\<close> is the contract of a store, interpreted by the SQL one, and the manager refines a growing
  vault of key ids. \<open>Crypto_Runtime\<close> is the process-wide hook; \<open>Encryption_Config\<close> the bootstrap, the
  configuration row and the operator endpoints. \<open>Blob_Store\<close> is the object store adapter, the verified upload
  and the encryption backfill. The properties: what was stored under encryption is read back after any run of
  key management; no reachable key table loses or duplicates a key, and its indexes never stop a mint; a
  verified upload is recoverable; and five places where the code departs from what it promises.

  \<^bold>\<open>Dispatch\<close> (\<open>services/backup-scheduler/\<close>). \<open>Rows\<close> holds the rows and workload flags; \<open>Dispatch_Policy\<close> the pure
  decisions and queries; \<open>Cron\<close> the schedule of a policy, with the locale \<open>cycle_trigger\<close> for what a cron
  trigger promises, interpreted by the fires of the cron fields the scheduler builds; \<open>Scheduler\<close> the tick,
  trigger, drain, catch-up, single backups and the SLA check as functions on one state, the relation
  \<open>sched_step\<close> of its own steps and \<open>sched_run\<close> for every interleaving of them with arbitrary writes of
  workers and operators. The properties: the scheduler never takes a policy above its concurrency cap, a drain
  takes exactly the right resources of the window its trigger has open and finishes the cycle, each dispatched
  resource is in exactly one job row, and the schedule and SLA arithmetic are exact. The scan for a cycle window
  is bounded by the number of fires the source allows, and \<open>cycle_window_spec\<close> shows the bound is enough.

  \<^bold>\<open>Work rows and leases\<close> (\<open>shared/lease.py\<close>, \<open>heartbeat.py\<close>, \<open>reclaim.py\<close>, \<open>db_retry.py\<close>, the shard handlers of
  \<open>workers/backup-worker/main.py\<close>, \<open>shared/reconciler.py\<close>). \<open>Work_Rows\<close> and \<open>Work_Guards\<close> are the tables and
  the copy and provider guards; \<open>Lease\<close> the lease statements, the registry and the extender loop; \<open>Shards\<close>
  the claim, terminal write and requeue of a shard under transient faults whose writes may have landed;
  \<open>Reconciler\<close> the four steps of the sweep, the republisher and the scheduler tick. The locale \<open>fenced\<close> states
  what a step relation owes the fence (tokens never fall, a live lease is not taken), is interpreted for the
  lease statements, for the shard handlers and for everything with the sweep, and carries the proof that a
  superseded handler is inert. Retries are bounded by the attempt count, so every function is total.

  \<^bold>\<open>Retention\<close> (\<open>shared/retention_cleanup.py\<close>, triggers and inventory function of \<open>shared/database.py\<close>).
  \<open>Calendar\<close> is Python's calendar with the locale \<open>period\<close>, whose law is that a period is an interval of time,
  interpreted by day, ISO week, month and year; the proof that bucket winners are the best of their period is
  done once in it. \<open>Retention_Keep\<close> has the keep sets. \<open>Retention_Sweep\<close> has counter restatement, the
  locked re-qualification, the heirs of reuse pointers and overlays, sparse folding in batches of 5000, the
  delete, and the loops over resources (pages of 500, a commit every 100) and tenants. \<open>Retention_View\<close> adds the
  union a restore reads (\<open>fetch_snapshot_items\<close> of \<open>workers/restore-worker/main.py\<close>). The properties: the keep
  set always holds the anchors, each deletion is justified and audited, handing over a chain root is well typed
  exactly under a condition the code does not establish, and a delete leaves what kept points restore unchanged.

  \<^bold>\<open>Not modelled.\<close> The capture code of the backup worker, the restore and export writers, the Azure, discovery,
  enrichment and chat export workers and the Graph clients, which are I/O against external services; the copy
  and provider engines beyond their guards, chat capture and catalogue, and the producers of overlays and
  reuse pointers, which are large and touch the modelled parts only through the rows modelled here; explicit
  deletion and blob garbage collection; the HTTP services, gateway and reports; the remaining scheduler
  loops; configuration parsing, schema bootstrap and migrations. Logging and metrics calls are left out
  throughout. In the sibling union the chat catalogue branch and the folder and item filters are left out, and
  the view property assumes that no pointer or overlay depends on what is deleted.
\<close>

end
